(* ===== verification/Prelude.thy ===== *)
theory Prelude
  imports Main "HOL-Library.Word"
begin

text \<open>
  The shared base of the development: first-match search in an array, the
  contract of a table of slots, reachable states of a step relation and the
  invariant rule for them, the wrap-around of C's int, byte strings with little-endian integers, and the
  result type of kernel operations that may panic.
\<close>

unbundle bit_operations_syntax

named_theorems search_simps \<open>facts about the first match in an array\<close>
named_theorems byte_simps \<open>facts about byte strings and integers stored in them\<close>
named_theorems kres_simps \<open>how results of kernel operations compose\<close>

type_synonym byte = "8 word"
type_synonym u16 = "16 word"
type_synonym u32 = "32 word"
type_synonym bytes = "byte list"

section \<open>The type int of C\<close>

text \<open>The value that a computation on \<^verbatim>\<open>int\<close> leaves: 32 bits in two's complement, as the compiled code has it.\<close>

definition int32 :: "int \<Rightarrow> int" where
  "int32 n = sint (word_of_int n :: u32)"

lemma int32_small: "- (2 ^ 31) \<le> n \<Longrightarrow> n < 2 ^ 31 \<Longrightarrow> int32 n = n"
  by (simp add: int32_def signed_of_int signed_take_bit_int_eq_self)

lemma int32_cong: "(word_of_int m :: u32) = word_of_int n \<Longrightarrow> int32 m = int32 n"
  by (simp add: int32_def)

lemma int32_add [simp]: "int32 (int32 m + n) = int32 (m + n)"
  by (rule int32_cong) (simp add: int32_def)

lemma int32_Suc: "int32 (n + 1) \<noteq> n"
proof
  assume "int32 (n + 1) = n"
  moreover have "word_of_int (int32 (n + 1)) = (word_of_int (n + 1) :: u32)"
    by (simp add: int32_def)
  ultimately show False
    by simp
qed

section \<open>The first match in an array\<close>

text \<open>
  The loop \<^verbatim>\<open>for(i = 0; i < N; i++) if(P(a[i])) return i;\<close> over an array
  held as a list.
\<close>

primrec first_idx :: "('a \<Rightarrow> bool) \<Rightarrow> 'a list \<Rightarrow> nat option" where
  "first_idx P [] = None"
| "first_idx P (x # xs) = (if P x then Some 0 else map_option Suc (first_idx P xs))"

lemma first_idx_None [search_simps]: "first_idx P xs = None \<longleftrightarrow> (\<forall>x\<in>set xs. \<not> P x)"
  by (induction xs) auto

lemma first_idx_SomeD:
  "first_idx P xs = Some i \<Longrightarrow> i < length xs \<and> P (xs ! i) \<and> (\<forall>j<i. \<not> P (xs ! j))"
proof (induction xs arbitrary: i)
  case (Cons x xs)
  then show ?case
    by (auto split: if_splits simp: less_Suc_eq_0_disj nth_Cons')
qed simp

lemma first_idx_SomeI:
  assumes "i < length xs" "P (xs ! i)" "\<And>j. j < i \<Longrightarrow> \<not> P (xs ! j)"
  shows "first_idx P xs = Some i"
proof (cases "first_idx P xs")
  case None
  then have "\<not> P (xs ! i)" using assms(1) by (auto simp: first_idx_None)
  with assms(2) show ?thesis by simp
next
  case (Some k)
  from first_idx_SomeD [OF this] assms have "\<not> k < i" "\<not> i < k" by auto
  with Some show ?thesis by simp
qed

lemma first_idx_Some [search_simps]:
  "first_idx P xs = Some i \<longleftrightarrow> i < length xs \<and> P (xs ! i) \<and> (\<forall>j<i. \<not> P (xs ! j))"
  by (blast intro: first_idx_SomeI dest: first_idx_SomeD)

lemma first_idx_update_other:
  assumes "first_idx P xs = Some i" "\<not> P y"
  shows "first_idx P (xs[i := y]) \<noteq> Some i"
  using assms by (auto simp: first_idx_Some)

section \<open>Tables of slots\<close>

text \<open>
  Many parts of the program keep a fixed table whose entries are free or in use, and
  an operation that claims the free entry with the least index (inodes and data blocks
  of the teaching file system, the kernel's file table and process table, a process's
  descriptors). The contract below is what every such operation promises; its clients
  reason from it alone.
\<close>

locale slot_table =
  fixes cap :: "'s \<Rightarrow> nat"
    and busy :: "'s \<Rightarrow> nat \<Rightarrow> bool"
    and claim :: "'s \<Rightarrow> (nat \<times> 's) option"
    and ok :: "'s \<Rightarrow> bool"
  assumes claim_Some: "ok s \<Longrightarrow> claim s = Some (i, s') \<Longrightarrow>
      i < cap s \<and> \<not> busy s i \<and> (\<forall>j<i. busy s j) \<and> ok s' \<and> cap s' = cap s \<and>
      (\<forall>j<cap s. busy s' j \<longleftrightarrow> busy s j \<or> j = i)"
    and claim_None: "ok s \<Longrightarrow> claim s = None \<longleftrightarrow> (\<forall>i<cap s. busy s i)"
begin

definition nfree :: "'s \<Rightarrow> nat" where
  "nfree s = card {i. i < cap s \<and> \<not> busy s i}"

fun claims :: "nat \<Rightarrow> 's \<Rightarrow> (nat list \<times> 's) option" where
  "claims 0 s = Some ([], s)"
| "claims (Suc k) s = (case claim s of None \<Rightarrow> None
     | Some (i, s1) \<Rightarrow> (case claims k s1 of None \<Rightarrow> None
         | Some (is, s2) \<Rightarrow> Some (i # is, s2)))"

lemma claim_nfree:
  assumes "ok s" "claim s = Some (i, s')"
  shows "nfree s = Suc (nfree s')"
proof -
  note c = claim_Some [OF assms]
  have "{j. j < cap s \<and> \<not> busy s j} = insert i {j. j < cap s' \<and> \<not> busy s' j}"
    using c by auto
  moreover have "i \<notin> {j. j < cap s' \<and> \<not> busy s' j}" using c by auto
  ultimately show ?thesis by (simp add: nfree_def)
qed

lemma claim_iff_nfree: "ok s \<Longrightarrow> (\<exists>r. claim s = Some r) \<longleftrightarrow> 0 < nfree s"
  using claim_None [of s] by (cases "claim s") (auto simp: nfree_def card_gt_0_iff)

lemma claims_iff_nfree: "ok s \<Longrightarrow> (\<exists>r. claims k s = Some r) \<longleftrightarrow> k \<le> nfree s"
proof (induction k arbitrary: s)
  case (Suc k)
  show ?case
  proof (cases "claim s")
    case None
    with Suc.prems claim_iff_nfree show ?thesis by fastforce
  next
    case (Some p)
    then obtain i s1 where p: "claim s = Some (i, s1)" by (cases p) auto
    have "ok s1" using claim_Some [OF Suc.prems p] by simp
    from Suc.IH [OF this] claim_nfree [OF Suc.prems p] p show ?thesis
      by (auto split: option.splits)
  qed
qed simp

lemma claims_fresh:
  "ok s \<Longrightarrow> claims k s = Some (is, s') \<Longrightarrow>
    length is = k \<and> distinct is \<and> (\<forall>i\<in>set is. i < cap s \<and> \<not> busy s i) \<and> ok s' \<and>
    cap s' = cap s \<and> (\<forall>j<cap s. busy s' j \<longleftrightarrow> busy s j \<or> j \<in> set is)"
proof (induction k arbitrary: s "is")
  case (Suc k)
  from Suc.prems(2) obtain i s1 is2 where
    c: "claim s = Some (i, s1)" and cs: "claims k s1 = Some (is2, s')" and "is = i # is2"
    by (auto split: option.splits)
  note one = claim_Some [OF Suc.prems(1) c]
  with Suc.IH [of s1 is2] cs \<open>is = i # is2\<close> show ?case by auto
qed simp

end

text \<open>A table whose entries can also be given back.\<close>

locale freeable_slot_table = slot_table cap busy claim ok
  for cap :: "'s \<Rightarrow> nat"
    and busy :: "'s \<Rightarrow> nat \<Rightarrow> bool"
    and claim :: "'s \<Rightarrow> (nat \<times> 's) option"
    and ok :: "'s \<Rightarrow> bool" +
  fixes give :: "nat \<Rightarrow> 's \<Rightarrow> 's"
  assumes give_busy: "ok s \<Longrightarrow> i < cap s \<Longrightarrow> busy s i \<Longrightarrow>
      ok (give i s) \<and> cap (give i s) = cap s \<and>
      (\<forall>j<cap s. busy (give i s) j \<longleftrightarrow> busy s j \<and> j \<noteq> i)"
begin

lemma give_claim_busy:
  assumes "ok s" "claim s = Some (i, s')"
  shows "\<forall>j<cap s. busy (give i s') j = busy s j"
  using claim_Some [OF assms] give_busy [of s' i] by auto

lemma give_then_claim:
  assumes "ok s" "i < cap s" "busy s i"
  shows "\<exists>k s'. claim (give i s) = Some (k, s') \<and> k \<le> i"
proof -
  note g = give_busy [OF assms]
  then have "claim (give i s) \<noteq> None"
    using claim_None [of "give i s"] assms(2) by auto
  then obtain k s' where ks: "claim (give i s) = Some (k, s')" by auto
  have "k \<le> i"
  proof (rule ccontr)
    assume "\<not> k \<le> i"
    then have "busy (give i s) i" using claim_Some [of "give i s" k s'] g ks by simp
    with g assms(2) show False by simp
  qed
  with ks show ?thesis by blast
qed

end

section \<open>Reachable states\<close>

inductive reach :: "('s \<Rightarrow> bool) \<Rightarrow> ('s \<Rightarrow> 's \<Rightarrow> bool) \<Rightarrow> 's \<Rightarrow> bool"
  for init step where
  reach_init: "init s \<Longrightarrow> reach init step s"
| reach_step: "reach init step s \<Longrightarrow> step s t \<Longrightarrow> reach init step t"

text \<open>A state predicate that holds initially and is kept by every step.\<close>

locale step_invariant =
  fixes init :: "'s \<Rightarrow> bool"
    and step :: "'s \<Rightarrow> 's \<Rightarrow> bool"
    and inv :: "'s \<Rightarrow> bool"
  assumes inv_init: "init s \<Longrightarrow> inv s"
    and inv_step: "inv s \<Longrightarrow> step s t \<Longrightarrow> inv t"
begin

lemma reach_inv: "reach init step s \<Longrightarrow> inv s"
  by (induction rule: reach.induct) (auto intro: inv_init inv_step)

end

end
