(* ===== verification/Byte_Store.thy ===== *)
theory Byte_Store
  imports Prelude
begin

text \<open>
  Byte strings that hold C data: little-endian integers with their round trips, and
  reading and writing a stretch of a byte string at a position, as \<^verbatim>\<open>lseek\<close> with \<^verbatim>\<open>read\<close> or
  \<^verbatim>\<open>write\<close>, or \<^verbatim>\<open>memmove\<close> into a buffer, do.
\<close>

section \<open>Little-endian integers\<close>

definition le16 :: "u16 \<Rightarrow> bytes" where
  "le16 w = [ucast w, ucast (drop_bit 8 w)]"

definition de16 :: "bytes \<Rightarrow> u16" where
  "de16 bs = ucast (bs ! 0) OR push_bit 8 (ucast (bs ! 1))"

definition le32 :: "u32 \<Rightarrow> bytes" where
  "le32 w = [ucast w, ucast (drop_bit 8 w), ucast (drop_bit 16 w), ucast (drop_bit 24 w)]"

definition de32 :: "bytes \<Rightarrow> u32" where
  "de32 bs = ucast (bs ! 0) OR push_bit 8 (ucast (bs ! 1)) OR push_bit 16 (ucast (bs ! 2)) OR
     push_bit 24 (ucast (bs ! 3))"

lemma length_le [simp]: "length (le16 v) = 2" "length (le32 w) = 4"
  by (simp_all add: le16_def le32_def)

lemma de16_le16 [simp, byte_simps]: "de16 (le16 w @ r) = w"
proof (rule bit_word_eqI)
  fix n assume "n < LENGTH(16)"
  then have "n < 8 \<or> (8 \<le> n \<and> n < 16)" by auto
  then show "bit (de16 (le16 w @ r)) n = bit w n"
    by (auto simp: de16_def le16_def bit_or_iff bit_push_bit_iff bit_ucast_iff bit_drop_bit_eq
        dest: bit_imp_le_length)
qed

lemma de32_le32 [simp, byte_simps]: "de32 (le32 w @ r) = w"
proof (rule bit_word_eqI)
  fix n assume n: "n < LENGTH(32)"
  have "bit (de32 (le32 w @ r)) n \<longleftrightarrow> (n < 8 \<and> bit w n) \<or> (8 \<le> n \<and> n < 16 \<and> bit w n) \<or>
      (16 \<le> n \<and> n < 24 \<and> bit w n) \<or> (24 \<le> n \<and> n < 32 \<and> bit w n)"
    using n by (simp add: de32_def le32_def bit_simps) (cases "n < 8"; cases "n < 16"; cases "n < 24"; simp add: less_diff_conv2)
  with n show "bit (de32 (le32 w @ r)) n = bit w n" by auto
qed

lemma de32_le32' [simp]: "de32 (le32 w) = w"
  using de32_le32 [of w "[]"] by simp

lemma de16_le16' [simp]: "de16 (le16 w) = w"
  using de16_le16 [of w "[]"] by simp

lemma le32_inject: "le32 v = le32 w \<longleftrightarrow> v = w"
  by (metis de32_le32')

text \<open>Signed 32-bit integers.\<close>

lemma sint_range:
  assumes "- 2147483648 \<le> k" "k < 2147483648"
  shows "sint (word_of_int k :: u32) = k"
proof -
  have "signed_take_bit 31 k = k" using assms by (intro signed_take_bit_int_eq_self) simp_all
  then show ?thesis by (simp add: signed_of_int)
qed

lemma sint_nat: "n < 2147483648 \<Longrightarrow> sint (word_of_nat n :: u32) = int n"
  using sint_range [of "int n"] by simp

lemma sint_small:
  assumes "unat (b :: u32) < 2147483648"
  shows "sint b = int (unat b)"
  using sint_nat [OF assms] by (simp only: of_nat_unat ucast_id word_of_nat_eq_iff)

lemma unat_nat: "n < 2147483648 \<Longrightarrow> unat (word_of_nat n :: u32) = n"
  by (simp add: unat_of_nat)

lemma unat_u32: "n < 0x100000000 \<Longrightarrow> unat (word_of_nat n :: u32) = n"
  by (simp add: unat_of_nat take_bit_eq_mod)

section \<open>Stretches of a byte string\<close>

definition dread :: "nat \<Rightarrow> nat \<Rightarrow> bytes \<Rightarrow> bytes" where
  "dread pos n d = take n (drop pos d)"

text \<open>A write past the end fills the gap with zeros.\<close>

definition dwrite :: "nat \<Rightarrow> bytes \<Rightarrow> bytes \<Rightarrow> bytes" where
  "dwrite pos bs d = take pos (d @ replicate (pos - length d) 0) @ bs @ drop (pos + length bs) d"

lemma length_dwrite [simp]: "length (dwrite pos bs d) = max (length d) (pos + length bs)"
  by (auto simp: dwrite_def)

lemma length_dread: "pos + n \<le> length d \<Longrightarrow> length (dread pos n d) = n"
  by (simp add: dread_def)

lemma dread_nth: "k < n \<Longrightarrow> pos + n \<le> length d \<Longrightarrow> dread pos n d ! k = d ! (pos + k)"
  by (simp add: dread_def)

lemma dwrite_nth:
  "k < length (dwrite pos bs d) \<Longrightarrow> dwrite pos bs d ! k =
     (if k < pos then (if k < length d then d ! k else 0)
      else if k < pos + length bs then bs ! (k - pos) else d ! k)"
  by (auto simp: dwrite_def nth_append min_def)

lemma dread_dwrite_same [byte_simps]: "length bs = n \<Longrightarrow> dread pos n (dwrite pos bs d) = bs"
  by (rule nth_equalityI) (auto simp: length_dread dread_nth dwrite_nth)

lemma dread_dwrite_other [byte_simps]:
  assumes "p + n \<le> length d" "p + n \<le> pos \<or> pos + length bs \<le> p"
  shows "dread p n (dwrite pos bs d) = dread p n d"
  using assms by (intro nth_equalityI) (auto simp: length_dread dread_nth dwrite_nth)

lemma dwrite_dwrite_same:
  "length bs = length cs \<Longrightarrow> dwrite pos cs (dwrite pos bs d) = dwrite pos cs d"
  by (rule nth_equalityI) (auto simp: dwrite_nth)

lemma dwrite_comm:
  assumes "p + length bs \<le> q \<or> q + length cs \<le> p" "p \<le> length d" "q \<le> length d"
  shows "dwrite p bs (dwrite q cs d) = dwrite q cs (dwrite p bs d)"
  using assms by (intro nth_equalityI) (auto simp: dwrite_nth)

lemma dwrite_dread_id: "pos + n \<le> length d \<Longrightarrow> dwrite pos (dread pos n d) d = d"
  by (rule nth_equalityI) (auto simp: dwrite_nth dread_nth length_dread)

section \<open>C strings\<close>

text \<open>
  Whether \<^verbatim>\<open>strcmp\<close> finds two strings equal; \<open>None\<close> when it runs past the end of a region
  before it finds a difference or a NUL.
\<close>

fun strcmp_eq :: "bytes \<Rightarrow> bytes \<Rightarrow> bool option" where
  "strcmp_eq (a # p) (b # q) = (if a \<noteq> b then Some False else if a = 0 then Some True else strcmp_eq p q)"
| "strcmp_eq _ _ = None"

lemma strcmp_eq_string:
  "0 \<notin> set s \<Longrightarrow> 0 \<notin> set t \<Longrightarrow> strcmp_eq (s @ 0 # p) (t @ 0 # q) = Some (s = t)"
proof (induction s arbitrary: t)
  case Nil
  then show ?case by (cases t) auto
next
  case (Cons a s)
  then show ?case by (cases t) auto
qed

text \<open>Against a region with no NUL where the string has its end.\<close>

lemma strcmp_eq_full:
  "0 \<notin> set s \<Longrightarrow> strcmp_eq (s @ c # p) (s @ 0 # q) = Some (c = 0)"
  by (induction s) auto

lemma strcmp_eq_take:
  "0 \<notin> set t \<Longrightarrow> length t < length p \<Longrightarrow>
    strcmp_eq p (t @ [0]) = Some (take (Suc (length t)) p = t @ [0])"
proof (induction t arbitrary: p)
  case Nil
  then show ?case by (cases p) auto
next
  case (Cons a t)
  then show ?case by (cases p) auto
qed

lemma take_string_eq:
  fixes s t p :: bytes
  assumes "0 \<notin> set s" "0 \<notin> set t" "length t \<le> length s + length p"
  shows "take (Suc (length t)) (s @ 0 # p) = t @ [0] \<longleftrightarrow> s = t"
  using strcmp_eq_take [OF assms(2), of "s @ 0 # p"] strcmp_eq_string [OF assms(1,2), of p "[]"] assms(3)
  by simp

end
