(* ===== verification/Chunk_Scan.thy ===== *)
theory Chunk_Scan
  imports Prelude
begin

text \<open>
  The part the two page allocators of hw5 have in common: the descriptor
  \<^verbatim>\<open>struct mm\<close> of a slot, the first-fit scan over the descriptors of
  one page, and the layout invariant of a page. The scan is written once, with the
  number of slots \<open>num\<close> (\<^verbatim>\<open>NUM\<close>) and the slot size \<open>unit\<close>
  (\<^verbatim>\<open>MINALLOC\<close>) as arguments. Pointers are byte addresses and 0 is
  \<^verbatim>\<open>NULL\<close>.
\<close>

type_synonym ptr = nat

abbreviation (input) NULL :: ptr where "NULL \<equiv> 0"

record mm =
  mm_adr :: ptr
  mm_size :: int
  mm_flag :: int

definition mm_free :: "int \<Rightarrow> mm" where
  "mm_free unit = \<lparr>mm_adr = NULL, mm_size = unit, mm_flag = 0\<rparr>"

lemma mm_free_sel [simp]:
  "mm_adr (mm_free unit) = NULL" "mm_size (mm_free unit) = unit" "mm_flag (mm_free unit) = 0"
  by (simp_all add: mm_free_def)

text \<open>The inner loop: from slot \<open>j\<close> on, add up free slots until \<open>sz\<close> is reached.\<close>

function fit_run :: "nat \<Rightarrow> int \<Rightarrow> mm list \<Rightarrow> int \<Rightarrow> nat \<Rightarrow> int \<Rightarrow> int option" where
  "fit_run num unit mem sz j valid =
     (if j < num then
        if mm_flag (mem ! j) = 1 then None
        else let valid' = valid + unit in
          if sz \<le> valid' then Some valid' else fit_run num unit mem sz (Suc j) valid'
      else None)"
  by pat_completeness auto
termination
  by (relation "measure (\<lambda>(num, unit, mem, sz, j, valid). num - j)") auto

declare fit_run.simps [simp del]

text \<open>
  The outer loop from slot \<open>i\<close>: \<open>Some None\<close> when it ends without a fit,
  \<open>Some (Some (i, valid))\<close> when slot \<open>i\<close> heads a fit of \<open>valid\<close> bytes. A used
  slot of more than one unit makes the index jump over the slots it covers. \<open>None\<close>
  means that the loop does not end.
\<close>

partial_function (option) scan_fit ::
  "nat \<Rightarrow> int \<Rightarrow> mm list \<Rightarrow> int \<Rightarrow> int \<Rightarrow> (nat \<times> int) option option" where
  "scan_fit num unit mem sz i =
     (if i < int num then
        if mm_flag (mem ! nat i) = 0 then
          (case fit_run num unit mem sz (nat i) 0 of
             Some valid \<Rightarrow> Some (Some (nat i, valid))
           | None \<Rightarrow> scan_fit num unit mem sz (i + 1))
        else if mm_size (mem ! nat i) \<noteq> unit then
          (let i' = i + (mm_size (mem ! nat i) div unit - 1) in
             if int num \<le> i' then Some None else scan_fit num unit mem sz (i' + 1))
        else scan_fit num unit mem sz (i + 1)
      else Some None)"

section \<open>The layout of a page\<close>

text \<open>
  Slot \<open>i\<close> of a page at \<open>base\<close> is either free, or the head of a chunk whose other slots
  look free and which stays inside the page.
\<close>

definition tail_free :: "int \<Rightarrow> mm list \<Rightarrow> nat \<Rightarrow> nat \<Rightarrow> bool" where
  "tail_free unit mem i n \<longleftrightarrow> (\<forall>j\<in>{i<..<i + n}. mem ! j = mm_free unit)"

definition slot_ok :: "nat \<Rightarrow> int \<Rightarrow> ptr \<Rightarrow> mm list \<Rightarrow> nat \<Rightarrow> bool" where
  "slot_ok num unit base mem i \<longleftrightarrow>
     mem ! i = mm_free unit \<or>
     (mm_flag (mem ! i) = 1 \<and> mm_adr (mem ! i) = base + i * nat unit \<and>
      mm_size (mem ! i) mod unit = 0 \<and> unit \<le> mm_size (mem ! i) \<and>
      i + nat (mm_size (mem ! i) div unit) \<le> num \<and>
      tail_free unit mem i (nat (mm_size (mem ! i) div unit)))"

definition page_ok :: "nat \<Rightarrow> int \<Rightarrow> ptr \<Rightarrow> mm list \<Rightarrow> bool" where
  "page_ok num unit base mem \<longleftrightarrow>
     length mem = num \<and> 0 < unit \<and> 0 < base \<and> (\<forall>i\<in>{0..<num}. slot_ok num unit base mem i)"

abbreviation used :: "mm list \<Rightarrow> nat \<Rightarrow> bool" where
  "used mem i \<equiv> mm_flag (mem ! i) = 1"

definition span :: "int \<Rightarrow> mm list \<Rightarrow> nat \<Rightarrow> nat" where
  "span unit mem i = nat (mm_size (mem ! i) div unit)"

text \<open>The slots chunks cover, and the chunks of a page as (address, length) pairs.\<close>

definition covered :: "int \<Rightarrow> mm list \<Rightarrow> nat \<Rightarrow> bool" where
  "covered unit mem j \<longleftrightarrow> (\<exists>i\<in>{0..<length mem}. used mem i \<and> i \<le> j \<and> j < i + span unit mem i)"

definition chunks :: "mm list \<Rightarrow> (ptr \<times> nat) set" where
  "chunks mem = {(mm_adr (mem ! i), nat (mm_size (mem ! i))) | i. i < length mem \<and> used mem i}"

lemma page_ok_slot: "page_ok num unit base mem \<Longrightarrow> i < num \<Longrightarrow> slot_ok num unit base mem i"
  by (simp add: page_ok_def)

lemma page_ok_flag:
  "page_ok num unit base mem \<Longrightarrow> i < num \<Longrightarrow> mm_flag (mem ! i) = (if used mem i then 1 else 0)"
  by (drule (1) page_ok_slot) (auto simp: slot_ok_def mm_free_def)

lemma page_ok_free:
  "page_ok num unit base mem \<Longrightarrow> i < num \<Longrightarrow> \<not> used mem i \<Longrightarrow> mem ! i = mm_free unit"
  by (drule (1) page_ok_slot) (auto simp: slot_ok_def mm_free_def)

lemma tail_freeD: "tail_free unit mem i n \<Longrightarrow> i < j \<Longrightarrow> j < i + n \<Longrightarrow> mem ! j = mm_free unit"
  unfolding tail_free_def by auto

lemma slot_ok_used:
  assumes "slot_ok num unit base mem i" "used mem i"
  shows "mm_adr (mem ! i) = base + i * nat unit" "mm_size (mem ! i) mod unit = 0"
    "unit \<le> mm_size (mem ! i)" "i + span unit mem i \<le> num" "tail_free unit mem i (span unit mem i)"
  using assms by (auto simp: slot_ok_def span_def mm_free_def)

lemma page_ok_used:
  assumes "page_ok num unit base mem" "i < num" "used mem i"
  shows "mm_adr (mem ! i) = base + i * nat unit"
    and "mm_size (mem ! i) = int (span unit mem i) * unit"
    and "0 < span unit mem i" and "i + span unit mem i \<le> num"
    and "\<And>j. i < j \<Longrightarrow> j < i + span unit mem i \<Longrightarrow> mem ! j = mm_free unit"
proof -
  note s = slot_ok_used [OF page_ok_slot [OF assms(1,2)] assms(3)]
  have u: "0 < unit" using assms(1) by (simp add: page_ok_def)
  have d: "1 \<le> mm_size (mem ! i) div unit" 
    using pos_imp_zdiv_pos_iff [OF u, of "mm_size (mem ! i)"] s(3) by linarith
  then have "int (span unit mem i) = mm_size (mem ! i) div unit" by (simp add: span_def)
  moreover have "mm_size (mem ! i) = (mm_size (mem ! i) div unit) * unit"
    using s(2) by (metis add.right_neutral div_mult_mod_eq)
  ultimately show "mm_size (mem ! i) = int (span unit mem i) * unit" by simp
  show "0 < span unit mem i" using d by (simp add: span_def)
  show "\<And>j. i < j \<Longrightarrow> j < i + span unit mem i \<Longrightarrow> mem ! j = mm_free unit"
    using tail_freeD [OF s(5)] by blast
qed (use slot_ok_used [OF page_ok_slot [OF assms(1,2)] assms(3)] in simp_all)

lemma span_mono_disjoint:
  assumes "page_ok num unit base mem" "i < num" "used mem i" "used mem j" "i < j"
  shows "i + span unit mem i \<le> j"
proof (rule ccontr)
  assume "\<not> ?thesis"
  then have "mem ! j = mm_free unit" using page_ok_used(5) [OF assms(1-3)] assms(5) by simp
  with assms(4) show False by (simp add: mm_free_def)
qed

section \<open>What the scan finds\<close>

text \<open>A run of \<open>k\<close> slots from \<open>h\<close> on that no chunk covers.\<close>

definition fits :: "nat \<Rightarrow> int \<Rightarrow> mm list \<Rightarrow> nat \<Rightarrow> nat \<Rightarrow> bool" where
  "fits num unit mem h k \<longleftrightarrow> h + k \<le> num \<and> (\<forall>j\<in>{h..<h + k}. \<not> covered unit mem j)"

text \<open>Slot \<open>i\<close> is not inside a chunk: every chunk with an earlier head ends before it.\<close>

definition boundary :: "int \<Rightarrow> mm list \<Rightarrow> nat \<Rightarrow> bool" where
  "boundary unit mem i \<longleftrightarrow> (\<forall>h<i. used mem h \<longrightarrow> h + span unit mem h \<le> i)"

lemma boundary_0 [simp]: "boundary unit mem 0"
  by (simp add: boundary_def)

lemma boundary_Suc:
  "boundary unit mem i \<Longrightarrow> \<not> used mem i \<or> span unit mem i = 1 \<Longrightarrow> boundary unit mem (Suc i)"
  unfolding boundary_def using less_Suc_eq by fastforce

lemma boundary_jump:
  assumes "page_ok num unit base mem" "boundary unit mem i" "i < num" "used mem i"
  shows "boundary unit mem (i + span unit mem i)"
  unfolding boundary_def
proof (intro allI impI)
  fix h assume h: "h < i + span unit mem i" "used mem h"
  consider "h < i" | "h = i" | "i < h" by linarith
  then show "h + span unit mem h \<le> i + span unit mem i"
  proof cases
    case 1
    with assms(2) h(2) show ?thesis by (fastforce simp: boundary_def)
  next
    case 3
    with page_ok_used(5) [OF assms(1,3,4) 3 h(1)] h(2) show ?thesis by (simp add: mm_free_def)
  qed simp
qed

lemma covered_used:
  assumes "page_ok num unit base mem" "i < num" "used mem i" "i \<le> j" "j < i + span unit mem i"
  shows "covered unit mem j"
  using assms by (auto simp: covered_def page_ok_def)

lemma uncovered_unused:
  assumes "page_ok num unit base mem" "j < num" "\<not> covered unit mem j"
  shows "\<not> used mem j"
  using covered_used [OF assms(1,2)] page_ok_used(3) [OF assms(1,2)] assms(3) by fastforce

lemma boundary_uncovered:
  assumes "boundary unit mem h" "\<forall>j\<in>{h..<h + k}. \<not> used mem j" "j \<in> {h..<h + k}"
  shows "\<not> covered unit mem j"
proof
  assume "covered unit mem j"
  then obtain c where c: "used mem c" "c \<le> j" "j < c + span unit mem c"
    by (auto simp: covered_def)
  show False
  proof (cases "c < h")
    case True
    with assms(1) c(1) have "c + span unit mem c \<le> h" by (simp add: boundary_def)
    with assms(3) c(3) show False by simp
  next
    case False
    with assms(2,3) c show False by simp
  qed
qed

lemma fits_boundary_iff:
  assumes "page_ok num unit base mem" "boundary unit mem h"
  shows "fits num unit mem h k \<longleftrightarrow> h + k \<le> num \<and> (\<forall>j\<in>{h..<h + k}. \<not> used mem j)"
  using assms boundary_uncovered [OF assms(2)] uncovered_unused [OF assms(1)]
  by (fastforce simp: fits_def)

lemma fit_run_Some:
  "fit_run num unit mem sz j v = Some w \<Longrightarrow>
    \<exists>k\<ge>1. w = v + int k * unit \<and> j + k \<le> num \<and> (\<forall>i\<in>{j..<j + k}. \<not> used mem i) \<and>
      sz \<le> w \<and> (\<forall>k'\<in>{1..<k}. v + int k' * unit < sz)"
proof (induction num unit mem sz j v rule: fit_run.induct)
  case (1 num unit mem sz j v)
  from "1.prems" have j: "j < num" "\<not> used mem j"
    by (auto simp: fit_run.simps [of num unit mem sz j v] Let_def split: if_splits)
  show ?case
  proof (cases "sz \<le> v + unit")
    case True
    with "1.prems" j have "w = v + unit"
      by (simp add: fit_run.simps [of num unit mem sz j v] Let_def)
    with True j show ?thesis by (intro exI [of _ 1]) auto
  next
    case False
    with "1.prems" j have "fit_run num unit mem sz (Suc j) (v + unit) = Some w"
      by (simp add: fit_run.simps [of num unit mem sz j v] Let_def)
    from "1.IH" [OF j refl False this] obtain k where
      k: "1 \<le> k" "w = v + unit + int k * unit" "Suc j + k \<le> num"
        "\<forall>i\<in>{Suc j..<Suc j + k}. \<not> used mem i" "sz \<le> w"
        "\<forall>k'\<in>{1..<k}. v + unit + int k' * unit < sz"
      by blast
    show ?thesis
    proof (intro exI [of _ "Suc k"] conjI ballI)
      show "w = v + int (Suc k) * unit" using k(2) by (simp add: algebra_simps)
      show "\<not> used mem i" if "i \<in> {j..<j + Suc k}" for i
        using that k(4) j(2) by (cases "i = j") auto
      show "v + int k' * unit < sz" if "k' \<in> {1..<Suc k}" for k'
      proof (cases "k' = 1")
        case False
        with that have "k' - 1 \<in> {1..<k}" "int k' = 1 + int (k' - 1)" by auto
        with k(6) show ?thesis by (metis (no_types, lifting) add.assoc distrib_right mult_1)
      qed (use False in simp)
    qed (use k in auto)
  qed
qed

lemma fit_run_None:
  "fit_run num unit mem sz j v = None \<Longrightarrow> 1 \<le> k \<Longrightarrow> j + k \<le> num \<Longrightarrow>
    \<forall>i\<in>{j..<j + k}. \<not> used mem i \<Longrightarrow> v + int k * unit < sz"
proof (induction num unit mem sz j v arbitrary: k rule: fit_run.induct)
  case (1 num unit mem sz j v)
  have j: "j < num" "\<not> used mem j" using "1.prems" by auto
  with "1.prems"(1) have lt: "\<not> sz \<le> v + unit"
    and rec: "fit_run num unit mem sz (Suc j) (v + unit) = None"
    by (auto simp: fit_run.simps [of num unit mem sz j v] Let_def split: if_splits)
  show ?case
  proof (cases "k = 1")
    case False
    with "1.prems" have "v + unit + int (k - 1) * unit < sz"
      by (intro "1.IH" [OF j refl lt rec]) auto
    moreover have "int k = 1 + int (k - 1)" using "1.prems"(2) by simp
    ultimately show ?thesis by (metis (no_types, lifting) add.assoc distrib_right mult_1)
  qed (use lt in simp)
qed

text \<open>What a result of the scan from slot \<open>i\<close> on says.\<close>

definition first_fit_from :: "nat \<Rightarrow> int \<Rightarrow> mm list \<Rightarrow> int \<Rightarrow> nat \<Rightarrow> (nat \<times> int) option \<Rightarrow> bool" where
  "first_fit_from num unit mem sz i r \<longleftrightarrow>
     (case r of
        None \<Rightarrow> (\<forall>h k. i \<le> h \<longrightarrow> 1 \<le> k \<longrightarrow> fits num unit mem h k \<longrightarrow> int k * unit < sz)
      | Some (h, v) \<Rightarrow> i \<le> h \<and> boundary unit mem h \<and>
          (\<exists>k\<ge>1. v = int k * unit \<and> fits num unit mem h k \<and> sz \<le> v \<and>
             (\<forall>k'\<in>{1..<k}. int k' * unit < sz)) \<and>
          (\<forall>h' k. i \<le> h' \<longrightarrow> h' < h \<longrightarrow> 1 \<le> k \<longrightarrow> fits num unit mem h' k \<longrightarrow> int k * unit < sz))"

lemma first_fit_from_skip:
  assumes "first_fit_from num unit mem sz i' r" "i \<le> i'"
    and "\<And>h k. i \<le> h \<Longrightarrow> h < i' \<Longrightarrow> 1 \<le> k \<Longrightarrow> fits num unit mem h k \<Longrightarrow> int k * unit < sz"
  shows "first_fit_from num unit mem sz i r"
proof (cases r)
  case None
  with assms show ?thesis by (auto simp: first_fit_from_def) (meson not_le_imp_less)
next
  case (Some hv)
  then obtain h v where r: "r = Some (h, v)" by (cases hv) auto
  have "int k * unit < sz" if "i \<le> h'" "h' < h" "1 \<le> k" "fits num unit mem h' k" for h' k
    using assms that r by (cases "h' < i'") (auto simp: first_fit_from_def not_less)
  with assms(1,2) r show ?thesis by (auto simp: first_fit_from_def)
qed

lemma covered_no_fit: "covered unit mem h \<Longrightarrow> 1 \<le> k \<Longrightarrow> \<not> fits num unit mem h k"
  by (force simp: fits_def)

lemma scan_fit_from:
  assumes "page_ok num unit base mem"
  shows "boundary unit mem i \<Longrightarrow>
    \<exists>r. scan_fit num unit mem sz (int i) = Some r \<and> first_fit_from num unit mem sz i r"
proof (induction "num - i" arbitrary: i rule: less_induct)
  case less
  note unfold = scan_fit.simps [of num unit mem sz "int i"]
  show ?case
  proof (cases "i < num")
    case False
    then show ?thesis by (auto simp: unfold first_fit_from_def fits_def)
  next
    case i: True
    note fl = page_ok_flag [OF assms i]
    have step: "\<exists>r. scan_fit num unit mem sz (int i') = Some r \<and> first_fit_from num unit mem sz i r"
      if "boundary unit mem i'" "i < i'"
        "\<And>h k. i \<le> h \<Longrightarrow> h < i' \<Longrightarrow> 1 \<le> k \<Longrightarrow> fits num unit mem h k \<Longrightarrow> int k * unit < sz" for i'
      using less.hyps [of i'] i that first_fit_from_skip [of num unit mem sz i' _ i] by fastforce
    show ?thesis
    proof (cases "used mem i")
      case False
      note fb = fits_boundary_iff [OF assms less.prems]
      show ?thesis
      proof (cases "fit_run num unit mem sz i 0")
        case None
        with i False fl have "scan_fit num unit mem sz (int i) = scan_fit num unit mem sz (int (Suc i))"
          by (simp add: unfold add.commute)
        moreover have "boundary unit mem (Suc i)" using less.prems False by (simp add: boundary_Suc)
        moreover have "int k * unit < sz" if "i \<le> h" "h < Suc i" "1 \<le> k" "fits num unit mem h k" for h k
          using that fit_run_None [OF None, of k] fb by (simp add: le_less_Suc_eq)
        ultimately show ?thesis using step [of "Suc i"] by (metis lessI)
      next
        case (Some v)
        with i False fl have "scan_fit num unit mem sz (int i) = Some (Some (i, v))"
          by (simp add: unfold)
        moreover have "first_fit_from num unit mem sz i (Some (i, v))"
          using fit_run_Some [OF Some] fb less.prems by (auto simp: first_fit_from_def)
        ultimately show ?thesis by blast
      qed
    next
      case True
      let ?n = "span unit mem i"
      note u = page_ok_used [OF assms i True]
      have un: "0 < unit" using assms by (simp add: page_ok_def)
      have no: "int k * unit < sz" if "i \<le> h" "h < i + ?n" "1 \<le> k" "fits num unit mem h k" for h k
        using covered_no_fit [OF covered_used [OF assms i True that(1,2)] that(3)] that(4) by blast
      have b: "boundary unit mem (i + ?n)" by (rule boundary_jump [OF assms less.prems i True])
      have dv: "mm_size (mem ! i) div unit = int ?n" using u(2) un by simp
      have one: "mm_size (mem ! i) = unit \<longleftrightarrow> ?n = 1" using u(2) un by auto
      show ?thesis
      proof (cases "int num \<le> int i + (int ?n - 1)")
        case True
        with u(3,4) show ?thesis by linarith
      next
        case False
        have "scan_fit num unit mem sz (int i) = scan_fit num unit mem sz (int (i + ?n))"
          using False \<open>used mem i\<close> i by (simp add: unfold dv one Let_def add.commute)
        with step [OF b _ no] u(3) show ?thesis by simp
      qed
    qed
  qed
qed

section \<open>Taking and giving back a chunk\<close>

lemma page_ok_unit: "page_ok num unit base mem \<Longrightarrow> int (nat unit) = unit \<and> 0 < nat unit"
  by (simp add: page_ok_def)

lemma chunks_image: "chunks mem =
    (\<lambda>i. (mm_adr (mem ! i), nat (mm_size (mem ! i)))) ` {i. i < length mem \<and> used mem i}"
  by (auto simp: chunks_def)

lemma chunks_conv:
  assumes "page_ok num unit base mem"
  shows "chunks mem = {(base + i * nat unit, span unit mem i * nat unit) | i. i < num \<and> used mem i}"
proof -
  have un: "0 < unit" and len: "length mem = num" using assms by (auto simp: page_ok_def)
  have "nat (mm_size (mem ! i)) = span unit mem i * nat unit" if "i < num" "used mem i" for i
    using page_ok_used(2) [OF assms that] un by (simp add: nat_mult_distrib)
  with page_ok_used(1) [OF assms] len show ?thesis
    unfolding chunks_def by (intro Collect_cong ex_cong1) auto
qed

lemma chunks_in_page:
  assumes "page_ok num unit base mem" "(a, n) \<in> chunks mem"
  shows "base \<le> a \<and> 0 < n \<and> a + n \<le> base + num * nat unit"
proof -
  from assms obtain i where i: "i < num" "used mem i"
    "a = base + i * nat unit" "n = span unit mem i * nat unit"
    by (auto simp: chunks_conv)
  note u = page_ok_used [OF assms(1) i(1,2)]
  have "(i + span unit mem i) * nat unit \<le> num * nat unit" using u(4) by (rule mult_le_mono1)
  with i u(3) page_ok_unit [OF assms(1)] show ?thesis by (simp add: algebra_simps)
qed

lemma chunks_disjoint:
  assumes ok: "page_ok num unit base mem"
    and "(a, n) \<in> chunks mem" "(b, m) \<in> chunks mem" "(a, n) \<noteq> (b, m)"
  shows "{a..<a + n} \<inter> {b..<b + m} = {}"
proof -
  have lt: "{base + i * nat unit..<base + i * nat unit + span unit mem i * nat unit} \<inter>
      {base + j * nat unit..<base + j * nat unit + y} = {}"
    if "i < num" "used mem i" "used mem j" "i < j" for i j y
  proof -
    have "(i + span unit mem i) * nat unit \<le> j * nat unit"
      by (rule mult_le_mono1 [OF span_mono_disjoint [OF ok that]])
    then show ?thesis by (auto simp: algebra_simps)
  qed
  from assms obtain i j where ij: "i < num" "used mem i" "j < num" "used mem j"
    and an: "a = base + i * nat unit" "n = span unit mem i * nat unit"
    and bm: "b = base + j * nat unit" "m = span unit mem j * nat unit"
    by (auto simp: chunks_conv)
  with assms(4) consider "i < j" | "j < i" by (metis linorder_neqE_nat)
  then show ?thesis
    by cases (use lt [of i j] lt [of j i] ij an bm in \<open>auto simp: Int_commute\<close>)
qed

definition take_chunk :: "int \<Rightarrow> ptr \<Rightarrow> mm list \<Rightarrow> nat \<Rightarrow> int \<Rightarrow> mm list" where
  "take_chunk unit base mem h v =
     mem[h := \<lparr>mm_adr = base + h * nat unit, mm_size = v, mm_flag = 1\<rparr>]"

lemma length_take_chunk [simp]: "length (take_chunk unit base mem h v) = length mem"
  by (simp add: take_chunk_def)

lemma take_chunk_nth:
  "h < length mem \<Longrightarrow> take_chunk unit base mem h v ! i =
     (if i = h then \<lparr>mm_adr = base + h * nat unit, mm_size = v, mm_flag = 1\<rparr> else mem ! i)"
  by (simp add: take_chunk_def)

lemma take_chunk_ok:
  assumes ok: "page_ok num unit base mem" and f: "fits num unit mem h k" and k: "1 \<le> k"
  shows "page_ok num unit base (take_chunk unit base mem h (int k * unit))"
proof -
  let ?mem = "take_chunk unit base mem h (int k * unit)"
  have h: "h < num" "h + k \<le> num" and un: "0 < unit" and len: "length mem = num"
    using f k ok by (auto simp: fits_def page_ok_def)
  have nth: "?mem ! i = (if i = h then \<lparr>mm_adr = base + h * nat unit, mm_size = int k * unit, mm_flag = 1\<rparr>
    else mem ! i)" for i using h len by (simp add: take_chunk_nth)
  have "slot_ok num unit base ?mem i" if i: "i < num" for i
  proof (cases "i = h")
    case True
    have "mem ! j = mm_free unit" if "h < j" "j < h + k" for j
      using uncovered_unused [OF ok, of j] page_ok_free [OF ok, of j] f h that by (auto simp: fits_def)
    then have "tail_free unit ?mem h k" by (auto simp: tail_free_def nth)
    with True h k un show ?thesis by (simp add: slot_ok_def nth)
  next
    case False
    have "tail_free unit ?mem i (span unit mem i)" if "used mem i"
    proof -
      have "h \<notin> {i<..<i + span unit mem i}"
        using covered_used [OF ok i that, of h] f k by (auto simp: fits_def)
      with slot_ok_used(5) [OF page_ok_slot [OF ok i] that] show ?thesis
        unfolding tail_free_def by (auto simp: nth)
    qed
    with page_ok_slot [OF ok i] False show ?thesis
      by (auto simp: slot_ok_def nth span_def)
  qed
  with ok len show ?thesis by (simp add: page_ok_def take_chunk_def)
qed

lemma take_chunk_chunks:
  assumes ok: "page_ok num unit base mem" and f: "fits num unit mem h k" and k: "1 \<le> k"
  shows "chunks (take_chunk unit base mem h (int k * unit)) =
      insert (base + h * nat unit, k * nat unit) (chunks mem)"
    and "\<And>a n. (a, n) \<in> chunks mem \<Longrightarrow>
      {a..<a + n} \<inter> {base + h * nat unit..<base + h * nat unit + k * nat unit} = {}"
proof -
  let ?mem = "take_chunk unit base mem h (int k * unit)"
  have h: "h < num" and un: "0 < unit" and len: "length mem = num"
    using f k ok by (auto simp: fits_def page_ok_def)
  have nu: "\<not> used mem h" using uncovered_unused [OF ok h] f k by (simp add: fits_def)
  have nth: "?mem ! i = (if i = h then \<lparr>mm_adr = base + h * nat unit, mm_size = int k * unit, mm_flag = 1\<rparr>
    else mem ! i)" for i using h len by (simp add: take_chunk_nth)
  have sz: "nat (int k * unit) = k * nat unit" using un by (simp add: nat_mult_distrib)
  have "{i. i < length ?mem \<and> used ?mem i} = insert h {i. i < length mem \<and> used mem i}"
    using h len by (auto simp: nth)
  then show eq: "chunks ?mem = insert (base + h * nat unit, k * nat unit) (chunks mem)"
    using nu by (auto simp: chunks_image nth sz image_iff)
  fix a n assume an: "(a, n) \<in> chunks mem"
  then obtain i where i: "i < num" "used mem i" "a = base + i * nat unit"
    using ok by (auto simp: chunks_conv)
  have "a \<noteq> base + h * nat unit" using i nu page_ok_unit [OF ok] by auto
  then show "{a..<a + n} \<inter> {base + h * nat unit..<base + h * nat unit + k * nat unit} = {}"
    using chunks_disjoint [OF take_chunk_ok [OF ok f k], of a n "base + h * nat unit" "k * nat unit"]
      an eq by auto
qed

text \<open>The loop of \<^verbatim>\<open>dealloc\<close> over one page: reset the first slot with the address.\<close>

definition release_adr :: "int \<Rightarrow> mm list \<Rightarrow> ptr \<Rightarrow> mm list" where
  "release_adr unit mem adr =
     (case first_idx (\<lambda>m. mm_adr m = adr) mem of
        None \<Rightarrow> mem
      | Some i \<Rightarrow> mem[i := \<lparr>mm_adr = NULL, mm_size = unit, mm_flag = 0\<rparr>])"

lemma used_adr_inj:
  assumes "page_ok num unit base mem" "i < num" "j < num" "used mem i"
    "mm_adr (mem ! j) = mm_adr (mem ! i)"
  shows "j = i"
proof -
  note ai = page_ok_used(1) [OF assms(1,2,4)]
  have b: "0 < base" using assms(1) by (simp add: page_ok_def)
  have "used mem j"
  proof (rule ccontr)
    assume "\<not> used mem j"
    from page_ok_free [OF assms(1,3) this] have "mm_adr (mem ! j) = 0" by (simp add: mm_free_def)
    with ai assms(5) b show False by simp
  qed
  from page_ok_used(1) [OF assms(1,3) this] ai assms(5)
  have "j * nat unit = i * nat unit" by presburger
  with page_ok_unit [OF assms(1)] show ?thesis by simp
qed

lemma free_slot_ok:
  assumes ok: "page_ok num unit base mem" and i: "i < num"
  shows "page_ok num unit base (mem[i := mm_free unit])"
proof -
  have len: "length mem = num" using ok by (simp add: page_ok_def)
  have nth: "mem[i := mm_free unit] ! j = (if j = i then mm_free unit else mem ! j)" for j
    using i len by simp
  have "slot_ok num unit base (mem[i := mm_free unit]) j" if j: "j < num" for j
  proof (cases "j = i")
    case True
    then show ?thesis by (simp add: slot_ok_def nth del: nth_list_update)
  next
    case False
    have "tail_free unit mem j n \<Longrightarrow> tail_free unit (mem[i := mm_free unit]) j n" for n
      unfolding tail_free_def nth by auto
    with page_ok_slot [OF ok j] False show ?thesis
      by (auto simp: slot_ok_def nth simp del: nth_list_update)
  qed
  with ok len show ?thesis by (simp add: page_ok_def)
qed

lemma release_adr_ok: "page_ok num unit base mem \<Longrightarrow> page_ok num unit base (release_adr unit mem adr)"
  using free_slot_ok [of num unit base mem]
  by (auto simp: release_adr_def mm_free_def page_ok_def first_idx_Some split: option.splits)

lemma release_adr_chunks:
  assumes ok: "page_ok num unit base mem"
  shows "chunks (release_adr unit mem adr) = {c \<in> chunks mem. fst c \<noteq> adr}"
proof (cases "first_idx (\<lambda>m. mm_adr m = adr) mem")
  case None
  then have "fst c \<noteq> adr" if "c \<in> chunks mem" for c
    using that by (auto simp: chunks_image first_idx_None)
  with None show ?thesis by (auto simp: release_adr_def)
next
  case (Some i)
  then have i: "i < length mem" "mm_adr (mem ! i) = adr" by (auto simp: first_idx_Some)
  have len: "length mem = num" using ok by (simp add: page_ok_def)
  have nth: "mem[i := mm_free unit] ! j = (if j = i then mm_free unit else mem ! j)" for j
    using i by simp
  have "{j. j < length mem \<and> used (mem[i := mm_free unit]) j} = {j. j < length mem \<and> used mem j} - {i}"
    by (auto simp: nth simp del: nth_list_update split: if_splits)
  moreover have inj: "j = i" if "j < length mem" "used mem j" "mm_adr (mem ! j) = adr" for j
    using used_adr_inj [OF ok, of j i] that i len by simp
  moreover define f where "f j = (mm_adr (mem ! j), nat (mm_size (mem ! j)))" for j
  ultimately have "chunks (mem[i := mm_free unit]) = f ` ({j. j < length mem \<and> used mem j} - {i})"
    by (simp add: chunks_image nth f_def del: nth_list_update)
  also have "\<dots> = {c \<in> f ` {j. j < length mem \<and> used mem j}. fst c \<noteq> adr}"
    using inj i by (auto simp: f_def)
  also have "\<dots> = {c \<in> chunks mem. fst c \<noteq> adr}" by (simp add: chunks_image f_def)
  finally have "chunks (mem[i := mm_free unit]) = {c \<in> chunks mem. fst c \<noteq> adr}" .
  with Some show ?thesis by (simp add: release_adr_def mm_free_def)
qed

lemma release_take_chunk:
  assumes ok: "page_ok num unit base mem" and f: "fits num unit mem h k" and k: "1 \<le> k"
  shows "release_adr unit (take_chunk unit base mem h (int k * unit)) (base + h * nat unit) = mem"
proof -
  let ?mem = "take_chunk unit base mem h (int k * unit)"
  have h: "h < num" and len: "length mem = num" using f k ok by (auto simp: fits_def page_ok_def)
  have nu: "\<not> used mem h" using uncovered_unused [OF ok h] f k by (simp add: fits_def)
  have at: "?mem ! h = \<lparr>mm_adr = base + h * nat unit, mm_size = int k * unit, mm_flag = 1\<rparr>"
    using h len by (simp add: take_chunk_nth)
  have "first_idx (\<lambda>m. mm_adr m = base + h * nat unit) ?mem = Some h"
  proof (rule first_idx_SomeI)
    show "mm_adr (?mem ! j) \<noteq> base + h * nat unit" if "j < h" for j
      using used_adr_inj [OF take_chunk_ok [OF ok f k] h, of j] h that at by auto
  qed (use h len at in simp_all)
  then have "release_adr unit ?mem (base + h * nat unit) = ?mem[h := mm_free unit]"
    by (simp add: release_adr_def mm_free_def)
  also have "\<dots> = mem[h := mm_free unit]" by (simp add: take_chunk_def)
  also have "\<dots> = mem" using page_ok_free [OF ok h nu] by (metis list_update_id)
  finally show ?thesis .
qed

end
