(* ===== verification/Allocator_Spec.thy ===== *)
theory Allocator_Spec
  imports Chunk_Scan
begin

text \<open>
  What a client of \<^verbatim>\<open>alloc\<close> and \<^verbatim>\<open>dealloc\<close> relies on, as a locale: the live
  chunks of a state as a set of (address, length) pairs, a fresh chunk that overlaps no
  live one, and a release that removes exactly the chunk at the address. Both page
  allocators of hw5 are instances. \<open>mach\<close> is what the machine answers to the
  operation (the results of \<^verbatim>\<open>mmap\<close>), and \<open>mach_ok\<close> what is documented of it.
\<close>

datatype request = Alloc int | Dealloc ptr

text \<open>
  A run of requests, each with the machine's answer to it; the addresses returned, in
  order, and the last state.
\<close>

fun serve :: "('m \<Rightarrow> 's \<Rightarrow> int \<Rightarrow> (ptr \<times> 's) option) \<Rightarrow> ('s \<Rightarrow> ptr \<Rightarrow> 's) \<Rightarrow>
    's \<Rightarrow> ('m \<times> request) list \<Rightarrow> (ptr list \<times> 's) option" where
  "serve al de s [] = Some ([], s)"
| "serve al de s ((m, Alloc sz) # rs) = (case al m s sz of None \<Rightarrow> None
     | Some (a, s1) \<Rightarrow> (case serve al de s1 rs of None \<Rightarrow> None
         | Some (as, s2) \<Rightarrow> Some (a # as, s2)))"
| "serve al de s ((m, Dealloc a) # rs) = serve al de (de s a) rs"

fun answers_ok :: "('s \<Rightarrow> 'm \<Rightarrow> bool) \<Rightarrow> ('m \<Rightarrow> 's \<Rightarrow> int \<Rightarrow> (ptr \<times> 's) option) \<Rightarrow>
    ('s \<Rightarrow> ptr \<Rightarrow> 's) \<Rightarrow> 's \<Rightarrow> ('m \<times> request) list \<Rightarrow> bool" where
  "answers_ok mok al de s [] = True"
| "answers_ok mok al de s ((m, Alloc sz) # rs) =
     (mok s m \<and> (case al m s sz of None \<Rightarrow> True | Some (a, s1) \<Rightarrow> answers_ok mok al de s1 rs))"
| "answers_ok mok al de s ((m, Dealloc a) # rs) = answers_ok mok al de (de s a) rs"

definition separate :: "(ptr \<times> nat) set \<Rightarrow> bool" where
  "separate C \<longleftrightarrow> (\<forall>(a, n)\<in>C. \<forall>(b, k)\<in>C. (a, n) \<noteq> (b, k) \<longrightarrow> {a..<a + n} \<inter> {b..<b + k} = {})"

locale allocator =
  fixes wf :: "'s \<Rightarrow> bool"
    and live :: "'s \<Rightarrow> (ptr \<times> nat) set"
    and mach_ok :: "'s \<Rightarrow> 'm \<Rightarrow> bool"
    and al :: "'m \<Rightarrow> 's \<Rightarrow> int \<Rightarrow> (ptr \<times> 's) option"
    and de :: "'s \<Rightarrow> ptr \<Rightarrow> 's"
  assumes al_total: "wf s \<Longrightarrow> mach_ok s m \<Longrightarrow> \<exists>r. al m s sz = Some r"
    and al_null: "wf s \<Longrightarrow> mach_ok s m \<Longrightarrow> al m s sz = Some (NULL, s') \<Longrightarrow>
      wf s' \<and> live s' = live s"
    and al_chunk: "wf s \<Longrightarrow> mach_ok s m \<Longrightarrow> al m s sz = Some (a, s') \<Longrightarrow> a \<noteq> NULL \<Longrightarrow>
      wf s' \<and> (\<exists>n>0. sz \<le> int n \<and> live s' = insert (a, n) (live s) \<and>
        (\<forall>(b, k)\<in>live s. {b..<b + k} \<inter> {a..<a + n} = {}))"
    and de_live: "wf s \<Longrightarrow> wf (de s a) \<and> live (de s a) = {c \<in> live s. fst c \<noteq> a}"
    and live_pos: "wf s \<Longrightarrow> (a, n) \<in> live s \<Longrightarrow> a \<noteq> NULL \<and> 0 < n"
begin

lemma al_separate:
  assumes "wf s" "mach_ok s m" "al m s sz = Some (a, s')" "separate (live s)"
  shows "separate (live s')"
proof (cases "a = NULL")
  case True
  with al_null assms show ?thesis by metis
next
  case False
  from al_chunk [OF assms(1-3) False] assms(4) show ?thesis
    unfolding separate_def by (fastforce simp: Int_commute)
qed

lemma serve_separate:
  "wf s \<Longrightarrow> separate (live s) \<Longrightarrow> answers_ok mach_ok al de s rs \<Longrightarrow>
    \<exists>as s'. serve al de s rs = Some (as, s') \<and> wf s' \<and> separate (live s')"
proof (induction rs arbitrary: s)
  case (Cons q rs)
  obtain m r where q: "q = (m, r)" by (cases q)
  show ?case
  proof (cases r)
    case (Alloc sz)
    with Cons.prems q have m: "mach_ok s m" by simp
    with al_total [OF Cons.prems(1)] obtain a s1 where r: "al m s sz = Some (a, s1)" by force
    have "wf s1" using al_null al_chunk Cons.prems(1) m r by (cases "a = NULL") metis+
    with Cons.IH [of s1] Cons.prems q Alloc r al_separate [OF Cons.prems(1) m r]
    show ?thesis by fastforce
  next
    case (Dealloc a)
    have "separate (live (de s a))"
      using Cons.prems de_live [of s a] by (force simp: separate_def)
    with Cons Dealloc q de_live [of s a] show ?thesis by simp
  qed
qed simp

lemma al_then_de:
  assumes "wf s" "mach_ok s m" "al m s sz = Some (a, s')" "a \<noteq> NULL"
  shows "live (de s' a) = live s"
proof -
  from al_chunk [OF assms] obtain n where n: "wf s'" "0 < n" "live s' = insert (a, n) (live s)"
    "\<forall>(b, k)\<in>live s. {b..<b + k} \<inter> {a..<a + n} = {}" by blast
  have "b \<noteq> a" if "(b, k) \<in> live s" for b k
  proof
    assume "b = a"
    with n(2,4) that have "{a..<a + k} \<inter> {a..<a + n} = {}" by auto
    moreover have "0 < k" using live_pos [OF assms(1) that] by simp
    ultimately show False using n(2) by (auto simp: disjoint_iff)
  qed
  then have "\<forall>c\<in>live s. fst c \<noteq> a" by (metis prod.collapse)
  then show ?thesis using de_live [OF n(1)] n(3) by auto
qed

end

end
