(* ===== verification/Alloc.thy ===== *)
theory Alloc
  imports Allocator_Spec
begin

text \<open>
  The page allocator of \<^verbatim>\<open>hw5/alloc/alloc.c\<close>: one page of 4096 bytes in 512 slots of 8
  bytes, first fit. The result of \<^verbatim>\<open>mmap\<close> and \<^verbatim>\<open>munmap\<close> is an argument of the
  operation that calls it.
\<close>

definition PAGESIZE :: int where "PAGESIZE = 4096"
definition MINALLOC :: int where "MINALLOC = 8"
definition NUM :: nat where "NUM = 512"

abbreviation MAP_FAILED :: ptr where "MAP_FAILED \<equiv> 18446744073709551615"

record alloc_state =
  pg_start :: ptr
  pg_mem :: "mm list"

definition mem_reset :: "mm list" where
  "mem_reset = map (\<lambda>i. \<lparr>mm_adr = NULL, mm_size = MINALLOC, mm_flag = 0\<rparr>) [0..<NUM]"

definition init_alloc :: "ptr \<Rightarrow> alloc_state \<Rightarrow> int \<times> alloc_state" where
  "init_alloc mmap_ret s =
     (let s = s\<lparr>pg_mem := mem_reset, pg_start := mmap_ret\<rparr> in
      if pg_start s = MAP_FAILED then (1, s) else (0, s))"

definition cleanup :: "int \<Rightarrow> alloc_state \<Rightarrow> int \<times> alloc_state" where
  "cleanup munmap_ret s =
     (let s = s\<lparr>pg_mem := mem_reset\<rparr> in if munmap_ret = -1 then (1, s) else (0, s))"

definition alloc :: "alloc_state \<Rightarrow> int \<Rightarrow> (ptr \<times> alloc_state) option" where
  "alloc s sz =
     (if PAGESIZE < sz \<or> sz mod 8 \<noteq> 0 then Some (NULL, s)
      else case scan_fit NUM MINALLOC (pg_mem s) sz 0 of
        None \<Rightarrow> None
      | Some None \<Rightarrow> Some (NULL, s)
      | Some (Some (i, valid)) \<Rightarrow>
          (let adr = i * nat MINALLOC + pg_start s in
             Some (adr, s\<lparr>pg_mem := (pg_mem s)[i := \<lparr>mm_adr = adr, mm_size = valid, mm_flag = 1\<rparr>]\<rparr>)))"

definition dealloc :: "alloc_state \<Rightarrow> ptr \<Rightarrow> alloc_state" where
  "dealloc s adr = s\<lparr>pg_mem := release_adr MINALLOC (pg_mem s) adr\<rparr>"

section \<open>The invariant and the operations\<close>

definition alloc_wf :: "alloc_state \<Rightarrow> bool" where
  "alloc_wf s \<longleftrightarrow> page_ok NUM MINALLOC (pg_start s) (pg_mem s)"

definition live_chunks :: "alloc_state \<Rightarrow> (ptr \<times> nat) set" where
  "live_chunks s = chunks (pg_mem s)"

abbreviation room :: "alloc_state \<Rightarrow> nat \<Rightarrow> nat \<Rightarrow> bool" where
  "room s h k \<equiv> fits NUM MINALLOC (pg_mem s) h k"

lemma mem_reset_eq: "mem_reset = replicate NUM (mm_free MINALLOC)"
  by (simp add: mem_reset_def mm_free_def map_replicate_const)

lemma reset_page_ok: "0 < base \<Longrightarrow> page_ok NUM MINALLOC base mem_reset"
  by (auto simp: page_ok_def mem_reset_eq slot_ok_def MINALLOC_def)

lemma reset_chunks: "chunks mem_reset = {}"
  by (auto simp: chunks_image mem_reset_eq)

lemma init_alloc_wf: "0 < r \<Longrightarrow> alloc_wf (snd (init_alloc r s)) \<and> live_chunks (snd (init_alloc r s)) = {}"
  by (simp add: init_alloc_def alloc_wf_def reset_page_ok live_chunks_def reset_chunks Let_def)

lemma alloc_cases:
  assumes "alloc_wf s"
  obtains (bad) "PAGESIZE < sz \<or> sz mod 8 \<noteq> 0" "alloc s sz = Some (NULL, s)"
  | (full) "alloc s sz = Some (NULL, s)" "sz \<le> PAGESIZE" "sz mod 8 = 0"
      "first_fit_from NUM MINALLOC (pg_mem s) sz 0 None"
  | (fit) h k where "1 \<le> k" "room s h k" "sz \<le> int k * MINALLOC" "\<forall>k'\<in>{1..<k}. int k' * MINALLOC < sz"
      "\<And>h' k'. h' < h \<Longrightarrow> 1 \<le> k' \<Longrightarrow> room s h' k' \<Longrightarrow> int k' * MINALLOC < sz"
      "sz \<le> PAGESIZE" "sz mod 8 = 0"
      "alloc s sz = Some (pg_start s + h * nat MINALLOC,
         s\<lparr>pg_mem := take_chunk MINALLOC (pg_start s) (pg_mem s) h (int k * MINALLOC)\<rparr>)"
proof (cases "PAGESIZE < sz \<or> sz mod 8 \<noteq> 0")
  case True
  then show ?thesis using bad by (simp add: alloc_def)
next
  case False
  from scan_fit_from [OF assms [unfolded alloc_wf_def] boundary_0, of sz] obtain r where
    r: "scan_fit NUM MINALLOC (pg_mem s) sz 0 = Some r" "first_fit_from NUM MINALLOC (pg_mem s) sz 0 r"
    by auto
  show ?thesis
  proof (cases r)
    case None
    with False r full show ?thesis by (simp add: alloc_def)
  next
    case (Some hv)
    then obtain h v where hv: "r = Some (h, v)" by (cases hv) auto
    with r(2) obtain k where k: "1 \<le> k" "v = int k * MINALLOC" "room s h k" "sz \<le> v"
      "\<forall>k'\<in>{1..<k}. int k' * MINALLOC < sz"
      "\<And>h' k'. h' < h \<Longrightarrow> 1 \<le> k' \<Longrightarrow> room s h' k' \<Longrightarrow> int k' * MINALLOC < sz"
      by (auto simp: first_fit_from_def)
    with False r hv show ?thesis
      by (intro fit [of k h]) (auto simp: alloc_def Let_def take_chunk_def add.commute)
  qed
qed

lemma alloc_live:
  assumes wf: "alloc_wf s" and "alloc s sz = Some (a, s')" "a \<noteq> NULL"
  shows "alloc_wf s' \<and> pg_start s' = pg_start s \<and> (\<exists>n>0. sz \<le> int n \<and> live_chunks s' = insert (a, n) (live_chunks s) \<and>
    (\<forall>(b, k)\<in>live_chunks s. {b..<b + k} \<inter> {a..<a + n} = {}))"
proof (cases rule: alloc_cases [OF wf, of sz, case_names bad full fit])
  case (fit h k)
  note ok = wf [unfolded alloc_wf_def]
  have s': "a = pg_start s + h * nat MINALLOC"
    "s' = s\<lparr>pg_mem := take_chunk MINALLOC (pg_start s) (pg_mem s) h (int k * MINALLOC)\<rparr>"
    using fit(8) assms(2) by auto
  let ?n = "k * nat MINALLOC"
  have "0 < ?n" "sz \<le> int ?n" using fit(1,3) by (simp_all add: MINALLOC_def)
  moreover have "alloc_wf s'" using take_chunk_ok [OF ok fit(2,1)] s' by (simp add: alloc_wf_def)
  moreover have "live_chunks s' = insert (a, ?n) (live_chunks s)"
    using take_chunk_chunks(1) [OF ok fit(2,1)] s' by (simp add: live_chunks_def)
  moreover have "\<forall>(b, k)\<in>live_chunks s. {b..<b + k} \<inter> {a..<a + ?n} = {}"
    using take_chunk_chunks(2) [OF ok fit(2,1)] s' by (force simp: live_chunks_def)
  ultimately show ?thesis using s' by (intro conjI exI [of _ ?n]) simp_all
qed (use assms in simp_all)

lemma alloc_null: "alloc_wf s \<Longrightarrow> alloc s sz = Some (NULL, s') \<Longrightarrow> s' = s"
  by (cases rule: alloc_cases [of s sz]) (auto simp: alloc_wf_def page_ok_def)

interpretation page: allocator alloc_wf live_chunks "\<lambda>s (m :: unit). True" "\<lambda>m. alloc" dealloc
proof unfold_locales
  show "alloc_wf s \<Longrightarrow> \<exists>r. alloc s sz = Some r" for s sz
    by (cases rule: alloc_cases [of s sz]) auto
  show "alloc_wf s \<Longrightarrow> alloc s sz = Some (NULL, s') \<Longrightarrow> alloc_wf s' \<and> live_chunks s' = live_chunks s"
    for s sz s' using alloc_null by blast
  show "alloc_wf (dealloc s a) \<and> live_chunks (dealloc s a) = {c \<in> live_chunks s. fst c \<noteq> a}"
    if "alloc_wf s" for s a
    using release_adr_ok [OF that [unfolded alloc_wf_def]]
      release_adr_chunks [OF that [unfolded alloc_wf_def]]
    by (simp add: alloc_wf_def live_chunks_def dealloc_def)
  show "a \<noteq> NULL \<and> 0 < n" if "alloc_wf s" "(a, n) \<in> live_chunks s" for s a n
    using chunks_in_page [OF that [unfolded alloc_wf_def live_chunks_def]] that(1)
    by (auto simp: alloc_wf_def page_ok_def)
qed (use alloc_live in blast)

lemma alloc_start: "alloc s sz = Some (a, s') \<Longrightarrow> pg_start s' = pg_start s"
  by (auto simp: alloc_def Let_def split: if_splits option.splits)

lemma serve_start:
  "serve (\<lambda>m :: unit. alloc) dealloc s rs = Some (as, s') \<Longrightarrow> pg_start s' = pg_start s"
proof (induction rs arbitrary: s as)
  case (Cons q rs)
  obtain m r where q: "q = (m, r)" by (cases q)
  show ?case
  proof (cases r)
    case (Alloc sz)
    with Cons.prems q obtain a s1 as2 where "alloc s sz = Some (a, s1)"
      "serve (\<lambda>m :: unit. alloc) dealloc s1 rs = Some (as2, s')"
      by (auto split: option.splits)
    with Cons.IH alloc_start show ?thesis by metis
  next
    case (Dealloc a)
    with Cons.IH [of "dealloc s a"] Cons.prems q show ?thesis by (simp add: dealloc_def)
  qed
qed simp

lemma answers_ok_True: "answers_ok (\<lambda>s m. True) al de s rs"
proof (induction rs arbitrary: s)
  case (Cons q rs)
  obtain m r where "q = (m, r)" by (cases q)
  with Cons show ?case by (cases r) (auto split: option.splits)
qed simp

section \<open>Properties\<close>

text \<open>C9. In a well-formed state \<^verbatim>\<open>alloc\<close> always returns. It returns \<^verbatim>\<open>NULL\<close>, with the
  state unchanged, only for a size above the page size or not a multiple of 8, or when no run of
  free slots is long enough; otherwise the result heads the first such run, the new chunk has the
  least sufficient number of slots, and exactly that chunk becomes live.\<close>

theorem alloc_first_fit:
  assumes "alloc_wf s"
  shows "\<exists>a s'. alloc s sz = Some (a, s') \<and>
    (if a = NULL
     then s' = s \<and> (4096 < sz \<or> sz mod 8 \<noteq> 0 \<or> (\<forall>h k. 1 \<le> k \<longrightarrow> room s h k \<longrightarrow> 8 * int k < sz))
     else (\<exists>h k. a = pg_start s + 8 * h \<and> 1 \<le> k \<and> room s h k \<and> sz \<le> 8 * int k \<and>
       (\<forall>k'\<in>{1..<k}. 8 * int k' < sz) \<and>
       (\<forall>h' k'. h' < h \<longrightarrow> 1 \<le> k' \<longrightarrow> room s h' k' \<longrightarrow> 8 * int k' < sz) \<and>
       alloc_wf s' \<and> live_chunks s' = insert (a, 8 * k) (live_chunks s)))"
proof (cases rule: alloc_cases [OF assms, of sz, case_names bad full fit])
  case bad
  then show ?thesis by (auto simp: PAGESIZE_def)
next
  case full
  then have "\<forall>h k. 1 \<le> k \<longrightarrow> room s h k \<longrightarrow> 8 * int k < sz"
    by (auto simp: first_fit_from_def MINALLOC_def mult.commute)
  with full(1) show ?thesis by auto
next
  case (fit h k)
  note ok = assms [unfolded alloc_wf_def]
  let ?s' = "s\<lparr>pg_mem := take_chunk MINALLOC (pg_start s) (pg_mem s) h (int k * MINALLOC)\<rparr>"
  have m: "nat MINALLOC = 8" "MINALLOC = 8" by (simp_all add: MINALLOC_def)
  have "alloc_wf ?s'" using take_chunk_ok [OF ok fit(2,1)] by (simp add: alloc_wf_def)
  moreover have "live_chunks ?s' = insert (pg_start s + 8 * h, 8 * k) (live_chunks s)"
    using take_chunk_chunks(1) [OF ok fit(2,1)] by (simp add: live_chunks_def m mult.commute)
  moreover have "0 < pg_start s" using ok by (simp add: page_ok_def)
  ultimately show ?thesis
    using fit by (intro exI [of _ "pg_start s + 8 * h"] exI [of _ ?s'])
      (auto simp: m mult.commute intro!: exI [of _ h] exI [of _ k])
qed

text \<open>C10. After a successful \<^verbatim>\<open>init_alloc\<close>, whatever sequence of \<^verbatim>\<open>alloc\<close> and
  \<^verbatim>\<open>dealloc\<close> calls follows, every call returns, and the chunks live at the end lie inside the
  mapped page and do not overlap.\<close>

theorem alloc_runs_separate:
  assumes "init_alloc r s0 = (0, s)" "0 < r"
  shows "\<exists>as s'. serve (\<lambda>m :: unit. alloc) dealloc s rs = Some (as, s') \<and> separate (live_chunks s') \<and>
    (\<forall>a n. (a, n) \<in> live_chunks s' \<longrightarrow> 0 < n \<and> r \<le> a \<and> a + n \<le> r + 4096)"
proof -
  have s: "alloc_wf s" "live_chunks s = {}" "pg_start s = r"
    using assms init_alloc_wf [of r s0] by (auto simp: init_alloc_def Let_def split: if_splits)
  then have "separate (live_chunks s)" by (simp add: separate_def)
  from page.serve_separate [OF s(1) this answers_ok_True] obtain as s' where
    r: "serve (\<lambda>m :: unit. alloc) dealloc s rs = Some (as, s')" and
    w: "alloc_wf s'" "separate (live_chunks s')" by blast
  have "pg_start s' = r" using serve_start [OF r] s(3) by simp
  with chunks_in_page [OF w(1) [unfolded alloc_wf_def]] r w(2) show ?thesis
    by (auto simp: live_chunks_def NUM_def MINALLOC_def)
qed

text \<open>C23. Deallocating a chunk that was just allocated restores the allocator's state exactly.\<close>

theorem dealloc_undoes_alloc:
  assumes "alloc_wf s" "alloc s sz = Some (a, s')" "a \<noteq> NULL"
  shows "dealloc s' a = s"
proof (cases rule: alloc_cases [OF assms(1), of sz, case_names bad full fit])
  case (fit h k)
  with assms release_take_chunk [OF assms(1) [unfolded alloc_wf_def] fit(2,1)] show ?thesis
    by (auto simp: dealloc_def)
qed (use assms in simp_all)

section \<open>Witnesses\<close>

definition page0 :: alloc_state where
  "page0 = snd (init_alloc 4096 \<lparr>pg_start = 0, pg_mem = []\<rparr>)"

lemma page0_wf: "alloc_wf page0"
  using init_alloc_wf [of 4096] by (simp add: page0_def)

lemma page0_alloc: "alloc page0 16 = Some (4096,
    page0\<lparr>pg_mem := (pg_mem page0)[0 := \<lparr>mm_adr = 4096, mm_size = 16, mm_flag = 1\<rparr>]\<rparr>)"
  by (simp add: page0_def init_alloc_def mem_reset_eq alloc_def PAGESIZE_def Let_def
      scan_fit.simps fit_run.simps NUM_def MINALLOC_def)

theorem alloc_first_fit_witness: "alloc_wf page0 \<and> (\<exists>a s'. alloc page0 16 = Some (a, s'))"
  using page0_wf alloc_first_fit [OF page0_wf, of 16] by blast

theorem alloc_runs_separate_witness:
  "\<exists>as s'. serve (\<lambda>m :: unit. alloc) dealloc page0 [((), Alloc 16), ((), Alloc 8), ((), Dealloc 4096)] =
     Some (as, s') \<and> separate (live_chunks s')"
proof -
  have "init_alloc 4096 \<lparr>pg_start = 0, pg_mem = []\<rparr> = (0, page0)"
    by (simp add: page0_def init_alloc_def Let_def)
  from alloc_runs_separate [OF this zero_less_numeral, of "[((), Alloc 16), ((), Alloc 8), ((), Dealloc 4096)]"]
  show ?thesis by blast
qed

theorem dealloc_undoes_alloc_witness:
  "dealloc (page0\<lparr>pg_mem := (pg_mem page0)[0 := \<lparr>mm_adr = 4096, mm_size = 16, mm_flag = 1\<rparr>]\<rparr>) 4096 = page0"
  using dealloc_undoes_alloc [OF page0_wf page0_alloc] by simp

end
