(* ===== verification/Ealloc.thy ===== *)
theory Ealloc
  imports Allocator_Spec
begin

text \<open>
  The growing allocator of \<^verbatim>\<open>hw5/ealloc/ealloc.c\<close>: up to four pages of 16 slots of 256
  bytes, each mapped when the scan first reaches it. \<open>mmap p\<close> stands for the result of
  the \<^verbatim>\<open>mmap\<close> call that \<^verbatim>\<open>alloc\<close> makes for page \<open>p\<close>.
\<close>

definition E_PAGESIZE :: int where "E_PAGESIZE = 4096"
definition E_MINALLOC :: int where "E_MINALLOC = 256"
definition E_NUM :: nat where "E_NUM = 16"
definition PNUM :: nat where "PNUM = 4"

abbreviation E_MAP_FAILED :: ptr where "E_MAP_FAILED \<equiv> 18446744073709551615"

record ealloc_state =
  e_start :: "ptr list"
  e_mem :: "mm list list"

definition e_init_alloc :: "ealloc_state \<Rightarrow> ealloc_state" where
  "e_init_alloc s =
     s\<lparr>e_start := map (\<lambda>p. NULL) [0..<PNUM],
       e_mem := map (\<lambda>p. map (\<lambda>i. \<lparr>mm_adr = NULL, mm_size = E_MINALLOC, mm_flag = 0\<rparr>) [0..<E_NUM])
         [0..<PNUM]\<rparr>"

definition e_cleanup :: "ealloc_state \<Rightarrow> ealloc_state" where
  "e_cleanup s =
     s\<lparr>e_start := map (\<lambda>p. NULL) [0..<PNUM],
       e_mem := map (\<lambda>p. map (\<lambda>i. \<lparr>mm_adr = NULL, mm_size = E_MINALLOC, mm_flag = 0\<rparr>) [0..<E_NUM])
         [0..<PNUM]\<rparr>"

text \<open>The loop over the pages \<open>ps\<close> still to be searched.\<close>

primrec e_pages :: "(nat \<Rightarrow> ptr) \<Rightarrow> int \<Rightarrow> ealloc_state \<Rightarrow> nat list \<Rightarrow> (ptr \<times> ealloc_state) option" where
  "e_pages mmap sz s [] = Some (NULL, s)"
| "e_pages mmap sz s (p # ps) =
     (let s1 = (if e_start s ! p = NULL then s\<lparr>e_start := (e_start s)[p := mmap p]\<rparr> else s) in
      if e_start s ! p = NULL \<and> e_start s1 ! p = E_MAP_FAILED then Some (NULL, s1)
      else case scan_fit E_NUM E_MINALLOC (e_mem s1 ! p) sz 0 of
        None \<Rightarrow> None
      | Some None \<Rightarrow> e_pages mmap sz s1 ps
      | Some (Some (i, valid)) \<Rightarrow>
          (let adr = i * nat E_MINALLOC + e_start s1 ! p in
             Some (adr, s1\<lparr>e_mem := (e_mem s1)[p := (e_mem s1 ! p)[i :=
               \<lparr>mm_adr = adr, mm_size = valid, mm_flag = 1\<rparr>]]\<rparr>)))"

declare e_pages.simps(2) [simp del]

definition e_alloc :: "(nat \<Rightarrow> ptr) \<Rightarrow> ealloc_state \<Rightarrow> int \<Rightarrow> (ptr \<times> ealloc_state) option" where
  "e_alloc mmap s sz =
     (if E_PAGESIZE < sz \<or> sz mod 8 \<noteq> 0 then Some (NULL, s)
      else e_pages mmap sz s [0..<PNUM])"

definition e_dealloc :: "ealloc_state \<Rightarrow> ptr \<Rightarrow> ealloc_state" where
  "e_dealloc s adr = s\<lparr>e_mem := map (\<lambda>m. release_adr E_MINALLOC m adr) (e_mem s)\<rparr>"

section \<open>The invariant\<close>

abbreviation "unmapped \<equiv> replicate E_NUM (mm_free E_MINALLOC)"

definition e_page_ok :: "ptr \<Rightarrow> mm list \<Rightarrow> bool" where
  "e_page_ok st m \<longleftrightarrow> (if st = NULL then m = unmapped else page_ok E_NUM E_MINALLOC st m)"

definition apart :: "ptr \<Rightarrow> ptr \<Rightarrow> bool" where
  "apart a b \<longleftrightarrow> a + 4096 \<le> b \<or> b + 4096 \<le> a"

definition e_wf :: "ealloc_state \<Rightarrow> bool" where
  "e_wf s \<longleftrightarrow> length (e_start s) = PNUM \<and> length (e_mem s) = PNUM \<and>
     (\<forall>p<PNUM. e_page_ok (e_start s ! p) (e_mem s ! p)) \<and>
     (\<forall>p<PNUM. \<forall>q<PNUM. p \<noteq> q \<longrightarrow> e_start s ! p \<noteq> NULL \<longrightarrow> e_start s ! q \<noteq> NULL \<longrightarrow>
        apart (e_start s ! p) (e_start s ! q))"

text \<open>What is documented of a successful \<^verbatim>\<open>mmap\<close>: a new mapping, apart from the others.\<close>

definition mmap_ok :: "ealloc_state \<Rightarrow> (nat \<Rightarrow> ptr) \<Rightarrow> bool" where
  "mmap_ok s mmap \<longleftrightarrow> (\<forall>p<PNUM. e_start s ! p = NULL \<longrightarrow>
     mmap p \<noteq> NULL \<and> mmap p \<noteq> E_MAP_FAILED \<and>
     (\<forall>q<PNUM. q \<noteq> p \<longrightarrow> apart (mmap p) (if e_start s ! q = NULL then mmap q else e_start s ! q)))"

definition e_live :: "ealloc_state \<Rightarrow> (ptr \<times> nat) set" where
  "e_live s = (\<Union>p<PNUM. chunks (e_mem s ! p))"

lemma unmapped_page_ok: "0 < base \<Longrightarrow> page_ok E_NUM E_MINALLOC base unmapped"
  by (auto simp: page_ok_def slot_ok_def E_MINALLOC_def)

lemma unmapped_chunks: "chunks unmapped = {}"
  by (auto simp: chunks_image)

lemma e_init_alloc_eq:
  "e_init_alloc s = s\<lparr>e_start := replicate PNUM NULL, e_mem := replicate PNUM unmapped\<rparr>"
  by (simp add: e_init_alloc_def mm_free_def map_replicate_const)

lemma e_init_wf: "e_wf (e_init_alloc s) \<and> e_live (e_init_alloc s) = {}"
  by (auto simp: e_init_alloc_eq e_wf_def e_page_ok_def e_live_def unmapped_chunks)

lemma apart_sym: "apart a b = apart b a"
  by (auto simp: apart_def)

text \<open>Mapping a page that is not mapped yet.\<close>

abbreviation map_page :: "(nat \<Rightarrow> ptr) \<Rightarrow> nat \<Rightarrow> ealloc_state \<Rightarrow> ealloc_state" where
  "map_page mmap p s \<equiv> (if e_start s ! p = NULL then s\<lparr>e_start := (e_start s)[p := mmap p]\<rparr> else s)"

lemma map_page_wf:
  assumes "e_wf s" "mmap_ok s mmap" "p < PNUM"
  shows "e_wf (map_page mmap p s)" "mmap_ok (map_page mmap p s) mmap"
    "e_mem (map_page mmap p s) = e_mem s" "e_start (map_page mmap p s) ! p \<noteq> NULL"
    "e_start s ! p = NULL \<Longrightarrow> e_start (map_page mmap p s) ! p \<noteq> E_MAP_FAILED"
proof -
  show "e_wf (map_page mmap p s)"
  proof (cases "e_start s ! p = NULL")
    case True
    have ok: "e_page_ok (mmap p) (e_mem s ! p)"
      using assms True unmapped_page_ok [of "mmap p"] by (auto simp: e_wf_def e_page_ok_def mmap_ok_def)
    have "apart (mmap p) (e_start s ! q)" "apart (e_start s ! q) (mmap p)"
      if "q < PNUM" "q \<noteq> p" "e_start s ! q \<noteq> NULL" for q
      using assms(2,3) True that apart_sym by (fastforce simp: mmap_ok_def)+
    with assms True ok show ?thesis by (auto simp: e_wf_def nth_list_update)
  qed (use assms in simp)
  have "(if e_start (map_page mmap p s) ! q = NULL then mmap q else e_start (map_page mmap p s) ! q) =
      (if e_start s ! q = NULL then mmap q else e_start s ! q)" for q
    using assms by (cases "q = p") (auto simp: e_wf_def)
  with assms show "mmap_ok (map_page mmap p s) mmap"
    unfolding mmap_ok_def by (auto simp: e_wf_def nth_list_update)
qed (use assms in \<open>auto simp: mmap_ok_def e_wf_def\<close>)

text \<open>The chunks of a page lie in its 4096 bytes, so chunks of different pages are disjoint.\<close>

lemma e_page_chunks:
  assumes "e_page_ok st m" "(a, n) \<in> chunks m"
  shows "st \<noteq> NULL \<and> st \<le> a \<and> 0 < n \<and> a + n \<le> st + 4096"
proof -
  have "st \<noteq> NULL" using assms by (auto simp: e_page_ok_def unmapped_chunks split: if_splits)
  with assms(1) have "page_ok E_NUM E_MINALLOC st m" by (simp add: e_page_ok_def)
  from chunks_in_page [OF this assms(2)] \<open>st \<noteq> NULL\<close> show ?thesis
    by (simp add: E_NUM_def E_MINALLOC_def)
qed

lemma e_wf_page: "e_wf s \<Longrightarrow> p < PNUM \<Longrightarrow> e_page_ok (e_start s ! p) (e_mem s ! p)"
  by (simp add: e_wf_def)

lemma pages_disjoint:
  assumes "e_wf s" "p < PNUM" "q < PNUM" "p \<noteq> q" "(a, n) \<in> chunks (e_mem s ! p)"
    "e_start s ! q \<noteq> NULL" "e_start s ! q \<le> b" "b + k \<le> e_start s ! q + 4096"
  shows "{a..<a + n} \<inter> {b..<b + k} = {}"
proof -
  note p = e_page_chunks [OF e_wf_page [OF assms(1,2)] assms(5)]
  with assms have "apart (e_start s ! p) (e_start s ! q)" by (simp add: e_wf_def)
  with p assms(7,8) show ?thesis by (auto simp: apart_def)
qed

lemma e_live_upd:
  assumes "p < PNUM" "length (e_mem s) = PNUM" "chunks m = insert c (chunks (e_mem s ! p))"
  shows "e_live (s\<lparr>e_mem := (e_mem s)[p := m]\<rparr>) = insert c (e_live s)"
proof -
  have "chunks ((e_mem s)[p := m] ! q) =
      (if q = p then insert c (chunks (e_mem s ! q)) else chunks (e_mem s ! q))" for q
    using assms by auto
  with assms(1) show ?thesis by (auto simp: e_live_def split: if_splits)
qed

text \<open>What the page loop yields from a state in which the pages \<open>ps\<close> are still to be searched.\<close>

definition no_room :: "ealloc_state \<Rightarrow> nat \<Rightarrow> int \<Rightarrow> bool" where
  "no_room s p sz \<longleftrightarrow>
     (\<forall>h k. 1 \<le> k \<longrightarrow> fits E_NUM E_MINALLOC (e_mem s ! p) h k \<longrightarrow> 256 * int k < sz)"

definition e_outcome :: "ealloc_state \<Rightarrow> nat list \<Rightarrow> int \<Rightarrow> ptr \<Rightarrow> ealloc_state \<Rightarrow> bool" where
  "e_outcome s ps sz a s' \<longleftrightarrow> e_wf s' \<and>
     (if a = NULL then e_live s' = e_live s \<and> (\<forall>p\<in>set ps. no_room s p sz)
      else \<exists>n>0. sz \<le> int n \<and> int n < max 1 sz + 256 \<and> e_live s' = insert (a, n) (e_live s) \<and>
        (\<forall>(b, k)\<in>e_live s. {b..<b + k} \<inter> {a..<a + n} = {}))"

lemma e_take:
  assumes wf: "e_wf s" and p: "p < PNUM" "e_start s ! p \<noteq> NULL"
    and f: "fits E_NUM E_MINALLOC (e_mem s ! p) h k" "1 \<le> k" "sz \<le> int k * E_MINALLOC"
      "\<forall>k'\<in>{1..<k}. int k' * E_MINALLOC < sz"
  shows "e_outcome s ps sz (e_start s ! p + h * nat E_MINALLOC)
    (s\<lparr>e_mem := (e_mem s)[p := take_chunk E_MINALLOC (e_start s ! p) (e_mem s ! p) h (int k * E_MINALLOC)]\<rparr>)"
    (is "e_outcome s ps sz ?a (s\<lparr>e_mem := (e_mem s)[p := ?m]\<rparr>)")
proof -
  have ok: "page_ok E_NUM E_MINALLOC (e_start s ! p) (e_mem s ! p)"
    using e_wf_page [OF wf p(1)] p(2) by (simp add: e_page_ok_def)
  have m: "nat E_MINALLOC = 256" "E_MINALLOC = 256" by (simp_all add: E_MINALLOC_def)
  note tc = take_chunk_chunks [OF ok f(1,2)]
  have "e_wf (s\<lparr>e_mem := (e_mem s)[p := ?m]\<rparr>)"
    using wf take_chunk_ok [OF ok f(1,2)] p by (auto simp: e_wf_def e_page_ok_def nth_list_update)
  moreover have "e_live (s\<lparr>e_mem := (e_mem s)[p := ?m]\<rparr>) = insert (?a, k * 256) (e_live s)"
    using e_live_upd [OF p(1), of s ?m] tc(1) wf by (simp add: e_wf_def m)
  moreover have "{b..<b + n} \<inter> {?a..<?a + k * 256} = {}" if bn: "(b, n) \<in> e_live s" for b n
  proof -
    from bn obtain q where q: "q < PNUM" "(b, n) \<in> chunks (e_mem s ! q)" by (auto simp: e_live_def)
    have "h * 256 + k * 256 \<le> 4096"
      using f(1) by (auto simp: fits_def E_NUM_def)
    then show ?thesis
      using tc(2) [of b n] pages_disjoint [OF wf q(1) p(1) _ q(2) p(2), of ?a "k * 256"] q
      by (cases "q = p") (auto simp: m)
  qed
  moreover have "int (k * 256) < max 1 sz + 256"
    using f(2) bspec [OF f(4), of "k - 1"] by (cases k; cases "k = 1") (simp_all add: m)
  ultimately show ?thesis
    using p(2) f(2,3) unfolding e_outcome_def by (auto simp: m intro!: exI [of _ "k * 256"])
qed

lemma e_outcome_same: "e_mem s1 = e_mem s \<Longrightarrow> e_outcome s1 ps sz a s' = e_outcome s ps sz a s'"
  by (simp add: e_outcome_def e_live_def no_room_def)

lemma e_outcome_Cons: "e_outcome s ps sz a s' \<Longrightarrow> no_room s p sz \<Longrightarrow> e_outcome s (p # ps) sz a s'"
  unfolding e_outcome_def by (cases "a = NULL") simp_all

lemma e_pages_outcome:
  "e_wf s \<Longrightarrow> mmap_ok s mmap \<Longrightarrow> set ps \<subseteq> {..<PNUM} \<Longrightarrow>
    \<exists>a s'. e_pages mmap sz s ps = Some (a, s') \<and> e_outcome s ps sz a s'"
proof (induction ps arbitrary: s)
  case Nil
  then show ?case by (simp add: e_outcome_def)
next
  case (Cons p ps)
  then have p: "p < PNUM" by simp
  define s1 where "s1 = map_page mmap p s"
  note m = map_page_wf [OF Cons.prems(1,2) p, folded s1_def]
  note same = e_outcome_same [OF m(3)]
  have ok: "page_ok E_NUM E_MINALLOC (e_start s1 ! p) (e_mem s1 ! p)"
    using e_wf_page [OF m(1) p] m(4) by (simp add: e_page_ok_def)
  from scan_fit_from [OF ok boundary_0, of sz] obtain r where
    r: "scan_fit E_NUM E_MINALLOC (e_mem s1 ! p) sz 0 = Some r"
      "first_fit_from E_NUM E_MINALLOC (e_mem s1 ! p) sz 0 r" by auto
  have unfold: "e_pages mmap sz s (p # ps) = (case r of None \<Rightarrow> e_pages mmap sz s1 ps
     | Some (i, valid) \<Rightarrow> (let adr = e_start s1 ! p + i * nat E_MINALLOC in
         Some (adr, s1\<lparr>e_mem := (e_mem s1)[p :=
           take_chunk E_MINALLOC (e_start s1 ! p) (e_mem s1 ! p) i valid]\<rparr>)))"
    using m(5) r(1) by (auto simp: e_pages.simps(2) s1_def Let_def take_chunk_def add.commute split: option.splits)
  show ?case
  proof (cases r)
    case None
    with r(2) have "no_room s p sz"
      by (simp add: no_room_def first_fit_from_def m(3) E_MINALLOC_def mult.commute)
    moreover from Cons.IH [OF m(1,2)] Cons.prems(3) obtain a s' where
      "e_pages mmap sz s1 ps = Some (a, s')" "e_outcome s ps sz a s'" by (auto simp: same)
    ultimately show ?thesis using None e_outcome_Cons unfolding unfold by auto
  next
    case (Some hv)
    then obtain h v where hv: "r = Some (h, v)" by (cases hv) auto
    with r(2) obtain k where k: "1 \<le> k" "v = int k * E_MINALLOC"
      "fits E_NUM E_MINALLOC (e_mem s1 ! p) h k" "sz \<le> v" "\<forall>k'\<in>{1..<k}. int k' * E_MINALLOC < sz"
      by (auto simp: first_fit_from_def)
    from e_take [OF m(1) p m(4) k(3,1) k(4) [unfolded k(2)] k(5)] k(2) hv show ?thesis
      by (simp add: unfold same Let_def)
  qed
qed

lemma e_alloc_outcome:
  assumes "e_wf s" "mmap_ok s mmap"
  shows "\<exists>a s'. e_alloc mmap s sz = Some (a, s') \<and>
    (if 4096 < sz \<or> sz mod 8 \<noteq> 0 then a = NULL \<and> s' = s else e_outcome s [0..<PNUM] sz a s')"
  using e_pages_outcome [OF assms, of "[0..<PNUM]" sz]
  by (simp add: e_alloc_def E_PAGESIZE_def subset_iff)

lemma e_release_page:
  "e_page_ok st m \<Longrightarrow> e_page_ok st (release_adr E_MINALLOC m a) \<and>
     chunks (release_adr E_MINALLOC m a) = {c \<in> chunks m. fst c \<noteq> a}"
proof (cases "st = NULL")
  case True
  assume "e_page_ok st m"
  with True have m: "m = unmapped" by (simp add: e_page_ok_def)
  have "release_adr E_MINALLOC unmapped a = unmapped"
    by (auto simp: release_adr_def mm_free_def [symmetric] first_idx_Some split: option.splits
        intro!: nth_equalityI simp: nth_list_update)
  with m True show ?thesis by (simp add: e_page_ok_def unmapped_chunks)
qed (auto simp: e_page_ok_def release_adr_ok release_adr_chunks)

lemma e_dealloc_live:
  assumes "e_wf s"
  shows "e_wf (e_dealloc s a) \<and> e_live (e_dealloc s a) = {c \<in> e_live s. fst c \<noteq> a}"
  using assms e_release_page [OF e_wf_page [OF assms], of _ a]
  by (auto simp: e_wf_def e_live_def e_dealloc_def)

interpretation epages: allocator e_wf e_live mmap_ok e_alloc e_dealloc
proof unfold_locales
  show "\<exists>r. e_alloc m s sz = Some r" if "e_wf s" "mmap_ok s m" for s m sz
    using e_alloc_outcome [OF that, of sz] by blast
  show "e_wf s' \<and> e_live s' = e_live s"
    if "e_wf s" "mmap_ok s m" "e_alloc m s sz = Some (NULL, s')" for s m sz s'
    using e_alloc_outcome [OF that(1,2), of sz] that(1,3) by (auto simp: e_outcome_def split: if_splits)
  show "e_wf s' \<and> (\<exists>n>0. sz \<le> int n \<and> e_live s' = insert (a, n) (e_live s) \<and>
      (\<forall>(b, k)\<in>e_live s. {b..<b + k} \<inter> {a..<a + n} = {}))"
    if "e_wf s" "mmap_ok s m" "e_alloc m s sz = Some (a, s')" "a \<noteq> NULL" for s m sz a s'
  proof -
    from e_alloc_outcome [OF that(1,2), of sz] that(3,4) have "e_outcome s [0..<PNUM] sz a s'"
      by (auto split: if_splits)
    with that(4) show ?thesis unfolding e_outcome_def by auto
  qed
  show "e_wf (e_dealloc s a) \<and> e_live (e_dealloc s a) = {c \<in> e_live s. fst c \<noteq> a}"
    if "e_wf s" for s a using e_dealloc_live [OF that] .
  show "a \<noteq> NULL \<and> 0 < n" if s: "e_wf s" and a: "(a, n) \<in> e_live s" for s a n
  proof -
    from a obtain p where p: "p < PNUM" "(a, n) \<in> chunks (e_mem s ! p)" by (auto simp: e_live_def)
    from e_page_chunks [OF e_wf_page [OF s p(1)] p(2)] show ?thesis by auto
  qed
qed

section \<open>Properties\<close>

text \<open>C21. In a well-formed state, with an \<^verbatim>\<open>mmap\<close> that does not fail, \<^verbatim>\<open>alloc\<close> always
  returns. It returns \<^verbatim>\<open>NULL\<close> only for a bad size or when none of the four pages has a long
  enough run of free slots, and then no chunk changes; otherwise it returns a fresh chunk of the least
  sufficient number of 256-byte slots, which overlaps no live chunk of any page.\<close>

theorem e_alloc_fresh:
  assumes "e_wf s" "mmap_ok s mmap"
  shows "\<exists>a s'. e_alloc mmap s sz = Some (a, s') \<and> e_wf s' \<and>
    (if a = NULL
     then e_live s' = e_live s \<and> (4096 < sz \<or> sz mod 8 \<noteq> 0 \<or>
       (\<forall>p<4. \<forall>h k. 1 \<le> k \<longrightarrow> fits 16 256 (e_mem s ! p) h k \<longrightarrow> 256 * int k < sz))
     else \<exists>n>0. sz \<le> int n \<and> int n < max 1 sz + 256 \<and> e_live s' = insert (a, n) (e_live s) \<and>
       (\<forall>(b, k)\<in>e_live s. {b..<b + k} \<inter> {a..<a + n} = {}))"
proof -
  from e_alloc_outcome [OF assms, of sz] obtain a s' where r: "e_alloc mmap s sz = Some (a, s')"
    "if 4096 < sz \<or> sz mod 8 \<noteq> 0 then a = NULL \<and> s' = s else e_outcome s [0..<PNUM] sz a s'" by blast
  show ?thesis
  proof (cases "4096 < sz \<or> sz mod 8 \<noteq> 0")
    case True
    with r assms(1) show ?thesis by auto
  next
    case False
    with r have "e_outcome s [0..<PNUM] sz a s'" by simp
    with r(1) show ?thesis
      by (intro exI [of _ a] exI [of _ s']) (simp add: e_outcome_def no_room_def E_NUM_def E_MINALLOC_def PNUM_def
          split: if_splits)
  qed
qed

text \<open>C22. After \<^verbatim>\<open>init_alloc\<close>, for every sequence of \<^verbatim>\<open>alloc\<close> and \<^verbatim>\<open>dealloc\<close> calls in
  which no \<^verbatim>\<open>mmap\<close> fails and each yields a page apart from those in use, all calls return and the chunks live at the end, over
  all pages, do not overlap.\<close>

theorem e_alloc_runs_separate:
  assumes "answers_ok mmap_ok e_alloc e_dealloc (e_init_alloc s) rs"
  shows "\<exists>as s'. serve e_alloc e_dealloc (e_init_alloc s) rs = Some (as, s') \<and> e_wf s' \<and> separate (e_live s')"
  using epages.serve_separate [OF _ _ assms] e_init_wf [of s] by (simp add: separate_def)

text \<open>When \<^verbatim>\<open>mmap\<close> fails, \<^verbatim>\<open>alloc\<close> returns \<^verbatim>\<open>NULL\<close> but leaves the failure value in
  \<^verbatim>\<open>start[p]\<close>: whatever \<^verbatim>\<open>mmap\<close> does afterwards, the next \<^verbatim>\<open>alloc\<close> takes that value
  for a mapped page and hands out \<^verbatim>\<open>MAP_FAILED\<close> itself as the address of a chunk.\<close>

theorem e_alloc_failed_mmap_reused:
  "\<exists>s1 s2. e_alloc (\<lambda>p. E_MAP_FAILED) (e_init_alloc s) 256 = Some (NULL, s1) \<and>
     e_alloc mmap s1 256 = Some (E_MAP_FAILED, s2) \<and> (E_MAP_FAILED, 256) \<in> e_live s2"
proof -
  define s1 where "s1 = (e_init_alloc s)\<lparr>e_start := (e_start (e_init_alloc s))[0 := E_MAP_FAILED]\<rparr>"
  have m: "e_mem s1 ! 0 = unmapped" "length (e_mem s1) = 4" "e_start s1 ! 0 = E_MAP_FAILED"
    by (simp_all add: s1_def e_init_alloc_eq PNUM_def)
  have up: "[0..<4] = 0 # [1, 2, 3 :: nat]" by (simp add: upt_rec)
  have "e_alloc (\<lambda>p. E_MAP_FAILED) (e_init_alloc s) 256 = Some (NULL, s1)"
    by (simp add: e_alloc_def E_PAGESIZE_def up e_pages.simps(2) s1_def e_init_alloc_eq Let_def PNUM_def)
  moreover have f: "scan_fit E_NUM E_MINALLOC unmapped 256 0 = Some (Some (0, 256))"
    by (simp add: scan_fit.simps fit_run.simps E_NUM_def E_MINALLOC_def)
  let ?s2 = "s1\<lparr>e_mem := (e_mem s1)[0 := unmapped[0 := \<lparr>mm_adr = E_MAP_FAILED, mm_size = 256, mm_flag = 1\<rparr>]]\<rparr>"
  have "e_alloc mmap s1 256 = Some (E_MAP_FAILED, ?s2)"
    by (simp add: e_alloc_def E_PAGESIZE_def PNUM_def up e_pages.simps(2) m f Let_def)
  moreover have "(E_MAP_FAILED, 256) \<in> chunks (e_mem ?s2 ! 0)"
    using m(2) by (auto simp: chunks_image E_NUM_def image_iff intro!: exI [of _ 0])
  then have "(E_MAP_FAILED, 256) \<in> e_live ?s2"
    unfolding e_live_def by (rule UN_I [rotated]) (simp add: PNUM_def)
  ultimately show ?thesis by blast
qed

section \<open>Witnesses\<close>

definition mmap4 :: "nat \<Rightarrow> ptr" where "mmap4 p = 4096 * (p + 1)"

definition e_page0 :: ealloc_state where "e_page0 = e_init_alloc \<lparr>e_start = [], e_mem = []\<rparr>"

lemma e_page0_ok: "e_wf e_page0" "mmap_ok e_page0 mmap4"
proof -
  show "e_wf e_page0" unfolding e_page0_def using e_init_wf by blast
  show "mmap_ok e_page0 mmap4"
    by (auto simp: e_page0_def mmap_ok_def mmap4_def e_init_alloc_eq apart_def PNUM_def)
qed

theorem e_alloc_fresh_witness: "e_wf e_page0 \<and> (\<exists>a s'. e_alloc mmap4 e_page0 512 = Some (a, s') \<and> e_wf s')"
  using e_alloc_fresh [OF e_page0_ok, of 512] e_page0_ok by blast

theorem e_alloc_runs_separate_witness:
  "\<exists>as s'. serve e_alloc e_dealloc e_page0 [(mmap4, Alloc 512), (mmap4, Dealloc 4096)] = Some (as, s') \<and>
     separate (e_live s')"
proof -
  have "answers_ok mmap_ok e_alloc e_dealloc e_page0 [(mmap4, Alloc 512), (mmap4, Dealloc 4096)]"
    using e_page0_ok by (auto split: option.splits)
  from e_alloc_runs_separate [OF this [unfolded e_page0_def]] show ?thesis by (auto simp: e_page0_def)
qed

end
