(* ===== verification/Cond_Var.thy ===== *)
theory Cond_Var
  imports Prelude "HOL-Library.Multiset"
begin

text \<open>
  POSIX condition variables as the programs of hw4 use them. A thread that calls
  \<^verbatim>\<open>pthread_cond_wait\<close> releases the mutex and is blocked; a signal moves one blocked
  thread, which one is unspecified, to the threads that are woken but still have to
  get the mutex back, and a broadcast moves all of them. Everything a thread does
  between getting and releasing the mutex is one step of the models.
\<close>

type_synonym tid = nat

record 'w condq =
  cq_wait :: "'w list"
  cq_woken :: "'w list"

definition cond_init :: "'w condq" where
  "cond_init = \<lparr>cq_wait = [], cq_woken = []\<rparr>"

definition cond_wait :: "'w \<Rightarrow> 'w condq \<Rightarrow> 'w condq" where
  "cond_wait t c = c\<lparr>cq_wait := cq_wait c @ [t]\<rparr>"

text \<open>A signal for which the implementation picks the waiter \<open>w\<close>.\<close>

definition cond_signal :: "'w option \<Rightarrow> 'w condq \<Rightarrow> 'w condq" where
  "cond_signal w c = (case w of None \<Rightarrow> c
     | Some t \<Rightarrow> c\<lparr>cq_wait := remove1 t (cq_wait c), cq_woken := cq_woken c @ [t]\<rparr>)"

definition may_pick :: "'w condq \<Rightarrow> 'w option \<Rightarrow> bool" where
  "may_pick c w \<longleftrightarrow> (case w of None \<Rightarrow> cq_wait c = [] | Some t \<Rightarrow> t \<in> set (cq_wait c))"

definition cond_broadcast :: "'w condq \<Rightarrow> 'w condq" where
  "cond_broadcast c = c\<lparr>cq_wait := [], cq_woken := cq_woken c @ cq_wait c\<rparr>"

text \<open>A woken thread gets the mutex back and returns from \<^verbatim>\<open>pthread_cond_wait\<close>.\<close>

definition cond_resume :: "'w \<Rightarrow> 'w condq \<Rightarrow> 'w condq" where
  "cond_resume t c = c\<lparr>cq_woken := remove1 t (cq_woken c)\<rparr>"

definition in_cond :: "'w condq \<Rightarrow> 'w set" where
  "in_cond c = set (cq_wait c) \<union> set (cq_woken c)"

lemma cond_init_sel [simp]: "cq_wait cond_init = []" "cq_woken cond_init = []" "in_cond cond_init = {}"
  by (simp_all add: cond_init_def in_cond_def)

lemma cond_wait_sel [simp]:
  "cq_wait (cond_wait t c) = cq_wait c @ [t]" "cq_woken (cond_wait t c) = cq_woken c"
  by (simp_all add: cond_wait_def)

lemma cond_signal_None [simp]: "cond_signal None c = c"
  by (simp add: cond_signal_def)

lemma cond_signal_sel [simp]:
  "cq_wait (cond_signal (Some t) c) = remove1 t (cq_wait c)"
  "cq_woken (cond_signal (Some t) c) = cq_woken c @ [t]"
  by (simp_all add: cond_signal_def)

lemma cond_broadcast_sel [simp]:
  "cq_wait (cond_broadcast c) = []" "cq_woken (cond_broadcast c) = cq_woken c @ cq_wait c"
  by (simp_all add: cond_broadcast_def)

lemma cond_resume_sel [simp]:
  "cq_wait (cond_resume t c) = cq_wait c" "cq_woken (cond_resume t c) = remove1 t (cq_woken c)"
  by (simp_all add: cond_resume_def)

text \<open>The number of threads a signal wakes.\<close>

lemma remove1_count: "x \<in> set xs \<Longrightarrow> Suc (length (remove1 x xs)) = length xs"
  by (induction xs) auto

lemma cond_signal_count:
  assumes "may_pick c w"
  shows "length (cq_wait (cond_signal w c)) = length (cq_wait c) - 1"
    and "length (cq_woken (cond_signal w c)) = length (cq_woken c) + min 1 (length (cq_wait c))"
proof -
  have "length (cq_wait (cond_signal w c)) = length (cq_wait c) - 1 \<and>
    length (cq_woken (cond_signal w c)) = length (cq_woken c) + min 1 (length (cq_wait c))"
  proof (cases w)
    case (Some t)
    with assms have t: "t \<in> set (cq_wait c)" by (simp add: may_pick_def)
    from remove1_count [OF t] Some show ?thesis by simp
  qed (use assms in \<open>simp add: may_pick_def\<close>)
  then show "length (cq_wait (cond_signal w c)) = length (cq_wait c) - 1"
    and "length (cq_woken (cond_signal w c)) = length (cq_woken c) + min 1 (length (cq_wait c))" by auto
qed

lemma cond_signal_total:
  "may_pick c w \<Longrightarrow> length (cq_wait (cond_signal w c)) + length (cq_woken (cond_signal w c)) =
     length (cq_wait c) + length (cq_woken c)"
  by (cases "cq_wait c") (simp_all add: cond_signal_count)

lemma cond_signal_wakes: "may_pick c w \<Longrightarrow> cq_wait c \<noteq> [] \<Longrightarrow> cq_woken (cond_signal w c) \<noteq> []"
  by (cases w) (auto simp: may_pick_def)

lemma cond_signal_woken_mono: "cq_woken c \<noteq> [] \<Longrightarrow> cq_woken (cond_signal w c) \<noteq> []"
  by (cases w) auto

lemma cond_signal_mset:
  "may_pick c w \<Longrightarrow> mset (cq_wait (cond_signal w c)) + mset (cq_woken (cond_signal w c)) =
     mset (cq_wait c) + mset (cq_woken c)"
  by (cases w) (auto simp: may_pick_def insert_DiffM2)

lemma cond_signal_set:
  "set (cq_wait (cond_signal w c)) \<subseteq> set (cq_wait c)"
  by (cases w) (use set_remove1_subset in fastforce)+

end
