(* ===== verification/Ssu_Sem.thy ===== *)
theory Ssu_Sem
  imports Cond_Var
begin

text \<open>
  The counting semaphore of \<^verbatim>\<open>hw4/3/SSU_Sem.c\<close>: an integer that goes negative while
  threads wait on its condition variable. \<^verbatim>\<open>SSU_Sem_down\<close> is split where it can block.
\<close>

record ssu_sem =
  sem_value :: int
  sem_cond :: "tid condq"

definition SSU_Sem_init :: "int \<Rightarrow> ssu_sem" where
  "SSU_Sem_init v = \<lparr>sem_value = v, sem_cond = cond_init\<rparr>"

text \<open>The result tells whether the call returned; if not, the thread is blocked.\<close>

definition SSU_Sem_down :: "tid \<Rightarrow> ssu_sem \<Rightarrow> bool \<times> ssu_sem" where
  "SSU_Sem_down t s =
     (let s1 = s\<lparr>sem_value := sem_value s - 1\<rparr> in
      if sem_value s1 < 0 then (False, s1\<lparr>sem_cond := cond_wait t (sem_cond s1)\<rparr>)
      else (True, s1))"

definition SSU_Sem_down_woken :: "tid \<Rightarrow> ssu_sem \<Rightarrow> ssu_sem" where
  "SSU_Sem_down_woken t s = s\<lparr>sem_cond := cond_resume t (sem_cond s)\<rparr>"

definition SSU_Sem_up :: "tid option \<Rightarrow> ssu_sem \<Rightarrow> ssu_sem" where
  "SSU_Sem_up w s =
     (let s1 = s\<lparr>sem_value := sem_value s + 1\<rparr> in
      if sem_value s1 \<le> 0 then s1\<lparr>sem_cond := cond_signal w (sem_cond s1)\<rparr> else s1)"

text \<open>
  A configuration adds to the semaphore the history of the calls: how many times
  \<^verbatim>\<open>down\<close> was entered, \<^verbatim>\<open>down\<close> returned and \<^verbatim>\<open>up\<close> was called. With \<open>spur\<close>, a blocked
  thread may also wake without a signal, as POSIX allows.
\<close>

record sem_conf =
  sc_sem :: ssu_sem
  sc_downs :: nat
  sc_passed :: nat
  sc_ups :: nat

inductive sem_step :: "bool \<Rightarrow> sem_conf \<Rightarrow> sem_conf \<Rightarrow> bool" for spur where
  st_pass: "t \<notin> in_cond (sem_cond (sc_sem c)) \<Longrightarrow> SSU_Sem_down t (sc_sem c) = (True, s') \<Longrightarrow>
     sem_step spur c (c\<lparr>sc_sem := s', sc_downs := Suc (sc_downs c), sc_passed := Suc (sc_passed c)\<rparr>)"
| st_block: "t \<notin> in_cond (sem_cond (sc_sem c)) \<Longrightarrow> SSU_Sem_down t (sc_sem c) = (False, s') \<Longrightarrow>
     sem_step spur c (c\<lparr>sc_sem := s', sc_downs := Suc (sc_downs c)\<rparr>)"
| st_resume: "t \<in> set (cq_woken (sem_cond (sc_sem c))) \<Longrightarrow>
     sem_step spur c (c\<lparr>sc_sem := SSU_Sem_down_woken t (sc_sem c), sc_passed := Suc (sc_passed c)\<rparr>)"
| st_up: "may_pick (sem_cond (sc_sem c)) w \<Longrightarrow>
     sem_step spur c (c\<lparr>sc_sem := SSU_Sem_up w (sc_sem c), sc_ups := Suc (sc_ups c)\<rparr>)"
| st_spur: "spur \<Longrightarrow> t \<in> set (cq_wait (sem_cond (sc_sem c))) \<Longrightarrow>
     sem_step spur c (c\<lparr>sc_sem := (sc_sem c)\<lparr>sem_cond := cond_signal (Some t) (sem_cond (sc_sem c))\<rparr>\<rparr>)"

definition sem_start :: "int \<Rightarrow> sem_conf \<Rightarrow> bool" where
  "sem_start v c \<longleftrightarrow> c = \<lparr>sc_sem = SSU_Sem_init v, sc_downs = 0, sc_passed = 0, sc_ups = 0\<rparr>"

section \<open>Invariants\<close>

text \<open>What holds even with spurious wake-ups: the value counts calls, and no call is lost.\<close>

definition sem_counts :: "int \<Rightarrow> sem_conf \<Rightarrow> bool" where
  "sem_counts v c \<longleftrightarrow>
     sem_value (sc_sem c) = v + int (sc_ups c) - int (sc_downs c) \<and>
     sc_passed c + length (cq_wait (sem_cond (sc_sem c))) + length (cq_woken (sem_cond (sc_sem c))) = sc_downs c"

text \<open>Without them, exactly the threads the value accounts for are blocked.\<close>

definition sem_exact :: "sem_conf \<Rightarrow> bool" where
  "sem_exact c \<longleftrightarrow> int (length (cq_wait (sem_cond (sc_sem c)))) = max 0 (- sem_value (sc_sem c))"

lemmas sem_defs = SSU_Sem_init_def SSU_Sem_down_def SSU_Sem_down_woken_def SSU_Sem_up_def Let_def

lemma sem_counts_step: "sem_step spur c d \<Longrightarrow> sem_counts v c \<Longrightarrow> sem_counts v d"
proof (induction rule: sem_step.induct)
  case (st_resume t c)
  with remove1_count [OF st_resume.hyps] show ?case by (simp add: sem_counts_def sem_defs)
next
  case (st_up c w)
  with cond_signal_total [OF st_up.hyps] show ?case by (simp add: sem_counts_def sem_defs)
next
  case (st_spur t c)
  with remove1_count [OF st_spur.hyps(2)] show ?case by (simp add: sem_counts_def)
qed (auto simp: sem_counts_def sem_defs split: if_splits)

lemma sem_exact_step: "sem_step False c d \<Longrightarrow> sem_exact c \<Longrightarrow> sem_exact d"
proof (induction rule: sem_step.induct)
  case (st_up c w)
  with cond_signal_count(1) [OF st_up.hyps] show ?case by (auto simp: sem_exact_def sem_defs)
qed (auto simp: sem_exact_def sem_defs split: if_splits)

interpretation sem_counting: step_invariant "sem_start v" "sem_step spur" "sem_counts v"
  by unfold_locales (simp add: sem_start_def sem_counts_def SSU_Sem_init_def, rule sem_counts_step)

interpretation sem_exactness: step_invariant "sem_start v" "sem_step False"
  "\<lambda>c. 0 \<le> v \<longrightarrow> sem_exact c"
  by unfold_locales (simp add: sem_start_def sem_exact_def SSU_Sem_init_def, blast intro: sem_exact_step)

section \<open>Properties\<close>

text \<open>C18. Without spurious wake-ups the semaphore counts exactly. In every reachable state of a
  semaphore started at a value that is not negative, the calls of \<^verbatim>\<open>down\<close> that have been let
  through (they returned, or their thread is woken and only waits for the mutex) are as many as the
  start value and the calls of \<^verbatim>\<open>up\<close> allow, and never fewer: the minimum of the calls made and
  the start value plus the calls of \<^verbatim>\<open>up\<close>.\<close>

theorem sem_lets_through_exactly:
  assumes "reach (sem_start v) (sem_step False) c" "0 \<le> v"
  shows "int (sc_passed c) + int (length (cq_woken (sem_cond (sc_sem c)))) =
    min (int (sc_downs c)) (v + int (sc_ups c))"
proof -
  have "sem_counts v c" "sem_exact c"
    using sem_counting.reach_inv sem_exactness.reach_inv assms by blast+
  then show ?thesis by (auto simp: sem_counts_def sem_exact_def)
qed

text \<open>With a spurious wake-up, which POSIX allows, the \<^verbatim>\<open>if\<close> around
  \<^verbatim>\<open>pthread_cond_wait\<close> lets a thread through a semaphore that was started at 0 and never
  raised.\<close>

theorem sem_spurious_pass:
  "\<exists>c. reach (sem_start 0) (sem_step True) c \<and> sc_passed c = 1 \<and> sc_ups c = 0"
proof -
  let ?c = "\<lambda>n w k p. \<lparr>sc_sem = \<lparr>sem_value = n, sem_cond = \<lparr>cq_wait = w, cq_woken = k\<rparr>\<rparr>,
    sc_downs = 1, sc_passed = p, sc_ups = 0\<rparr>"
  have "reach (sem_start 0) (sem_step True)
      \<lparr>sc_sem = SSU_Sem_init 0, sc_downs = 0, sc_passed = 0, sc_ups = 0\<rparr>"
    by (rule reach_init) (simp add: sem_start_def)
  from reach_step [OF this st_block [of 7]] have "reach (sem_start 0) (sem_step True) (?c (- 1) [7] [] 0)"
    by (simp add: sem_defs cond_init_def cond_wait_def in_cond_def)
  from reach_step [OF this st_spur [of True 7]]
  have "reach (sem_start 0) (sem_step True) (?c (- 1) [] [7] 0)"
    by (simp add: cond_signal_def)
  from reach_step [OF this st_resume [of 7]]
  have "reach (sem_start 0) (sem_step True) (?c (- 1) [] [] 1)"
    by (simp add: sem_defs cond_resume_def)
  then show ?thesis by (intro exI [of _ "?c (- 1) [] [] 1"]) simp
qed

section \<open>Witnesses\<close>

theorem sem_lets_through_exactly_witness:
  "\<exists>c. reach (sem_start 1) (sem_step False) c \<and> sc_downs c = 1 \<and>
     int (sc_passed c) + int (length (cq_woken (sem_cond (sc_sem c)))) = 1"
proof -
  have "reach (sem_start 1) (sem_step False)
      \<lparr>sc_sem = SSU_Sem_init 1, sc_downs = 0, sc_passed = 0, sc_ups = 0\<rparr>"
    by (rule reach_init) (simp add: sem_start_def)
  from reach_step [OF this st_pass [of 7]]
  have r: "reach (sem_start 1) (sem_step False)
      \<lparr>sc_sem = SSU_Sem_init 0, sc_downs = 1, sc_passed = 1, sc_ups = 0\<rparr>"
    by (simp add: sem_defs)
  from sem_lets_through_exactly [OF r] r show ?thesis by fastforce
qed

end
