(* ===== verification/Rw_Lock.thy ===== *)
theory Rw_Lock
  imports Cond_Var
begin

text \<open>
  The readers-writer lock of \<^verbatim>\<open>hw4/2\<close> (\<^verbatim>\<open>rw_lock-w-test.c\<close>, the version that prefers
  writers) and the two searches of \<^verbatim>\<open>rw_lock.c\<close>. The two lock operations are split
  where they can block.
\<close>

record rw_lock =
  write_cnt :: int
  write_wait :: int
  read_cnt :: int
  r_cond :: "tid condq"
  w_cond :: "tid condq"

definition init_rwlock :: rw_lock where
  "init_rwlock = \<lparr>write_cnt = 0, write_wait = 0, read_cnt = 0, r_cond = cond_init, w_cond = cond_init\<rparr>"

text \<open>The result of a lock operation tells whether it returned or the thread is blocked.\<close>

definition r_lock :: "tid \<Rightarrow> rw_lock \<Rightarrow> bool \<times> rw_lock" where
  "r_lock t rw =
     (if write_cnt rw > 0 \<or> write_wait rw > 0 then (False, rw\<lparr>r_cond := cond_wait t (r_cond rw)\<rparr>)
      else (True, rw\<lparr>read_cnt := read_cnt rw + 1\<rparr>))"

definition r_lock_woken :: "tid \<Rightarrow> rw_lock \<Rightarrow> rw_lock" where
  "r_lock_woken t rw = rw\<lparr>r_cond := cond_resume t (r_cond rw), read_cnt := read_cnt rw + 1\<rparr>"

definition r_unlock :: "tid option \<Rightarrow> rw_lock \<Rightarrow> rw_lock" where
  "r_unlock w rw0 =
     (let rw = rw0\<lparr>read_cnt := read_cnt rw0 - 1\<rparr> in
      if write_wait rw > 0 \<and> read_cnt rw = 0 then rw\<lparr>w_cond := cond_signal w (w_cond rw)\<rparr>
      else if write_wait rw = 0 \<and> read_cnt rw = 0 then rw\<lparr>r_cond := cond_broadcast (r_cond rw)\<rparr>
      else rw)"

definition w_lock :: "tid \<Rightarrow> rw_lock \<Rightarrow> bool \<times> rw_lock" where
  "w_lock t rw =
     (if read_cnt rw > 0 \<or> write_cnt rw > 0
      then (False, rw\<lparr>write_wait := write_wait rw + 1, w_cond := cond_wait t (w_cond rw)\<rparr>)
      else (True, rw\<lparr>write_cnt := write_cnt rw + 1\<rparr>))"

definition w_lock_woken :: "tid \<Rightarrow> rw_lock \<Rightarrow> rw_lock" where
  "w_lock_woken t rw =
     rw\<lparr>w_cond := cond_resume t (w_cond rw), write_wait := write_wait rw - 1,
        write_cnt := write_cnt rw + 1\<rparr>"

definition w_unlock :: "tid option \<Rightarrow> rw_lock \<Rightarrow> rw_lock" where
  "w_unlock w rw0 =
     (let rw = rw0\<lparr>write_cnt := write_cnt rw0 - 1\<rparr> in
      if write_wait rw > 0 then rw\<lparr>w_cond := cond_signal w (w_cond rw)\<rparr>
      else if write_wait rw = 0 then rw\<lparr>r_cond := cond_broadcast (r_cond rw)\<rparr>
      else rw)"

text \<open>
  Threads that use the lock: who holds it for reading and who for writing. With \<open>barge\<close>
  a thread may call a lock operation while a woken thread has not got the mutex back
  yet; without it, woken threads go first. With \<open>spur\<close> a thread may wake without a signal.
\<close>

record rw_conf =
  rc_lock :: rw_lock
  rc_reading :: "tid list"
  rc_writing :: "tid list"

definition outside :: "rw_conf \<Rightarrow> tid \<Rightarrow> bool" where
  "outside c t \<longleftrightarrow> t \<notin> set (rc_reading c) \<union> set (rc_writing c) \<union>
     in_cond (r_cond (rc_lock c)) \<union> in_cond (w_cond (rc_lock c))"

definition none_woken :: "rw_conf \<Rightarrow> bool" where
  "none_woken c \<longleftrightarrow> cq_woken (r_cond (rc_lock c)) = [] \<and> cq_woken (w_cond (rc_lock c)) = []"

inductive rw_step :: "bool \<Rightarrow> bool \<Rightarrow> rw_conf \<Rightarrow> rw_conf \<Rightarrow> bool" for spur barge where
  rd_enter: "outside c t \<Longrightarrow> barge \<or> none_woken c \<Longrightarrow> r_lock t (rc_lock c) = (True, l) \<Longrightarrow>
     rw_step spur barge c (c\<lparr>rc_lock := l, rc_reading := t # rc_reading c\<rparr>)"
| rd_block: "outside c t \<Longrightarrow> barge \<or> none_woken c \<Longrightarrow> r_lock t (rc_lock c) = (False, l) \<Longrightarrow>
     rw_step spur barge c (c\<lparr>rc_lock := l\<rparr>)"
| rd_resume: "t \<in> set (cq_woken (r_cond (rc_lock c))) \<Longrightarrow>
     rw_step spur barge c (c\<lparr>rc_lock := r_lock_woken t (rc_lock c), rc_reading := t # rc_reading c\<rparr>)"
| rd_leave: "t \<in> set (rc_reading c) \<Longrightarrow> may_pick (w_cond (rc_lock c)) w \<Longrightarrow>
     rw_step spur barge c (c\<lparr>rc_lock := r_unlock w (rc_lock c), rc_reading := remove1 t (rc_reading c)\<rparr>)"
| wr_enter: "outside c t \<Longrightarrow> barge \<or> none_woken c \<Longrightarrow> w_lock t (rc_lock c) = (True, l) \<Longrightarrow>
     rw_step spur barge c (c\<lparr>rc_lock := l, rc_writing := t # rc_writing c\<rparr>)"
| wr_block: "outside c t \<Longrightarrow> barge \<or> none_woken c \<Longrightarrow> w_lock t (rc_lock c) = (False, l) \<Longrightarrow>
     rw_step spur barge c (c\<lparr>rc_lock := l\<rparr>)"
| wr_resume: "t \<in> set (cq_woken (w_cond (rc_lock c))) \<Longrightarrow>
     rw_step spur barge c (c\<lparr>rc_lock := w_lock_woken t (rc_lock c), rc_writing := t # rc_writing c\<rparr>)"
| wr_leave: "t \<in> set (rc_writing c) \<Longrightarrow> may_pick (w_cond (rc_lock c)) w \<Longrightarrow>
     rw_step spur barge c (c\<lparr>rc_lock := w_unlock w (rc_lock c), rc_writing := remove1 t (rc_writing c)\<rparr>)"
| rd_spur: "spur \<Longrightarrow> t \<in> set (cq_wait (r_cond (rc_lock c))) \<Longrightarrow>
     rw_step spur barge c (c\<lparr>rc_lock := (rc_lock c)\<lparr>r_cond := cond_signal (Some t) (r_cond (rc_lock c))\<rparr>\<rparr>)"
| wr_spur: "spur \<Longrightarrow> t \<in> set (cq_wait (w_cond (rc_lock c))) \<Longrightarrow>
     rw_step spur barge c (c\<lparr>rc_lock := (rc_lock c)\<lparr>w_cond := cond_signal (Some t) (w_cond (rc_lock c))\<rparr>\<rparr>)"

definition rw_start :: "rw_conf \<Rightarrow> bool" where
  "rw_start c \<longleftrightarrow> c = \<lparr>rc_lock = init_rwlock, rc_reading = [], rc_writing = []\<rparr>"

section \<open>Invariants\<close>

definition rw_counts :: "rw_conf \<Rightarrow> bool" where
  "rw_counts c \<longleftrightarrow>
     read_cnt (rc_lock c) = int (length (rc_reading c)) \<and>
     write_cnt (rc_lock c) = int (length (rc_writing c)) \<and>
     write_wait (rc_lock c) =
       int (length (cq_wait (w_cond (rc_lock c))) + length (cq_woken (w_cond (rc_lock c))))"

definition rw_progress :: "rw_conf \<Rightarrow> bool" where
  "rw_progress c \<longleftrightarrow>
     (rc_reading c = [] \<and> rc_writing c = [] \<and> none_woken c \<longrightarrow>
      cq_wait (r_cond (rc_lock c)) = [] \<and> cq_wait (w_cond (rc_lock c)) = [])"

definition rw_excl :: "rw_conf \<Rightarrow> bool" where
  "rw_excl c \<longleftrightarrow>
     length (rc_writing c) + length (cq_woken (w_cond (rc_lock c))) \<le> 1 \<and>
     (rc_writing c \<noteq> [] \<or> cq_woken (w_cond (rc_lock c)) \<noteq> [] \<longrightarrow>
        rc_reading c = [] \<and> cq_woken (r_cond (rc_lock c)) = []) \<and>
     (cq_woken (r_cond (rc_lock c)) \<noteq> [] \<longrightarrow> cq_wait (w_cond (rc_lock c)) = [])"

lemmas rw_defs = r_lock_def r_lock_woken_def r_unlock_def w_lock_def w_lock_woken_def w_unlock_def Let_def

lemma rw_counts_step: "rw_step spur barge c d \<Longrightarrow> rw_counts c \<Longrightarrow> rw_counts d"
proof (induction rule: rw_step.induct)
  case (rd_leave t c w)
  with remove1_count [OF rd_leave.hyps(1)] cond_signal_total [OF rd_leave.hyps(2)] show ?case
    by (auto simp: rw_counts_def rw_defs)
next
  case (wr_leave t c w)
  with remove1_count [OF wr_leave.hyps(1)] cond_signal_total [OF wr_leave.hyps(2)] show ?case
    by (auto simp: rw_counts_def rw_defs)
next
  case (wr_resume t c)
  with remove1_count [OF wr_resume.hyps(1)] show ?case by (auto simp: rw_counts_def rw_defs)
next
  case (wr_spur t c)
  with remove1_count [OF wr_spur.hyps(2)] show ?case by (auto simp: rw_counts_def)
qed (auto simp: rw_counts_def rw_defs split: if_splits)

lemma signal_none_woken:
  assumes "may_pick c w" "cq_woken (cond_signal w c) = []"
  shows "cq_wait c = [] \<and> cq_woken c = []"
  using assms cond_signal_wakes [OF assms(1)] cond_signal_woken_mono [of c w] by blast

lemma rw_progress_step:
  "rw_step spur barge c d \<Longrightarrow> rw_counts c \<Longrightarrow> rw_progress c \<Longrightarrow> rw_progress d"
proof (induction rule: rw_step.induct)
  case (rd_leave t c w)
  with remove1_count [OF rd_leave.hyps(1)] signal_none_woken [OF rd_leave.hyps(2)] show ?case
    by (auto simp: rw_progress_def rw_counts_def none_woken_def rw_defs)
next
  case (wr_leave t c w)
  with remove1_count [OF wr_leave.hyps(1)] signal_none_woken [OF wr_leave.hyps(2)] show ?case
    by (auto simp: rw_progress_def rw_counts_def none_woken_def rw_defs)
qed (auto simp: rw_progress_def rw_counts_def none_woken_def rw_defs split: if_splits)

lemma one_writer:
  assumes "length xs + length ys \<le> Suc 0" "t \<in> set xs"
  shows "xs = [t] \<and> ys = []"
  using assms by (cases xs) auto

lemma rw_excl_step: "rw_step False False c d \<Longrightarrow> rw_counts c \<Longrightarrow> rw_excl c \<Longrightarrow> rw_excl d"
proof (induction rule: rw_step.induct)
  case (rd_leave t c w)
  then have no: "rc_writing c = []" "cq_woken (w_cond (rc_lock c)) = []" by (auto simp: rw_excl_def)
  have "length (cq_woken (cond_signal w (w_cond (rc_lock c)))) \<le> 1"
    using cond_signal_count(2) [OF rd_leave.hyps(2)] no by simp
  with rd_leave no remove1_count [OF rd_leave.hyps(1)] show ?case
    by (auto simp: rw_excl_def rw_counts_def rw_defs)
next
  case (wr_leave t c w)
  then have "rc_writing c = [t] \<and> cq_woken (w_cond (rc_lock c)) = []"
    by (intro one_writer) (auto simp: rw_excl_def)
  moreover from this have "length (cq_woken (cond_signal w (w_cond (rc_lock c)))) \<le> 1"
    using cond_signal_count(2) [OF wr_leave.hyps(2)] by simp
  ultimately show ?case using wr_leave by (auto simp: rw_excl_def rw_counts_def rw_defs)
next
  case (wr_resume t c)
  then have "cq_woken (w_cond (rc_lock c)) = [t] \<and> rc_writing c = []"
    by (intro one_writer) (auto simp: rw_excl_def)
  with wr_resume show ?case by (auto simp: rw_excl_def rw_defs)
next
  case (rd_resume t c)
  then have "cq_woken (r_cond (rc_lock c)) \<noteq> []" by auto
  with rd_resume show ?case
    by (auto simp: rw_excl_def rw_defs dest: set_mp [OF set_remove1_subset])
qed (auto simp: rw_excl_def rw_counts_def none_woken_def rw_defs split: if_splits)

interpretation rw_counting: step_invariant rw_start "rw_step spur barge" "\<lambda>c. rw_counts c \<and> rw_progress c"
proof unfold_locales
  show "rw_counts c \<and> rw_progress c" if "rw_start c" for c
    using that by (simp add: rw_start_def rw_counts_def rw_progress_def init_rwlock_def)
qed (use rw_counts_step rw_progress_step in blast)

interpretation rw_exclusion: step_invariant rw_start "rw_step False False" "\<lambda>c. rw_counts c \<and> rw_excl c"
proof unfold_locales
  show "rw_counts c \<and> rw_excl c" if "rw_start c" for c
    using that by (simp add: rw_start_def rw_counts_def rw_excl_def init_rwlock_def)
qed (use rw_counts_step rw_excl_step in blast)

section \<open>The searches of the tests\<close>

text \<open>The loops from index \<open>i\<close>, with the index of the best element so far.\<close>

function max_loop :: "int list \<Rightarrow> nat \<Rightarrow> nat \<Rightarrow> nat" where
  "max_loop xs m i =
     (if i < length xs then max_loop xs (if xs ! m < xs ! i then i else m) (Suc i) else m)"
  by pat_completeness auto
termination
  by (relation "measure (\<lambda>(xs, m, i). length xs - i)") auto

function min_loop :: "int list \<Rightarrow> nat \<Rightarrow> nat \<Rightarrow> nat" where
  "min_loop xs m i =
     (if i < length xs then min_loop xs (if xs ! m > xs ! i then i else m) (Suc i) else m)"
  by pat_completeness auto
termination
  by (relation "measure (\<lambda>(xs, m, i). length xs - i)") auto

declare max_loop.simps [simp del] min_loop.simps [simp del]

definition max_element :: "int list \<Rightarrow> nat" where "max_element xs = max_loop xs 0 1"

definition min_element :: "int list \<Rightarrow> nat" where "min_element xs = min_loop xs 0 1"

lemma max_loop_best:
  assumes "m < i" "i \<le> length xs" "\<forall>j<i. xs ! j \<le> xs ! m" "\<forall>j<m. xs ! j < xs ! m"
  shows "max_loop xs m i < length xs \<and> (\<forall>j<length xs. xs ! j \<le> xs ! max_loop xs m i) \<and>
    (\<forall>j<max_loop xs m i. xs ! j < xs ! max_loop xs m i)"
  using assms
proof (induction xs m i rule: max_loop.induct)
  case (1 xs m i)
  show ?case
  proof (cases "i < length xs")
    case True
    let ?m = "if xs ! m < xs ! i then i else m"
    have "\<forall>j<Suc i. xs ! j \<le> xs ! ?m" "\<forall>j<?m. xs ! j < xs ! ?m" "?m < Suc i"
      using 1(2,4,5) by (auto simp: less_Suc_eq not_less intro: order.strict_trans1)
    with 1(1) [OF True] True show ?thesis by (simp add: max_loop.simps [of xs m i] Suc_le_eq)
  next
    case False
    then have "max_loop xs m i = m" by (simp add: max_loop.simps)
    with False 1(2-5) show ?thesis by simp
  qed
qed

lemma min_loop_max_loop: "i \<le> length xs \<Longrightarrow> m < i \<Longrightarrow> min_loop xs m i = max_loop (map uminus xs) m i"
proof (induction xs m i rule: min_loop.induct)
  case (1 xs m i)
  show ?case
  proof (cases "i < length xs")
    case True
    with 1 show ?thesis
      by (simp add: min_loop.simps [of xs m i] max_loop.simps [of "map uminus xs" m i])
  next
    case False
    then show ?thesis by (simp add: min_loop.simps [of xs m i] max_loop.simps [of "map uminus xs" m i])
  qed
qed

section \<open>Properties\<close>

text \<open>C17. In every reachable state, even with barging threads and spurious wake-ups, the counters
  of the lock count the threads that read, write and wait to write, and the lock is never stuck: when
  nobody holds it and nobody is woken, nobody waits.\<close>

theorem rw_counters_and_progress:
  assumes "reach rw_start (rw_step spur barge) c"
  shows "read_cnt (rc_lock c) = int (length (rc_reading c)) \<and>
    write_cnt (rc_lock c) = int (length (rc_writing c)) \<and>
    write_wait (rc_lock c) =
      int (length (cq_wait (w_cond (rc_lock c))) + length (cq_woken (w_cond (rc_lock c)))) \<and>
    (rc_reading c = [] \<longrightarrow> rc_writing c = [] \<longrightarrow> none_woken c \<longrightarrow>
     cq_wait (r_cond (rc_lock c)) = [] \<and> cq_wait (w_cond (rc_lock c)) = [])"
  using rw_counting.reach_inv [OF assms] by (simp add: rw_counts_def rw_progress_def)

text \<open>C16. When woken threads get the mutex before threads that call a lock operation, and wake-ups
  are never spurious, the lock excludes: at most one writer, and no reader beside a writer.\<close>

theorem rw_exclusive_with_handoff:
  assumes "reach rw_start (rw_step False False) c"
  shows "length (rc_writing c) \<le> 1 \<and> (rc_writing c \<noteq> [] \<longrightarrow> rc_reading c = [])"
  using rw_exclusion.reach_inv [OF assms] by (simp add: rw_excl_def)

text \<open>C39. Without that assumption the lock does not exclude, even with no spurious wake-up: a
  writer that arrives between a signal and the return of the signalled writer gives two writers, and
  one that arrives between a broadcast and the return of a woken reader gives a reader and a writer
  at once. The condition is tested by \<^verbatim>\<open>if\<close> and not tested again after the wait.\<close>

theorem rw_not_exclusive_with_barging:
  "(\<exists>c. reach rw_start (rw_step False True) c \<and> length (rc_writing c) = 2) \<and>
   (\<exists>c. reach rw_start (rw_step False True) c \<and> rc_writing c \<noteq> [] \<and> rc_reading c \<noteq> [])"
proof -
  let ?R = "reach rw_start (rw_step False True)"
  let ?c = "\<lambda>wc ww rc rq rk wq wk rd wr. \<lparr>rc_lock = \<lparr>write_cnt = wc, write_wait = ww, read_cnt = rc,
    r_cond = \<lparr>cq_wait = rq, cq_woken = rk\<rparr>, w_cond = \<lparr>cq_wait = wq, cq_woken = wk\<rparr>\<rparr>,
    rc_reading = rd, rc_writing = wr\<rparr>"
  note ev = rw_defs init_rwlock_def cond_init_def cond_wait_def cond_signal_def cond_broadcast_def
    cond_resume_def outside_def in_cond_def none_woken_def may_pick_def
  have "?R \<lparr>rc_lock = init_rwlock, rc_reading = [], rc_writing = []\<rparr>"
    by (rule reach_init) (simp add: rw_start_def)
  from reach_step [OF this wr_enter [of _ 1]] have s1: "?R (?c 1 0 0 [] [] [] [] [] [1])"
    by (simp add: ev)
  from reach_step [OF s1 wr_block [of _ 2]] have "?R (?c 1 1 0 [] [] [2] [] [] [1])" by (simp add: ev)
  from reach_step [OF this wr_leave [of 1 _ "Some 2"]] have "?R (?c 0 1 0 [] [] [] [2] [] [])"
    by (simp add: ev)
  from reach_step [OF this wr_enter [of _ 3]] have "?R (?c 1 1 0 [] [] [] [2] [] [3])" by (simp add: ev)
  from reach_step [OF this wr_resume [of 2]] have w2: "?R (?c 2 0 0 [] [] [] [] [] [2, 3])"
    by (simp add: ev)
  from reach_step [OF s1 rd_block [of _ 2]] have "?R (?c 1 0 0 [2] [] [] [] [] [1])" by (simp add: ev)
  from reach_step [OF this wr_leave [of 1 _ None]] have "?R (?c 0 0 0 [] [2] [] [] [] [])"
    by (simp add: ev)
  from reach_step [OF this wr_enter [of _ 3]] have "?R (?c 1 0 0 [] [2] [] [] [] [3])" by (simp add: ev)
  from reach_step [OF this rd_resume [of 2]] have "?R (?c 1 0 1 [] [] [] [] [2] [3])" by (simp add: ev)
  with w2 show ?thesis by fastforce
qed

text \<open>\<^verbatim>\<open>max_element\<close> and \<^verbatim>\<open>min_element\<close> return the first position of the largest
  and of the smallest element of an array that is not empty.\<close>

theorem max_min_element_first:
  assumes "xs \<noteq> []"
  shows "max_element xs < length xs \<and> (\<forall>j<length xs. xs ! j \<le> xs ! max_element xs) \<and>
    (\<forall>j<max_element xs. xs ! j < xs ! max_element xs) \<and>
    min_element xs < length xs \<and> (\<forall>j<length xs. xs ! min_element xs \<le> xs ! j) \<and>
    (\<forall>j<min_element xs. xs ! min_element xs < xs ! j)"
proof -
  have len: "1 \<le> length xs" using assms by (cases xs) auto
  then have eq: "min_element xs = max_loop (map uminus xs) 0 1"
    by (simp add: min_element_def min_loop_max_loop)
  have "max_loop (map uminus xs) 0 1 < length (map uminus xs) \<and>
    (\<forall>j<length (map uminus xs). map uminus xs ! j \<le> map uminus xs ! max_loop (map uminus xs) 0 1) \<and>
    (\<forall>j<max_loop (map uminus xs) 0 1. map uminus xs ! j < map uminus xs ! max_loop (map uminus xs) 0 1)"
    using len by (intro max_loop_best) auto
  moreover have "max_loop xs 0 1 < length xs \<and> (\<forall>j<length xs. xs ! j \<le> xs ! max_loop xs 0 1) \<and>
    (\<forall>j<max_loop xs 0 1. xs ! j < xs ! max_loop xs 0 1)"
    using len by (intro max_loop_best) auto
  ultimately show ?thesis by (auto simp: eq max_element_def)
qed

section \<open>Witnesses\<close>

abbreviation rw_conf1 :: rw_conf where
  "rw_conf1 \<equiv> \<lparr>rc_lock = \<lparr>write_cnt = 1, write_wait = 0, read_cnt = 0, r_cond = cond_init,
     w_cond = cond_init\<rparr>, rc_reading = [], rc_writing = [1]\<rparr>"

lemma rw_conf1_reach: "reach rw_start (rw_step False False) rw_conf1"
proof -
  have "reach rw_start (rw_step False False) \<lparr>rc_lock = init_rwlock, rc_reading = [], rc_writing = []\<rparr>"
    by (rule reach_init) (simp add: rw_start_def)
  from reach_step [OF this wr_enter [of _ 1]] show ?thesis
    by (simp add: rw_defs init_rwlock_def outside_def none_woken_def)
qed

theorem rw_counters_and_progress_witness:
  "reach rw_start (rw_step False False) rw_conf1 \<and> write_cnt (rc_lock rw_conf1) = int (length (rc_writing rw_conf1))"
  using rw_conf1_reach rw_counters_and_progress [OF rw_conf1_reach] by blast

theorem rw_exclusive_with_handoff_witness:
  "rc_writing rw_conf1 \<noteq> [] \<and> rc_reading rw_conf1 = []"
  using rw_exclusive_with_handoff [OF rw_conf1_reach] by simp

theorem max_min_element_first_witness:
  "max_element [3, 9, 2, 9] = 1 \<and> min_element [3, 9, 2, 9] = 2 \<and> max_element [3, 9, 2, 9] < 4"
  using max_min_element_first [of "[3, 9, 2, 9]"]
  by (simp add: max_element_def min_element_def max_loop.simps min_loop.simps)

end
