(* ===== verification/Rw_Lock_Readers.thy ===== *)
theory Rw_Lock_Readers
  imports Cond_Var
begin

text \<open>
  The other readers-writer lock of \<^verbatim>\<open>hw4/2\<close>, \<^verbatim>\<open>rw_lock-r-test.c\<close>, the version that prefers
  readers: a reader never waits, and writers wait on the one condition variable.
\<close>

record rd_lock =
  rd_write_cnt :: int
  rd_read_cnt :: int
  rd_cond :: "tid condq"

definition rd_init_rwlock :: rd_lock where
  "rd_init_rwlock = \<lparr>rd_write_cnt = 0, rd_read_cnt = 0, rd_cond = cond_init\<rparr>"

definition rd_r_lock :: "rd_lock \<Rightarrow> rd_lock" where
  "rd_r_lock rw = rw\<lparr>rd_read_cnt := rd_read_cnt rw + 1\<rparr>"

definition rd_r_unlock :: "tid option \<Rightarrow> rd_lock \<Rightarrow> rd_lock" where
  "rd_r_unlock w rw0 =
     (let rw = rw0\<lparr>rd_read_cnt := rd_read_cnt rw0 - 1\<rparr> in
      if rd_read_cnt rw = 0 then rw\<lparr>rd_cond := cond_signal w (rd_cond rw)\<rparr> else rw)"

definition rd_w_lock :: "tid \<Rightarrow> rd_lock \<Rightarrow> bool \<times> rd_lock" where
  "rd_w_lock t rw =
     (if rd_read_cnt rw > 0 \<or> rd_write_cnt rw > 0 then (False, rw\<lparr>rd_cond := cond_wait t (rd_cond rw)\<rparr>)
      else (True, rw\<lparr>rd_write_cnt := rd_write_cnt rw + 1\<rparr>))"

definition rd_w_lock_woken :: "tid \<Rightarrow> rd_lock \<Rightarrow> rd_lock" where
  "rd_w_lock_woken t rw =
     rw\<lparr>rd_cond := cond_resume t (rd_cond rw), rd_write_cnt := rd_write_cnt rw + 1\<rparr>"

definition rd_w_unlock :: "tid option \<Rightarrow> rd_lock \<Rightarrow> rd_lock" where
  "rd_w_unlock w rw0 =
     (let rw = rw0\<lparr>rd_write_cnt := rd_write_cnt rw0 - 1\<rparr> in
      if rd_write_cnt rw = 0 then rw\<lparr>rd_cond := cond_signal w (rd_cond rw)\<rparr> else rw)"

text \<open>
  The threads that use the lock. A woken writer gets the mutex before any thread that
  calls a lock operation, and no wake-up is spurious: the most favourable schedule.
\<close>

record rd_conf =
  dc_lock :: rd_lock
  dc_reading :: "tid list"
  dc_writing :: "tid list"

definition rd_outside :: "rd_conf \<Rightarrow> tid \<Rightarrow> bool" where
  "rd_outside c t \<longleftrightarrow> t \<notin> set (dc_reading c) \<union> set (dc_writing c) \<union> in_cond (rd_cond (dc_lock c)) \<and>
     cq_woken (rd_cond (dc_lock c)) = []"

inductive rd_step :: "rd_conf \<Rightarrow> rd_conf \<Rightarrow> bool" where
  dr_enter: "rd_outside c t \<Longrightarrow>
     rd_step c (c\<lparr>dc_lock := rd_r_lock (dc_lock c), dc_reading := t # dc_reading c\<rparr>)"
| dr_leave: "t \<in> set (dc_reading c) \<Longrightarrow> may_pick (rd_cond (dc_lock c)) w \<Longrightarrow>
     rd_step c (c\<lparr>dc_lock := rd_r_unlock w (dc_lock c), dc_reading := remove1 t (dc_reading c)\<rparr>)"
| dw_enter: "rd_outside c t \<Longrightarrow> rd_w_lock t (dc_lock c) = (True, l) \<Longrightarrow>
     rd_step c (c\<lparr>dc_lock := l, dc_writing := t # dc_writing c\<rparr>)"
| dw_block: "rd_outside c t \<Longrightarrow> rd_w_lock t (dc_lock c) = (False, l) \<Longrightarrow> rd_step c (c\<lparr>dc_lock := l\<rparr>)"
| dw_resume: "t \<in> set (cq_woken (rd_cond (dc_lock c))) \<Longrightarrow>
     rd_step c (c\<lparr>dc_lock := rd_w_lock_woken t (dc_lock c), dc_writing := t # dc_writing c\<rparr>)"
| dw_leave: "t \<in> set (dc_writing c) \<Longrightarrow> may_pick (rd_cond (dc_lock c)) w \<Longrightarrow>
     rd_step c (c\<lparr>dc_lock := rd_w_unlock w (dc_lock c), dc_writing := remove1 t (dc_writing c)\<rparr>)"

definition rd_start :: "rd_conf \<Rightarrow> bool" where
  "rd_start c \<longleftrightarrow> c = \<lparr>dc_lock = rd_init_rwlock, dc_reading = [], dc_writing = []\<rparr>"

section \<open>Counters\<close>

definition rd_counts :: "rd_conf \<Rightarrow> bool" where
  "rd_counts c \<longleftrightarrow> rd_read_cnt (dc_lock c) = int (length (dc_reading c)) \<and>
     rd_write_cnt (dc_lock c) = int (length (dc_writing c)) \<and>
     (dc_reading c = [] \<and> dc_writing c = [] \<and> cq_woken (rd_cond (dc_lock c)) = [] \<longrightarrow>
      cq_wait (rd_cond (dc_lock c)) = [])"

lemmas rd_defs = rd_r_lock_def rd_r_unlock_def rd_w_lock_def rd_w_lock_woken_def rd_w_unlock_def Let_def

lemma rd_counts_step: "rd_step c d \<Longrightarrow> rd_counts c \<Longrightarrow> rd_counts d"
proof (induction rule: rd_step.induct)
  case (dr_leave t c w)
  with remove1_count [OF dr_leave.hyps(1)] cond_signal_wakes [OF dr_leave.hyps(2)] show ?case
    by (cases w) (auto simp: rd_counts_def rd_defs may_pick_def)
next
  case (dw_leave t c w)
  with remove1_count [OF dw_leave.hyps(1)] cond_signal_wakes [OF dw_leave.hyps(2)] show ?case
    by (cases w) (auto simp: rd_counts_def rd_defs may_pick_def)
qed (auto simp: rd_counts_def rd_defs split: if_splits)

interpretation rd_counting: step_invariant rd_start rd_step rd_counts
proof unfold_locales
  show "rd_counts c" if "rd_start c" for c
    using that by (simp add: rd_start_def rd_counts_def rd_init_rwlock_def)
qed (rule rd_counts_step)

section \<open>Properties\<close>

text \<open>In every reachable state the counters of the reader-preferring lock are the numbers of
  readers and of writers inside, and no writer is left waiting when nobody holds the lock and nobody is
  woken.\<close>

theorem rd_counters_and_progress:
  assumes "reach rd_start rd_step c"
  shows "rd_read_cnt (dc_lock c) = int (length (dc_reading c)) \<and>
    rd_write_cnt (dc_lock c) = int (length (dc_writing c)) \<and>
    (dc_reading c = [] \<longrightarrow> dc_writing c = [] \<longrightarrow> cq_woken (rd_cond (dc_lock c)) = [] \<longrightarrow>
     cq_wait (rd_cond (dc_lock c)) = [])"
  using rd_counting.reach_inv [OF assms] by (simp add: rd_counts_def)

text \<open>The reader-preferring lock does not exclude even when woken writers go first and no
  wake-up is spurious: \<^verbatim>\<open>r_lock\<close> never waits, so a reader joins a writer; and when that reader
  leaves, \<^verbatim>\<open>r_unlock\<close> wakes a second writer beside the first.\<close>

theorem rd_not_exclusive:
  "(\<exists>c. reach rd_start rd_step c \<and> dc_writing c \<noteq> [] \<and> dc_reading c \<noteq> []) \<and>
   (\<exists>c. reach rd_start rd_step c \<and> length (dc_writing c) = 2)"
proof -
  let ?c = "\<lambda>wc rc q k rd wr. \<lparr>dc_lock = \<lparr>rd_write_cnt = wc, rd_read_cnt = rc,
    rd_cond = \<lparr>cq_wait = q, cq_woken = k\<rparr>\<rparr>, dc_reading = rd, dc_writing = wr\<rparr>"
  note ev = rd_defs rd_init_rwlock_def cond_init_def cond_wait_def cond_signal_def cond_resume_def
    rd_outside_def in_cond_def may_pick_def
  have "reach rd_start rd_step \<lparr>dc_lock = rd_init_rwlock, dc_reading = [], dc_writing = []\<rparr>"
    by (rule reach_init) (simp add: rd_start_def)
  from reach_step [OF this dw_enter [of _ 1]] have "reach rd_start rd_step (?c 1 0 [] [] [] [1])"
    by (simp add: ev)
  from reach_step [OF this dw_block [of _ 2]] have "reach rd_start rd_step (?c 1 0 [2] [] [] [1])"
    by (simp add: ev)
  from reach_step [OF this dr_enter [of _ 3]] have both: "reach rd_start rd_step (?c 1 1 [2] [] [3] [1])"
    by (simp add: ev)
  from reach_step [OF this dr_leave [of 3 _ "Some 2"]] have "reach rd_start rd_step (?c 1 0 [] [2] [] [1])"
    by (simp add: ev)
  from reach_step [OF this dw_resume [of 2]] have "reach rd_start rd_step (?c 2 0 [] [] [] [2, 1])"
    by (simp add: ev)
  with both show ?thesis by fastforce
qed

section \<open>Witnesses\<close>

theorem rd_counters_and_progress_witness:
  "\<exists>c. reach rd_start rd_step c \<and> dc_reading c = [3] \<and> rd_read_cnt (dc_lock c) = int (length (dc_reading c))"
proof -
  have "reach rd_start rd_step \<lparr>dc_lock = rd_init_rwlock, dc_reading = [], dc_writing = []\<rparr>"
    by (rule reach_init) (simp add: rd_start_def)
  from reach_step [OF this dr_enter [of _ 3]]
  have r: "reach rd_start rd_step \<lparr>dc_lock = rd_r_lock rd_init_rwlock, dc_reading = [3], dc_writing = []\<rparr>"
    by (simp add: rd_outside_def rd_init_rwlock_def)
  from rd_counters_and_progress [OF r] r show ?thesis by fastforce
qed

end
