(* ===== verification/Master_Worker.thy ===== *)
theory Master_Worker
  imports Cond_Var
begin

text \<open>
  The producers and consumers of \<^verbatim>\<open>hw4/1/master-worker.c\<close>: masters put the numbers 0, 1, 2, ...
  into a bounded buffer that workers empty from its end. One pass of a thread through
  its loop, up to the point where it releases the mutex, is one operation; a worker can
  block at two places. \<open>mw_consumed\<close> holds the numbers that \<^verbatim>\<open>print_consumed\<close> printed, latest
  first, and \<open>mw_fault\<close> records a store past the end of the buffer.
\<close>

datatype wait_point = FirstWait | SecondWait

record mw =
  item_to_produce :: int
  curr_buf_size :: int
  consume_cnt :: int
  total_items :: int
  max_buf_size :: int
  buffer :: "int list"
  produce :: "tid condq"
  consume :: "(tid \<times> wait_point) condq"
  mw_consumed :: "int list"
  masters_done :: "tid list"
  workers_done :: "tid list"
  mw_fault :: bool

text \<open>The state in which \<^verbatim>\<open>main\<close> starts the threads; \<open>junk\<close> is what \<^verbatim>\<open>malloc\<close> left in the buffer.\<close>

definition mw_init :: "int \<Rightarrow> int \<Rightarrow> int list \<Rightarrow> mw" where
  "mw_init tot maxb junk = \<lparr>item_to_produce = 0, curr_buf_size = 0, consume_cnt = 0,
     total_items = tot, max_buf_size = maxb, buffer = junk, produce = cond_init, consume = cond_init,
     mw_consumed = [], masters_done = [], workers_done = [], mw_fault = False\<rparr>"

text \<open>\<open>w\<close> is the thread that the signal of the pass picks.\<close>

definition produce_item :: "(tid \<times> wait_point) option \<Rightarrow> mw \<Rightarrow> mw" where
  "produce_item w s =
     (if int (length (buffer s)) \<le> curr_buf_size s then s\<lparr>mw_fault := True\<rparr>
      else s\<lparr>buffer := (buffer s)[nat (curr_buf_size s) := item_to_produce s],
             curr_buf_size := curr_buf_size s + 1,
             item_to_produce := item_to_produce s + 1,
             consume := cond_signal w (consume s)\<rparr>)"

definition master_rest :: "tid \<Rightarrow> (tid \<times> wait_point) option \<Rightarrow> mw \<Rightarrow> mw" where
  "master_rest t w s =
     (if item_to_produce s \<ge> total_items s
      then s\<lparr>produce := cond_broadcast (produce s), masters_done := t # masters_done s\<rparr>
      else produce_item w s)"

definition master_enter :: "tid \<Rightarrow> (tid \<times> wait_point) option \<Rightarrow> mw \<Rightarrow> mw" where
  "master_enter t w s =
     (if curr_buf_size s \<ge> max_buf_size s then s\<lparr>produce := cond_wait t (produce s)\<rparr>
      else master_rest t w s)"

definition master_woken :: "tid \<Rightarrow> (tid \<times> wait_point) option \<Rightarrow> mw \<Rightarrow> mw" where
  "master_woken t w s = master_rest t w (s\<lparr>produce := cond_resume t (produce s)\<rparr>)"

definition consume_item :: "mw \<Rightarrow> mw" where
  "consume_item s =
     (let n = nat (curr_buf_size s - 1) in
      s\<lparr>curr_buf_size := curr_buf_size s - 1,
        mw_consumed := buffer s ! n # mw_consumed s,
        buffer := (buffer s)[n := -1],
        consume_cnt := consume_cnt s + 1\<rparr>)"

definition worker_rest :: "tid \<Rightarrow> tid option \<Rightarrow> mw \<Rightarrow> mw" where
  "worker_rest t w s =
     (if consume_cnt s = total_items s
      then s\<lparr>consume := cond_broadcast (consume s), workers_done := t # workers_done s\<rparr>
      else if curr_buf_size s \<le> 0 then s\<lparr>consume := cond_wait (t, SecondWait) (consume s)\<rparr>
      else let s1 = consume_item s in s1\<lparr>produce := cond_signal w (produce s1)\<rparr>)"

definition worker_enter :: "tid \<Rightarrow> tid option \<Rightarrow> mw \<Rightarrow> mw" where
  "worker_enter t w s =
     (if curr_buf_size s \<le> 0 \<and> consume_cnt s < total_items s
      then s\<lparr>consume := cond_wait (t, FirstWait) (consume s)\<rparr>
      else worker_rest t w s)"

definition worker_woken :: "tid \<Rightarrow> wait_point \<Rightarrow> tid option \<Rightarrow> mw \<Rightarrow> mw" where
  "worker_woken t p w s =
     (let s1 = s\<lparr>consume := cond_resume (t, p) (consume s)\<rparr> in
      case p of FirstWait \<Rightarrow> worker_rest t w s1
      | SecondWait \<Rightarrow> s1\<lparr>produce := cond_signal w (produce s1)\<rparr>)"

text \<open>\<open>nm\<close> masters and \<open>nw\<close> workers; with \<open>spur\<close> blocked threads may also wake without a signal.\<close>

inductive mw_step :: "bool \<Rightarrow> nat \<Rightarrow> nat \<Rightarrow> mw \<Rightarrow> mw \<Rightarrow> bool" for spur nm nw where
  m_enter: "\<not> mw_fault s \<Longrightarrow> t < nm \<Longrightarrow> t \<notin> in_cond (produce s) \<Longrightarrow> t \<notin> set (masters_done s) \<Longrightarrow>
     may_pick (consume s) w \<Longrightarrow> mw_step spur nm nw s (master_enter t w s)"
| m_woken: "\<not> mw_fault s \<Longrightarrow> t \<in> set (cq_woken (produce s)) \<Longrightarrow>
     may_pick (consume s) w \<Longrightarrow> mw_step spur nm nw s (master_woken t w s)"
| w_enter: "\<not> mw_fault s \<Longrightarrow> t < nw \<Longrightarrow> t \<notin> fst ` in_cond (consume s) \<Longrightarrow> t \<notin> set (workers_done s) \<Longrightarrow>
     may_pick (produce s) w' \<Longrightarrow> mw_step spur nm nw s (worker_enter t w' s)"
| w_woken: "\<not> mw_fault s \<Longrightarrow> (t, p) \<in> set (cq_woken (consume s)) \<Longrightarrow>
     may_pick (produce s) w' \<Longrightarrow> mw_step spur nm nw s (worker_woken t p w' s)"
| m_spur: "spur \<Longrightarrow> \<not> mw_fault s \<Longrightarrow> t \<in> set (cq_wait (produce s)) \<Longrightarrow>
     mw_step spur nm nw s (s\<lparr>produce := cond_signal (Some t) (produce s)\<rparr>)"
| w_spur: "spur \<Longrightarrow> \<not> mw_fault s \<Longrightarrow> tp \<in> set (cq_wait (consume s)) \<Longrightarrow>
     mw_step spur nm nw s (s\<lparr>consume := cond_signal (Some tp) (consume s)\<rparr>)"

definition mw_start :: "int \<Rightarrow> int \<Rightarrow> mw \<Rightarrow> bool" where
  "mw_start tot maxb s \<longleftrightarrow> (\<exists>junk. length junk = nat maxb \<and> s = mw_init tot maxb junk)"

section \<open>Every number is consumed at most once\<close>

definition mw_inv :: "int \<Rightarrow> int \<Rightarrow> mw \<Rightarrow> bool" where
  "mw_inv tot maxb s \<longleftrightarrow>
     total_items s = tot \<and> max_buf_size s = maxb \<and> length (buffer s) = nat maxb \<and>
     0 \<le> curr_buf_size s \<and> nat (curr_buf_size s) \<le> length (buffer s) \<and>
     0 \<le> item_to_produce s \<and> item_to_produce s \<le> max 0 tot \<and>
     consume_cnt s = int (length (mw_consumed s)) \<and>
     mset (take (nat (curr_buf_size s)) (buffer s)) + mset (mw_consumed s) =
       mset (map int [0..<nat (item_to_produce s)]) \<and>
     (workers_done s \<noteq> [] \<longrightarrow> consume_cnt s = tot)"

lemma mw_inv_conds [simp]:
  "mw_inv tot maxb (s\<lparr>produce := p\<rparr>) = mw_inv tot maxb s"
  "mw_inv tot maxb (s\<lparr>consume := q\<rparr>) = mw_inv tot maxb s"
  "mw_inv tot maxb (s\<lparr>masters_done := d\<rparr>) = mw_inv tot maxb s"
  "mw_inv tot maxb (s\<lparr>mw_fault := b\<rparr>) = mw_inv tot maxb s"
  by (simp_all add: mw_inv_def)

lemma mw_inv_size:
  assumes "mw_inv tot maxb s"
  shows "curr_buf_size s + consume_cnt s = item_to_produce s"
proof -
  have "mset (take (nat (curr_buf_size s)) (buffer s)) + mset (mw_consumed s) =
    mset (map int [0..<nat (item_to_produce s)])" using assms by (simp add: mw_inv_def)
  from arg_cong [OF this, of size] have "min (length (buffer s)) (nat (curr_buf_size s)) +
    length (mw_consumed s) = nat (item_to_produce s)"
    by (simp only: size_union size_mset length_map length_upt length_take diff_zero)
  with assms show ?thesis by (simp add: mw_inv_def min_def split: if_splits)
qed

lemma produce_item_inv:
  assumes "mw_inv tot maxb s" "item_to_produce s < tot"
  shows "mw_inv tot maxb (produce_item w s)"
proof (cases "int (length (buffer s)) \<le> curr_buf_size s")
  case True
  with assms show ?thesis by (simp add: produce_item_def)
next
  case False
  let ?n = "nat (curr_buf_size s)" and ?i = "nat (item_to_produce s)"
  have pos: "0 \<le> curr_buf_size s" "0 \<le> item_to_produce s" using assms(1) by (simp_all add: mw_inv_def)
  then have n: "?n < length (buffer s)" and i: "int ?i = item_to_produce s" "nat (item_to_produce s + 1) = Suc ?i"
    "nat (curr_buf_size s + 1) = Suc ?n" using False by (auto simp: not_le)
  have "mset (take (Suc ?n) ((buffer s)[?n := item_to_produce s])) + mset (mw_consumed s) =
      mset (map int [0..<Suc ?i])"
    using assms(1) n i(1) by (simp add: mw_inv_def take_Suc_conv_app_nth)
  with assms n i pos False show ?thesis
    by (auto simp: produce_item_def mw_inv_def split: if_splits)
qed

lemma consume_item_inv:
  assumes "mw_inv tot maxb s" "0 < curr_buf_size s" "consume_cnt s \<noteq> tot"
  shows "mw_inv tot maxb (consume_item s)"
proof -
  obtain n where n: "nat (curr_buf_size s) = Suc n" "nat (curr_buf_size s - 1) = n"
    using assms(2) by (cases "nat (curr_buf_size s)") auto
  then have len: "n < length (buffer s)" using assms(1) by (simp add: mw_inv_def)
  with assms(1) n have "mset (take n (buffer s)) + add_mset (buffer s ! n) (mset (mw_consumed s)) =
      mset (map int [0..<nat (item_to_produce s)])"
    by (simp add: mw_inv_def take_Suc_conv_app_nth)
  with assms n len show ?thesis
    by (auto simp: consume_item_def mw_inv_def Let_def)
qed

lemma mw_inv_total: "mw_inv tot maxb s \<Longrightarrow> total_items s = tot"
  by (simp add: mw_inv_def)

lemma mw_inv_done:
  "mw_inv tot maxb s \<Longrightarrow> consume_cnt s = tot \<Longrightarrow> mw_inv tot maxb (s\<lparr>workers_done := d\<rparr>)"
  unfolding mw_inv_def by auto

lemma master_rest_inv: "mw_inv tot maxb s \<Longrightarrow> mw_inv tot maxb (master_rest t w s)"
  by (simp add: master_rest_def mw_inv_total produce_item_inv)

lemma worker_rest_inv: "mw_inv tot maxb s \<Longrightarrow> mw_inv tot maxb (worker_rest t w s)"
  by (simp add: worker_rest_def Let_def mw_inv_total mw_inv_done consume_item_inv)

lemma mw_inv_step: "mw_step spur nm nw s s' \<Longrightarrow> mw_inv tot maxb s \<Longrightarrow> mw_inv tot maxb s'"
  by (induction rule: mw_step.induct)
    (auto simp: master_enter_def master_woken_def worker_enter_def worker_woken_def Let_def
      intro: master_rest_inv worker_rest_inv split: wait_point.splits)

interpretation mw_conserves: step_invariant "mw_start tot maxb" "mw_step spur nm nw" "mw_inv tot maxb"
proof unfold_locales
  show "mw_inv tot maxb s" if "mw_start tot maxb s" for s
    using that by (auto simp: mw_start_def mw_init_def mw_inv_def)
qed (rule mw_inv_step)

section \<open>One master and one worker\<close>

text \<open>
  A woken master finds room and a woken worker finds an item, because no third thread
  can get between a signal and the return of the signalled thread.
\<close>

definition mw_pair :: "mw \<Rightarrow> bool" where
  "mw_pair s \<longleftrightarrow> \<not> mw_fault s \<and>
     in_cond (produce s) \<subseteq> {0} \<and> length (cq_wait (produce s)) + length (cq_woken (produce s)) \<le> 1 \<and>
     in_cond (consume s) \<subseteq> {(0, FirstWait)} \<and> length (cq_wait (consume s)) + length (cq_woken (consume s)) \<le> 1 \<and>
     (cq_woken (produce s) \<noteq> [] \<longrightarrow> curr_buf_size s < max_buf_size s) \<and>
     (cq_woken (consume s) \<noteq> [] \<longrightarrow> 0 < curr_buf_size s)"

lemma in_cond_signal: "may_pick c w \<Longrightarrow> in_cond (cond_signal w c) = in_cond c"
proof -
  assume "may_pick c w"
  from arg_cong [OF cond_signal_mset [OF this], of set_mset] show ?thesis by (simp add: in_cond_def)
qed

lemma in_cond_simps [simp]:
  "in_cond (cond_wait t c) = insert t (in_cond c)" "in_cond (cond_broadcast c) = in_cond c"
  by (auto simp: in_cond_def)

lemma in_cond_empty: "in_cond c = {} \<Longrightarrow> cq_wait c = [] \<and> cq_woken c = []"
  by (auto simp: in_cond_def)

lemma resume_only:
  assumes "length (cq_wait c) + length (cq_woken c) \<le> 1" "t \<in> set (cq_woken c)"
  shows "in_cond (cond_resume t c) = {}"
  using assms by (cases "cq_woken c") (auto simp: in_cond_def)

lemma mw_inv_room: "mw_inv tot maxb s \<Longrightarrow> curr_buf_size s < max_buf_size s \<Longrightarrow>
    curr_buf_size s < int (length (buffer s)) \<and> 0 \<le> curr_buf_size s"
  by (simp add: mw_inv_def)

text \<open>A pass of the master that is not in the queue, with room in the buffer.\<close>

lemma master_rest_pair:
  assumes "mw_inv tot maxb s" "mw_pair s" "in_cond (produce s) = {}" "curr_buf_size s < max_buf_size s"
    "may_pick (consume s) w"
  shows "mw_pair (master_rest t w s)"
  using assms mw_inv_room [OF assms(1,4)] in_cond_empty [OF assms(3)] in_cond_signal [OF assms(5)] cond_signal_total [OF assms(5)]
  by (auto simp: master_rest_def produce_item_def mw_pair_def)

lemma worker_rest_pair:
  assumes "mw_inv tot maxb s" "mw_pair s" "in_cond (consume s) = {}" "0 < curr_buf_size s \<or> consume_cnt s = tot"
    "may_pick (produce s) w"
  shows "mw_pair (worker_rest t w s)"
proof -
  have "curr_buf_size s \<le> max_buf_size s \<or> curr_buf_size s \<le> 0" "total_items s = tot"
    using assms(1) by (auto simp: mw_inv_def)
  with assms in_cond_empty [OF assms(3)] in_cond_signal [OF assms(5)] cond_signal_total [OF assms(5)] show ?thesis
    by (auto simp: worker_rest_def consume_item_def Let_def mw_pair_def)
qed

lemma mw_pair_step:
  assumes "mw_step False 1 1 s s'" "mw_inv tot maxb s" "mw_pair s" "0 \<le> tot"
  shows "mw_pair s'"
  using assms(1)
proof cases
  case (m_enter t w)
  then have e: "in_cond (produce s) = {}" using assms(3) by (auto simp: mw_pair_def)
  show ?thesis
  proof (cases "max_buf_size s \<le> curr_buf_size s")
    case True
    with m_enter e in_cond_empty [OF e] assms(3) show ?thesis
      by (auto simp: master_enter_def mw_pair_def)
  next
    case False
    with master_rest_pair [OF assms(2,3) e _ m_enter(6)] m_enter(1) show ?thesis
      by (simp add: master_enter_def)
  qed
next
  case (m_woken t w)
  let ?s = "s\<lparr>produce := cond_resume t (produce s)\<rparr>"
  have e: "in_cond (cond_resume t (produce s)) = {}"
    using assms(3) m_woken(3) by (intro resume_only) (auto simp: mw_pair_def)
  have "curr_buf_size s < max_buf_size s" using assms(3) m_woken(3) by (auto simp: mw_pair_def)
  moreover have "mw_pair ?s" using assms(3) e in_cond_empty [OF e] by (simp add: mw_pair_def)
  ultimately show ?thesis
    using master_rest_pair [of tot maxb ?s w t] assms(2) e m_woken by (simp add: master_woken_def)
next
  case (w_enter t w)
  have "in_cond (consume s) \<subseteq> {(0, FirstWait)}" using assms(3) by (simp add: mw_pair_def)
  with w_enter(3,4) have e: "in_cond (consume s) = {}" by (auto dest!: subset_singletonD)
  have "consume_cnt s \<le> tot" "total_items s = tot"
    using mw_inv_size [OF assms(2)] assms(2,4) by (auto simp: mw_inv_def)
  moreover from this have "mw_pair (worker_rest t w s)"
    if "\<not> (curr_buf_size s \<le> 0 \<and> consume_cnt s < total_items s)"
    using worker_rest_pair [OF assms(2,3) e _ w_enter(6)] that by auto
  moreover have "mw_pair (s\<lparr>consume := cond_wait (0, FirstWait) (consume s)\<rparr>)"
    using assms(3) e in_cond_empty [OF e] by (simp add: mw_pair_def)
  ultimately show ?thesis using w_enter(1,3) by (simp add: worker_enter_def)
next
  case (w_woken t p w)
  let ?s = "s\<lparr>consume := cond_resume (t, p) (consume s)\<rparr>"
  have e: "in_cond (cond_resume (t, p) (consume s)) = {}"
    using assms(3) w_woken(3) by (intro resume_only) (auto simp: mw_pair_def)
  have "0 < curr_buf_size s" "p = FirstWait" using assms(3) w_woken(3) by (auto simp: mw_pair_def in_cond_def)
  moreover have "mw_pair ?s" using assms(3) e in_cond_empty [OF e] by (simp add: mw_pair_def)
  ultimately show ?thesis
    using worker_rest_pair [of tot maxb ?s w t] assms(2) e w_woken by (simp add: worker_woken_def)
qed simp_all

interpretation mw_one_one: step_invariant "mw_start tot maxb" "mw_step False 1 1"
  "\<lambda>s. 0 \<le> tot \<longrightarrow> mw_inv tot maxb s \<and> mw_pair s"
proof unfold_locales
  show "0 \<le> tot \<longrightarrow> mw_inv tot maxb s \<and> mw_pair s" if "mw_start tot maxb s" for s
    using mw_conserves.inv_init [OF that] that by (auto simp: mw_start_def mw_init_def mw_pair_def)
qed (use mw_inv_step mw_pair_step in blast)

section \<open>Properties\<close>

text \<open>C19. In every reachable state, with any number of masters and workers, the numbers in the
  buffer and the numbers consumed are together exactly the numbers produced so far, each once; no more
  than the requested number is produced; and a worker ends only when every number from 0 to the
  requested total has been consumed exactly once.\<close>

theorem mw_items_conserved:
  assumes "reach (mw_start tot maxb) (mw_step spur nm nw) s"
  shows "mset (take (nat (curr_buf_size s)) (buffer s)) + mset (mw_consumed s) =
      mset (map int [0..<nat (item_to_produce s)]) \<and>
    distinct (mw_consumed s) \<and> item_to_produce s \<le> max 0 tot \<and>
    (workers_done s \<noteq> [] \<longrightarrow> mset (mw_consumed s) = mset (map int [0..<nat tot]))"
proof -
  have inv: "mw_inv tot maxb s" by (rule mw_conserves.reach_inv [OF assms])
  then have eq: "mset (take (nat (curr_buf_size s)) (buffer s)) + mset (mw_consumed s) =
      mset (map int [0..<nat (item_to_produce s)])" by (simp add: mw_inv_def)
  then have "distinct (take (nat (curr_buf_size s)) (buffer s) @ mw_consumed s)"
    by (metis mset_append mset_eq_imp_distinct_iff distinct_upt inj_on_of_nat distinct_map)
  moreover have "item_to_produce s = tot \<and> curr_buf_size s = 0" if "workers_done s \<noteq> []"
    using inv that mw_inv_size [OF inv] by (auto simp: mw_inv_def)
  ultimately show ?thesis using inv eq by (auto simp: mw_inv_def)
qed

text \<open>C40. With one master and one worker, without spurious wake-ups, and with a number of items to produce that is not negative,
  the master never stores past the end of the buffer.\<close>

theorem mw_no_overflow_one_one:
  assumes "reach (mw_start tot maxb) (mw_step False 1 1) s" "0 \<le> tot"
  shows "\<not> mw_fault s \<and> 0 \<le> curr_buf_size s \<and> curr_buf_size s \<le> max 0 maxb"
  using mw_one_one.reach_inv [OF assms(1)] assms(2) by (auto simp: mw_pair_def mw_inv_def)

text \<open>With a third thread the master can store past the end of the buffer, also without
  spurious wake-ups. One master and two workers: a worker that lost its item to the other one blocks at
  the second wait, and when it is woken it signals the master although it has consumed nothing. Two
  masters and one worker: the second master takes the room the first was woken for.\<close>

theorem mw_overflow_three_threads:
  "(\<exists>s. reach (mw_start 3 1) (mw_step False 1 2) s \<and> mw_fault s) \<and>
   (\<exists>s. reach (mw_start 3 1) (mw_step False 2 1) s \<and> mw_fault s)"
proof -
  let ?c = "\<lambda>i cb cc bf p q out. \<lparr>item_to_produce = i, curr_buf_size = cb, consume_cnt = cc,
     total_items = 3, max_buf_size = 1, buffer = bf, produce = p, consume = q,
     mw_consumed = out, masters_done = [], workers_done = [], mw_fault = False\<rparr>"
  let ?q = "\<lambda>w k. \<lparr>cq_wait = w, cq_woken = k\<rparr>"
  note ev = master_enter_def master_woken_def master_rest_def produce_item_def worker_enter_def
    worker_woken_def worker_rest_def consume_item_def Let_def cond_wait_def cond_signal_def
    cond_resume_def in_cond_def may_pick_def
  have init: "reach (mw_start 3 1) (mw_step False nm nw) (?c 0 0 0 [0] (?q [] []) (?q [] []) [])" for nm nw
    by (rule reach_init) (simp add: mw_start_def mw_init_def cond_init_def)
  let ?R = "reach (mw_start 3 1) (mw_step False 1 2)"
  from reach_step [OF init w_enter [of _ 0 2 None]]
  have "?R (?c 0 0 0 [0] (?q [] []) (?q [(0, FirstWait)] []) [])" by (simp add: ev)
  from reach_step [OF this m_enter [of _ 0 1 "Some (0, FirstWait)"]]
  have "?R (?c 1 1 0 [0] (?q [] []) (?q [] [(0, FirstWait)]) [])" by (simp add: ev)
  from reach_step [OF this w_enter [of _ 1 2 None]]
  have "?R (?c 1 0 1 [-1] (?q [] []) (?q [] [(0, FirstWait)]) [0])" by (simp add: ev)
  from reach_step [OF this w_woken [of _ 0 FirstWait None]]
  have "?R (?c 1 0 1 [-1] (?q [] []) (?q [(0, SecondWait)] []) [0])" by (simp add: ev)
  from reach_step [OF this m_enter [of _ 0 1 "Some (0, SecondWait)"]]
  have "?R (?c 2 1 1 [1] (?q [] []) (?q [] [(0, SecondWait)]) [0])" by (simp add: ev)
  from reach_step [OF this m_enter [of _ 0 1 None]]
  have "?R (?c 2 1 1 [1] (?q [0] []) (?q [] [(0, SecondWait)]) [0])" by (simp add: ev)
  from reach_step [OF this w_woken [of _ 0 SecondWait "Some 0"]]
  have "?R (?c 2 1 1 [1] (?q [] [0]) (?q [] []) [0])" by (simp add: ev)
  from reach_step [OF this m_woken [of _ 0 None]]
  have a: "?R ((?c 2 1 1 [1] (?q [] []) (?q [] []) [0])\<lparr>mw_fault := True\<rparr>)" by (simp add: ev)
  let ?R = "reach (mw_start 3 1) (mw_step False 2 1)"
  from reach_step [OF init m_enter [of _ 0 2 None]]
  have "?R (?c 1 1 0 [0] (?q [] []) (?q [] []) [])" by (simp add: ev)
  from reach_step [OF this m_enter [of _ 0 2 None]]
  have "?R (?c 1 1 0 [0] (?q [0] []) (?q [] []) [])" by (simp add: ev)
  from reach_step [OF this w_enter [of _ 0 1 "Some 0"]]
  have "?R (?c 1 0 1 [-1] (?q [] [0]) (?q [] []) [0])" by (simp add: ev)
  from reach_step [OF this m_enter [of _ 1 2 None]]
  have "?R (?c 2 1 1 [1] (?q [] [0]) (?q [] []) [0])" by (simp add: ev)
  from reach_step [OF this m_woken [of _ 0 None]]
  have "?R ((?c 2 1 1 [1] (?q [] []) (?q [] []) [0])\<lparr>mw_fault := True\<rparr>)" by (simp add: ev)
  with a show ?thesis by fastforce
qed

section \<open>Witnesses\<close>

lemma mw_init_reach: "reach (mw_start 3 1) (mw_step False 1 1) (mw_init 3 1 [0])"
  by (rule reach_init) (simp add: mw_start_def, rule exI [of _ "[0]"], simp)

lemma mw_one_item: "reach (mw_start 3 1) (mw_step False 1 1) (master_enter 0 None (mw_init 3 1 [0]))"
  by (rule reach_step [OF mw_init_reach m_enter]) (simp_all add: mw_init_def may_pick_def)

theorem mw_items_conserved_witness:
  "distinct (mw_consumed (master_enter 0 None (mw_init 3 1 [0]))) \<and>
   mset (take 1 (buffer (master_enter 0 None (mw_init 3 1 [0])))) = {#0#}"
  using mw_items_conserved [OF mw_one_item]
  by (simp add: mw_init_def master_enter_def master_rest_def produce_item_def)

theorem mw_no_overflow_one_one_witness:
  "\<not> mw_fault (master_enter 0 None (mw_init 3 1 [0])) \<and>
   curr_buf_size (master_enter 0 None (mw_init 3 1 [0])) \<le> 1"
  using mw_no_overflow_one_one [OF mw_one_item] by simp

end
