(* ===== verification/Ssu_Shell.thy ===== *)
theory Ssu_Shell
  imports Prelude
begin

text \<open>
  The command-line shell of \<^verbatim>\<open>hw2/ssu_shell.c\<close>: the tokenizer with its fixed buffers, and
  the loop that starts a pipeline. A C string is a region of memory, a list of
  characters whose first NUL ends the string. \<open>None\<close> is undefined behaviour: a
  string without an end, a store past the end of a buffer, or a NULL pointer that is
  followed.
\<close>

definition MAX_TOKEN_SIZE :: nat where "MAX_TOKEN_SIZE = 64"
definition MAX_NUM_TOKENS :: nat where "MAX_NUM_TOKENS = 64"

abbreviation NUL :: char where "NUL \<equiv> CHR 0x00"
abbreviation NL :: char where "NL \<equiv> CHR 0x0A"
abbreviation TAB :: char where "TAB \<equiv> CHR 0x09"

definition c_strlen :: "string \<Rightarrow> nat option" where
  "c_strlen buf = first_idx (\<lambda>c. c = NUL) buf"

text \<open>The loop of \<^verbatim>\<open>tokenize\<close>, with the token and the tokens collected so far.\<close>

primrec tok_loop :: "char \<Rightarrow> string \<Rightarrow> string \<Rightarrow> string list \<Rightarrow> string list option" where
  "tok_loop pipe_ch [] token tokens =
     (if MAX_NUM_TOKENS \<le> length tokens then None else Some tokens)"
| "tok_loop pipe_ch (readChar # cs) token tokens =
     (if MAX_TOKEN_SIZE \<le> length token then None
      else if readChar = pipe_ch \<or> readChar = NL \<or> readChar = TAB then
        (if token \<noteq> [] then
           if MAX_NUM_TOKENS \<le> length tokens then None
           else tok_loop pipe_ch cs [] (tokens @ [token])
         else tok_loop pipe_ch cs token tokens)
      else tok_loop pipe_ch cs (token @ [readChar]) tokens)"

text \<open>
  \<^verbatim>\<open>tokenize\<close> on the region \<open>line\<close>. The terminator is overwritten by a newline, so the loop
  runs to the next NUL of the region.
\<close>

definition tokenize :: "string \<Rightarrow> int \<Rightarrow> string list option" where
  "tokenize line flag =
     (case c_strlen line of None \<Rightarrow> None
      | Some n \<Rightarrow>
          let line1 = line[n := NL];
              pipe_ch = (if flag = 0 then CHR '' '' else CHR ''|'')
          in (case c_strlen line1 of None \<Rightarrow> None
              | Some m \<Rightarrow> tok_loop pipe_ch (take m line1) [] []))"

text \<open>The number of commands that \<^verbatim>\<open>main\<close> counts in a line.\<close>

definition count_cmds :: "string \<Rightarrow> nat" where
  "count_cmds s = 1 + length (filter (\<lambda>c. c = CHR ''|'') s)"

section \<open>Starting a pipeline\<close>

text \<open>
  Open files as far as the shell uses them: the terminal and the two ends of the
  \<open>k\<close>-th pipe. A descriptor table lists what each descriptor refers to.
\<close>

datatype fobj = Terminal | PipeR nat | PipeW nat

type_synonym fdtab = "fobj option list"

definition fd_alloc :: "fobj \<Rightarrow> fdtab \<Rightarrow> nat \<times> fdtab" where
  "fd_alloc f tab = (case first_idx (\<lambda>x. x = None) tab of
     Some i \<Rightarrow> (i, tab[i := Some f]) | None \<Rightarrow> (length tab, tab @ [Some f]))"

definition fd_pipe :: "nat \<Rightarrow> fdtab \<Rightarrow> nat \<times> nat \<times> fdtab" where
  "fd_pipe k tab = (let (r, tab1) = fd_alloc (PipeR k) tab; (w, tab2) = fd_alloc (PipeW k) tab1
     in (r, w, tab2))"

definition fd_dup2 :: "nat \<Rightarrow> nat \<Rightarrow> fdtab \<Rightarrow> fdtab" where
  "fd_dup2 old new tab = tab[new := tab ! old]"

definition fd_close :: "nat \<Rightarrow> fdtab \<Rightarrow> fdtab" where
  "fd_close i tab = (if i < length tab then tab[i := None] else tab)"

definition fd_get :: "fdtab \<Rightarrow> nat \<Rightarrow> fobj option" where
  "fd_get tab i = (if i < length tab then tab ! i else None)"

text \<open>A child that reached \<^verbatim>\<open>execvp\<close>: its argument vector and its descriptors.\<close>

record child =
  ch_argv :: "string list"
  ch_fds :: fdtab

definition run_child :: "string list \<Rightarrow> nat \<Rightarrow> nat \<Rightarrow> nat \<Rightarrow> nat \<Rightarrow> nat \<Rightarrow> string list \<Rightarrow> fdtab \<Rightarrow> child" where
  "run_child commands cmd_cnt i fd_prev r w command tab =
     \<lparr>ch_argv = command,
      ch_fds = (if cmd_cnt > 1 then
        let tab1 = fd_dup2 fd_prev 0 tab;
            tab2 = (if Suc i < length commands then fd_dup2 w 1 tab1 else tab1)
        in fd_close r tab2 else tab)\<rparr>"

text \<open>
  The loop of \<^verbatim>\<open>executeCommand\<close> from command \<open>i\<close>, where \<open>fork i\<close> is what the \<open>i\<close>-th fork
  returned to the shell. The result holds the children started, the shell's
  descriptors, and whether the function returned inside the loop. \<open>commands\<close> are the
  regions the tokens of the line are stored in; the entry after them is NULL.
\<close>

function exec_loop :: "string list \<Rightarrow> nat \<Rightarrow> (nat \<Rightarrow> int) \<Rightarrow> nat \<Rightarrow> nat \<Rightarrow> fdtab \<Rightarrow> child list \<Rightarrow>
    (child list \<times> fdtab \<times> bool) option" where
  "exec_loop commands cmd_cnt fork i fd_prev tab started =
     (if i < cmd_cnt then
        let (r, w, tab1) = (if cmd_cnt > 1 then fd_pipe i tab else (0, 0, tab)) in
        (case (if i < length commands then tokenize (commands ! i) 0 else None) of
           None \<Rightarrow> None
         | Some command \<Rightarrow>
             if fork i = 1 then Some (started, tab1, True)
             else exec_loop commands cmd_cnt fork (Suc i)
                    (if cmd_cnt > 1 then r else fd_prev)
                    (if cmd_cnt > 1 then fd_close w tab1 else tab1)
                    (if fork i > 0
                     then started @ [run_child commands cmd_cnt i fd_prev r w command tab1]
                     else started))
      else Some (started, tab, False))"
  by pat_completeness auto
termination
  by (relation "measure (\<lambda>(commands, cmd_cnt, fork, i, fd_prev, tab, started). cmd_cnt - i)") auto

declare exec_loop.simps [simp del]

definition executeCommand :: "string list \<Rightarrow> nat \<Rightarrow> (nat \<Rightarrow> int) \<Rightarrow> fdtab \<Rightarrow> (child list \<times> fdtab) option" where
  "executeCommand commands cmd_cnt fork tab =
     (case exec_loop commands cmd_cnt fork 0 0 tab [] of None \<Rightarrow> None
      | Some (started, tab1, early) \<Rightarrow>
          Some (started, if early then tab1 else fold fd_close [3..<3 + cmd_cnt] tab1))"

text \<open>
  What \<^verbatim>\<open>main\<close> does with a line that was read; \<open>heap k\<close> is what \<^verbatim>\<open>malloc\<close> left behind the
  \<open>k\<close>-th token.
\<close>

definition shell_line :: "string \<Rightarrow> (nat \<Rightarrow> string) \<Rightarrow> (nat \<Rightarrow> int) \<Rightarrow> fdtab \<Rightarrow> (child list \<times> fdtab) option" where
  "shell_line line heap fork tab =
     (case c_strlen line of None \<Rightarrow> None
      | Some n \<Rightarrow>
          if n = 0 then Some ([], tab)
          else case tokenize line 1 of None \<Rightarrow> None
            | Some tokens \<Rightarrow>
                executeCommand (map (\<lambda>k. tokens ! k @ NUL # heap k) [0..<length tokens])
                  (count_cmds (take n line)) fork tab)"

section \<open>Words of a line\<close>

text \<open>The reference: split at the separators and drop the empty pieces.\<close>

primrec split_at :: "(char \<Rightarrow> bool) \<Rightarrow> string \<Rightarrow> string list" where
  "split_at P [] = [[]]"
| "split_at P (c # s) = (if P c then [] # split_at P s
     else (c # hd (split_at P s)) # tl (split_at P s))"

definition words_of :: "(char \<Rightarrow> bool) \<Rightarrow> string \<Rightarrow> string list" where
  "words_of P s = filter (\<lambda>w. w \<noteq> []) (split_at P s)"

abbreviation sep_of :: "char \<Rightarrow> char \<Rightarrow> bool" where
  "sep_of ch c \<equiv> c = ch \<or> c = NL \<or> c = TAB"

lemma split_at_not_Nil [simp]: "split_at P s \<noteq> []"
  by (induction s) auto

lemma split_at_prefix:
  "\<forall>c\<in>set w. \<not> P c \<Longrightarrow> split_at P (w @ s) = (w @ hd (split_at P s)) # tl (split_at P s)"
  by (induction w) auto

lemma split_at_snoc: "P d \<Longrightarrow> split_at P (s @ [d]) = split_at P s @ [[]]"
proof (induction s)
  case (Cons c s)
  then show ?case by (cases "split_at P s") auto
qed simp

lemma words_of_snoc: "P d \<Longrightarrow> words_of P (s @ [d]) = words_of P s"
  by (simp add: words_of_def split_at_snoc)

lemma words_of_sep: "\<forall>c\<in>set w. \<not> P c \<Longrightarrow> P d \<Longrightarrow>
    words_of P (w @ d # s) = (if w = [] then [] else [w]) @ words_of P s"
  by (simp add: words_of_def split_at_prefix)

lemma words_of_prefix:
  assumes "\<forall>c\<in>set w. \<not> P c" "w \<noteq> []"
  shows "\<exists>v. w @ v \<in> set (words_of P (w @ s))"
  using split_at_prefix [OF assms(1), of s] assms(2) by (auto simp: words_of_def)

text \<open>The loop collects the words, as long as they fit the buffers.\<close>

lemma tok_loop_words:
  assumes "\<forall>c\<in>set token. \<not> sep_of ch c" "s = [] \<longrightarrow> token = []"
    "\<forall>w\<in>set (words_of (sep_of ch) (token @ s)). length w < MAX_TOKEN_SIZE"
    "length tokens + length (words_of (sep_of ch) (token @ s)) < MAX_NUM_TOKENS"
    "s \<noteq> [] \<longrightarrow> sep_of ch (last s)"
  shows "tok_loop ch s token tokens = Some (tokens @ words_of (sep_of ch) (token @ s))"
  using assms
proof (induction s arbitrary: token tokens)
  case Nil
  then show ?case by (simp add: words_of_def)
next
  case (Cons c s)
  have len: "\<not> MAX_TOKEN_SIZE \<le> length token"
  proof (cases "token = []")
    case False
    from words_of_prefix [OF Cons.prems(1) False, of "c # s"] Cons.prems(3) show ?thesis
      by fastforce
  qed (simp add: MAX_TOKEN_SIZE_def)
  show ?case
  proof (cases "sep_of ch c")
    case True
    note w = words_of_sep [OF Cons.prems(1), of c s] words_of_sep [of "[]" "sep_of ch" c s]
    show ?thesis
      using Cons.IH [of "[]" "tokens @ (if token = [] then [] else [token])"] Cons.prems len True w
      by (cases "token = []"; cases "s = []") auto
  next
    case False
    with Cons.prems(5) have "s \<noteq> []" "sep_of ch (last s)" by (auto split: if_splits)
    with Cons.IH [of "token @ [c]" tokens] Cons.prems len False show ?thesis by auto
  qed
qed

lemma c_strlen_append: "NUL \<notin> set s \<Longrightarrow> c_strlen (s @ NUL # r) = Some (length s)"
  unfolding c_strlen_def by (rule first_idx_SomeI) (auto simp: nth_append in_set_conv_nth)

definition fits_buffers :: "string list \<Rightarrow> bool" where
  "fits_buffers ws \<longleftrightarrow> length ws < MAX_NUM_TOKENS \<and> (\<forall>w\<in>set ws. length w < MAX_TOKEN_SIZE)"

abbreviation sep_ch :: "int \<Rightarrow> char" where
  "sep_ch flag \<equiv> (if flag = 0 then CHR '' '' else CHR ''|'')"

lemma tokenize_eq:
  assumes "NUL \<notin> set s" "fits_buffers (words_of (sep_of (sep_ch flag)) s)"
  shows "tokenize (s @ NUL # NUL # r) flag = Some (words_of (sep_of (sep_ch flag)) s)"
proof -
  let ?line1 = "(s @ NUL # NUL # r)[length s := NL]"
  have l1: "?line1 = (s @ [NL]) @ NUL # r" by (simp add: list_update_append)
  have "NUL \<notin> set (s @ [NL])" using assms(1) by simp
  from c_strlen_append [OF this, of r] have len: "c_strlen ?line1 = Some (Suc (length s))"
    by (simp add: l1)
  have "tok_loop ch (s @ [NL]) [] [] = Some ([] @ words_of (sep_of ch) ([] @ s @ [NL]))"
    if "fits_buffers (words_of (sep_of ch) s)" for ch
    using that by (intro tok_loop_words) (auto simp: fits_buffers_def words_of_snoc)
  with assms(2) have "tok_loop (sep_ch flag) (s @ [NL]) [] [] = Some (words_of (sep_of (sep_ch flag)) s)"
    by (simp add: words_of_snoc)
  then show ?thesis
    using c_strlen_append [OF assms(1)] len by (simp add: tokenize_def Let_def l1)
qed

lemma exec_loop_null:
  "length commands < cmd_cnt \<Longrightarrow> i \<le> length commands \<Longrightarrow> \<forall>k. fork k \<noteq> 1 \<Longrightarrow>
    exec_loop commands cmd_cnt fork i fd_prev tab started = None"
proof (induction commands cmd_cnt fork i fd_prev tab started rule: exec_loop.induct)
  case (1 commands cmd_cnt fork i fd_prev tab started)
  show ?case
  proof (cases "i < length commands")
    case True
    then show ?thesis
      using 1 by (subst exec_loop.simps) (auto split: option.splits prod.splits)
  next
    case False
    with 1(2,3) show ?thesis by (subst exec_loop.simps) (auto split: prod.splits)
  qed
qed

text \<open>The shell's descriptors before command \<open>i\<close> of a pipeline: one open read end per pipe.\<close>

definition tab3 :: fdtab where "tab3 = replicate 3 (Some Terminal)"

definition reads :: "nat \<Rightarrow> fdtab" where "reads i = map (\<lambda>k. Some (PipeR k)) [0..<i]"

definition pipe_tab :: "nat \<Rightarrow> fdtab" where
  "pipe_tab i = tab3 @ reads i @ (if i = 0 then [] else [None])"

lemma reads_Suc: "reads (Suc i) = reads i @ [Some (PipeR i)]"
  by (simp add: reads_def)

lemma length_reads [simp]: "length (reads i) = i"
  by (simp add: reads_def)

lemma length_tab3 [simp]: "length tab3 = 3"
  by (simp add: tab3_def)

lemma tab3_reads_open: "\<forall>x\<in>set (tab3 @ reads i). x \<noteq> None"
  by (auto simp: tab3_def reads_def)

lemma fd_alloc_full: "\<forall>x\<in>set tab. x \<noteq> None \<Longrightarrow> fd_alloc f tab = (length tab, tab @ [Some f])"
  using first_idx_None [of "\<lambda>x. x = None" tab] by (simp add: fd_alloc_def)

lemma fd_alloc_hole: "\<forall>x\<in>set tab. x \<noteq> None \<Longrightarrow> fd_alloc f (tab @ [None]) = (length tab, tab @ [Some f])"
proof -
  assume a: "\<forall>x\<in>set tab. x \<noteq> None"
  have "first_idx (\<lambda>x. x = None) (tab @ [None]) = Some (length tab)"
    by (rule first_idx_SomeI) (use a in \<open>auto simp: nth_append\<close>)
  then show ?thesis by (simp add: fd_alloc_def)
qed

lemma fd_pipe_tab:
  "fd_pipe i (pipe_tab i) = (3 + i, 4 + i, tab3 @ reads i @ [Some (PipeR i), Some (PipeW i)])"
proof -
  note op = tab3_reads_open [of i]
  have "fd_alloc (PipeR i) (pipe_tab i) = (3 + i, (tab3 @ reads i) @ [Some (PipeR i)])"
    using fd_alloc_full [OF op, of "PipeR i"] fd_alloc_hole [OF op, of "PipeR i"]
    by (cases "i = 0") (auto simp: pipe_tab_def)
  moreover have "fd_alloc (PipeW i) ((tab3 @ reads i) @ [Some (PipeR i)]) =
      (4 + i, ((tab3 @ reads i) @ [Some (PipeR i)]) @ [Some (PipeW i)])"
    using op by (subst fd_alloc_full) auto
  ultimately show ?thesis by (simp add: fd_pipe_def)
qed

lemma fd_close_pipe_tab:
  "fd_close (4 + i) (tab3 @ reads i @ [Some (PipeR i), Some (PipeW i)]) = pipe_tab (Suc i)"
  by (simp add: fd_close_def pipe_tab_def reads_Suc list_update_append)

abbreviation prev_end :: "nat \<Rightarrow> nat" where "prev_end i \<equiv> (if i = 0 then 0 else 2 + i)"

definition stage :: "string list \<Rightarrow> (nat \<Rightarrow> string list) \<Rightarrow> nat \<Rightarrow> child" where
  "stage commands argv i = run_child commands (length commands) i (prev_end i) (3 + i) (4 + i) (argv i)
     (tab3 @ reads i @ [Some (PipeR i), Some (PipeW i)])"

lemma exec_loop_stages:
  assumes "1 < length commands" "\<forall>k<length commands. tokenize (commands ! k) 0 = Some (argv k)" "\<forall>k. 1 < fork k"
  shows "i \<le> length commands \<Longrightarrow> exec_loop commands (length commands) fork i (prev_end i) (pipe_tab i) started =
    Some (started @ map (stage commands argv) [i..<length commands], pipe_tab (length commands), False)"
proof (induction "length commands - i" arbitrary: i started)
  case 0
  then show ?case by (simp add: exec_loop.simps)
next
  case (Suc d)
  then have i: "i < length commands" by simp
  have f: "fork i \<noteq> 1" "fork i > 0" using assms(3) [rule_format, of i] by simp_all
  from i have up: "[i..<length commands] = i # [Suc i..<length commands]" by (simp add: upt_conv_Cons)
  have "exec_loop commands (length commands) fork i (prev_end i) (pipe_tab i) started =
      exec_loop commands (length commands) fork (Suc i) (prev_end (Suc i)) (pipe_tab (Suc i))
        (started @ [stage commands argv i])"
    using i f assms(1,2)
    by (subst exec_loop.simps) (simp add: fd_pipe_tab fd_close_pipe_tab stage_def numeral_3_eq_3)
  with Suc.hyps(1) [of "Suc i" "started @ [stage commands argv i]"] Suc.hyps(2) i show ?case
    by (simp add: up)
qed

lemma stage_fds:
  assumes "i < length commands" "1 < length commands"
  shows "ch_argv (stage commands argv i) = argv i"
    and "fd_get (ch_fds (stage commands argv i)) 0 = Some (if i = 0 then Terminal else PipeR (i - 1))"
    and "fd_get (ch_fds (stage commands argv i)) 1 = Some (if Suc i < length commands then PipeW i else Terminal)"
    and "fd_get (ch_fds (stage commands argv i)) 2 = Some Terminal"
proof -
  let ?t = "tab3 @ reads i @ [Some (PipeR i), Some (PipeW i)]"
  have n: "?t ! 0 = Some Terminal" "?t ! 1 = Some Terminal" "?t ! 2 = Some Terminal"
    "?t ! (4 + i) = Some (PipeW i)"
    by (simp_all add: nth_append tab3_def)
  have p: "?t ! (2 + i) = Some (PipeR (i - 1))" if "i \<noteq> 0"
    using that by (simp add: nth_append reads_def)
  note d = stage_def run_child_def fd_dup2_def fd_close_def fd_get_def Let_def
  show "ch_argv (stage commands argv i) = argv i" by (simp add: d)
  show "fd_get (ch_fds (stage commands argv i)) 0 = Some (if i = 0 then Terminal else PipeR (i - 1))"
    using assms n p by (cases "i = 0") (simp_all add: d nth_list_update)
  show "fd_get (ch_fds (stage commands argv i)) 1 = Some (if Suc i < length commands then PipeW i else Terminal)"
    using assms n p by (simp add: d nth_list_update)
  show "fd_get (ch_fds (stage commands argv i)) 2 = Some Terminal"
    using assms n p by (simp add: d nth_list_update)
qed

lemma fold_fd_close: "fd_get (fold fd_close ks tab) j = (if j \<in> set ks then None else fd_get tab j)"
proof (induction ks arbitrary: tab)
  case (Cons k ks)
  have "fd_get (fd_close k tab) j = (if j = k then None else fd_get tab j)"
    by (auto simp: fd_get_def fd_close_def nth_list_update)
  with Cons show ?case by (cases "j = k") simp_all
qed simp

lemma fd_get_tab3: "fd_get tab3 j = (if j < 3 then Some Terminal else None)"
  by (simp add: fd_get_def tab3_def)

lemma fd_get_pipe_tab: "fd_get (pipe_tab n) j = (if j < 3 then Some Terminal
    else if j < 3 + n then Some (PipeR (j - 3)) else None)"
  by (auto simp: fd_get_def pipe_tab_def nth_append tab3_def reads_def)

section \<open>Properties\<close>

text \<open>C35. On a line whose buffer holds another NUL behind its terminator, and whose words fit the
  fixed buffers (fewer than 64 words of fewer than 64 characters), \<^verbatim>\<open>tokenize\<close> returns exactly the
  maximal runs of characters between separators, in order, for both kinds of separator.\<close>

theorem tokenize_words:
  assumes "NUL \<notin> set s" "ws = words_of (sep_of (if flag = 0 then CHR '' '' else CHR ''|'')) s"
    "length ws < 64" "\<forall>w\<in>set ws. length w < 64"
  shows "tokenize (s @ NUL # NUL # r) flag = Some ws"
  using tokenize_eq [OF assms(1), of flag r] assms(2-4)
  by (simp add: fits_buffers_def MAX_NUM_TOKENS_def MAX_TOKEN_SIZE_def)

text \<open>C34. A pipeline of two or more commands is wired correctly. If the shell has the descriptors 0, 1 and 2 open and no
  others, the words of every command fit the buffers, and no fork fails, then every command is started with its own words;
  descriptor 0 of command \<open>k\<close> is the pipe that descriptor 1 of command \<open>k - 1\<close> writes, descriptor 0 of the first and descriptor 1 of the
  last are the terminal; and afterwards the shell has exactly the descriptors it had before.\<close>

theorem pipeline_wired:
  assumes "1 < length commands" "\<forall>k<length commands. tokenize (commands ! k) 0 = Some (argv k)"
    "\<forall>k. 1 < fork k"
  shows "\<exists>started tab. executeCommand commands (length commands) fork tab3 = Some (started, tab) \<and>
    length started = length commands \<and> (\<forall>j. fd_get tab j = fd_get tab3 j) \<and>
    (\<forall>k<length commands. ch_argv (started ! k) = argv k \<and>
       fd_get (ch_fds (started ! k)) 0 = Some (if k = 0 then Terminal else PipeR (k - 1)) \<and>
       fd_get (ch_fds (started ! k)) 1 = Some (if Suc k < length commands then PipeW k else Terminal))"
proof -
  let ?n = "length commands" and ?st = "map (stage commands argv) [0..<length commands]"
  have "pipe_tab 0 = tab3" by (simp add: pipe_tab_def reads_def)
  with exec_loop_stages [OF assms, of 0 "[]"]
  have "executeCommand commands ?n fork tab3 = Some (?st, fold fd_close [3..<3 + ?n] (pipe_tab ?n))"
    by (simp add: executeCommand_def)
  moreover have "fd_get (fold fd_close [3..<3 + ?n] (pipe_tab ?n)) j = fd_get tab3 j" for j
    by (auto simp: fold_fd_close fd_get_pipe_tab fd_get_tab3)
  ultimately show ?thesis using stage_fds [OF _ assms(1)] by auto
qed

text \<open>A line with an empty command, such as \<^verbatim>\<open>ls|\<close>, makes the shell follow a NULL pointer:
  \<^verbatim>\<open>main\<close> counts one command more than there are bars, \<^verbatim>\<open>tokenize\<close> drops the empty ones, and
  \<^verbatim>\<open>executeCommand\<close> reads past the last token.\<close>

theorem empty_command_crashes:
  assumes "length commands < cmd_cnt" "\<forall>k. fork k \<noteq> 1"
  shows "executeCommand commands cmd_cnt fork tab = None"
  using exec_loop_null [OF assms(1) _ assms(2), of 0] by (simp add: executeCommand_def)

text \<open>What lies behind a token in memory matters. \<^verbatim>\<open>tokenize\<close> overwrites the terminator of
  its argument, so on a token that \<^verbatim>\<open>malloc\<close> placed before old text it goes on into that text: the
  command \<^verbatim>\<open>ls\<close> gets arguments that were never typed.\<close>

theorem tokenize_reads_stale_memory:
  "tokenize (''ls'' @ NUL # ''rm x '' @ NUL # r) 0 = Some [''ls'', ''rm'', ''x''] \<and>
   tokenize (''ls'' @ NUL # NUL # ''rm x '' @ NUL # r) 0 = Some [''ls'']"
  by (simp add: tokenize_def c_strlen_def MAX_TOKEN_SIZE_def MAX_NUM_TOKENS_def)

section \<open>Witnesses\<close>

theorem tokenize_words_witness:
  "tokenize (''ls -l  x'' @ NUL # NUL # []) 0 = Some [''ls'', ''-l'', ''x'']"
proof -
  have "words_of (sep_of (if (0 :: int) = 0 then CHR '' '' else CHR ''|'')) ''ls -l  x'' =
      [''ls'', ''-l'', ''x'']" by (simp add: words_of_def)
  from tokenize_words [of "''ls -l  x''" "[''ls'', ''-l'', ''x'']" 0 "[]"] this show ?thesis by simp
qed

theorem pipeline_wired_witness:
  "\<exists>started tab. executeCommand [''ls'' @ [NUL, NUL], ''wc'' @ [NUL, NUL]] 2 (\<lambda>k. 7) tab3 = Some (started, tab) \<and>
     length started = 2"
proof -
  let ?c = "[''ls'' @ [NUL, NUL], ''wc'' @ [NUL, NUL]]"
  have "\<forall>k<length ?c. tokenize (?c ! k) 0 = Some ((\<lambda>k. if k = 0 then [''ls''] else [''wc'']) k)"
    by (auto simp: less_2_cases_iff tokenize_def c_strlen_def MAX_TOKEN_SIZE_def MAX_NUM_TOKENS_def)
  from pipeline_wired [OF _ this, of "\<lambda>k. 7"] show ?thesis by (auto simp: numeral_2_eq_2)
qed

theorem empty_command_crashes_witness:
  "count_cmds ''ls|'' = 2 \<and> shell_line (''ls|'' @ [NUL, NUL]) (\<lambda>k. [NUL]) (\<lambda>k. 7) tab3 = None"
proof -
  have "executeCommand [''ls'' @ [NUL, NUL]] 2 (\<lambda>k. 7) tab3 = None"
    by (rule empty_command_crashes) simp_all
  then show ?thesis
    by (simp add: count_cmds_def shell_line_def tokenize_def c_strlen_def MAX_TOKEN_SIZE_def MAX_NUM_TOKENS_def
        numeral_2_eq_2)
qed

end
