(* ===== verification/Ssufs_Disk.thy ===== *)
theory Ssufs_Disk
  imports Byte_Store "HOL-Library.Monad_Syntax"
begin

text \<open>
  The disk layer of the teaching file system, \<^verbatim>\<open>hw6/ssufs_q/ssufs-disk.c\<close>. The disk is the
  contents of the file \<^verbatim>\<open>ssufs\<close>, byte for byte: the superblock in the first 64 bytes, eight
  inodes of 32 bytes behind it, and the data blocks from byte 320 on. A result \<open>None\<close> is a
  failed \<^verbatim>\<open>assert\<close> or undefined behaviour. \<open>ss_uninit\<close> is what a buffer of 64 bytes holds
  before anything is stored in it.
\<close>

definition BLOCKSIZE :: nat where "BLOCKSIZE = 64"
definition NUM_DATA_BLOCKS :: nat where "NUM_DATA_BLOCKS = 30"
definition NUM_INODES :: nat where "NUM_INODES = 8"
definition MAX_FILE_SIZE :: nat where "MAX_FILE_SIZE = 4"
definition MAX_OPEN_FILES :: nat where "MAX_OPEN_FILES = 20"
definition MAX_NAME_STRLEN :: nat where "MAX_NAME_STRLEN = 8"

text \<open>The characters \<^verbatim>\<open>'x'\<close> and \<^verbatim>\<open>'1'\<close>.\<close>

definition INODE_FREE :: "'a::len word" where "INODE_FREE = 120"
definition INODE_IN_USE :: "'a::len word" where "INODE_IN_USE = 49"
definition DATA_BLOCK_FREE :: byte where "DATA_BLOCK_FREE = 120"
definition DATA_BLOCK_USED :: byte where "DATA_BLOCK_USED = 49"

lemmas ssufs_consts = BLOCKSIZE_def NUM_DATA_BLOCKS_def NUM_INODES_def MAX_FILE_SIZE_def
  MAX_OPEN_FILES_def MAX_NAME_STRLEN_def

record superblock_t =
  sb_name :: bytes
  inode_freelist :: bytes
  datablock_freelist :: bytes

record inode_t =
  i_status :: u32
  i_name :: bytes
  i_file_size :: u32
  direct_blocks :: "u32 list"

record filehandle_t =
  fh_offset :: int
  fh_inode_number :: int

record ssufs =
  ss_disk :: bytes
  file_handle_array :: "filehandle_t list"
  ss_uninit :: bytes

section \<open>The structures as bytes\<close>

definition sb_bytes :: "superblock_t \<Rightarrow> bytes" where
  "sb_bytes sb = sb_name sb @ inode_freelist sb @ datablock_freelist sb"

definition sb_of :: "bytes \<Rightarrow> superblock_t" where
  "sb_of bs = \<lparr>sb_name = dread 0 8 bs, inode_freelist = dread 8 8 bs, datablock_freelist = dread 16 30 bs\<rparr>"

definition inode_bytes :: "inode_t \<Rightarrow> bytes" where
  "inode_bytes ip = le32 (i_status ip) @ i_name ip @ le32 (i_file_size ip) @ concat (map le32 (direct_blocks ip))"

definition inode_of :: "bytes \<Rightarrow> inode_t" where
  "inode_of bs = \<lparr>i_status = de32 (dread 0 4 bs), i_name = dread 4 8 bs, i_file_size = de32 (dread 12 4 bs),
     direct_blocks = map (\<lambda>k. de32 (dread (16 + 4 * k) 4 bs)) [0..<4]\<rparr>"

section \<open>The operations\<close>

definition ssufs_readSuperBlock :: "ssufs \<Rightarrow> superblock_t option" where
  "ssufs_readSuperBlock s =
     (let buf = dread 0 BLOCKSIZE (ss_disk s) in
      if length buf = BLOCKSIZE then Some (sb_of buf) else None)"

definition ssufs_writeSuperBlock :: "superblock_t \<Rightarrow> ssufs \<Rightarrow> ssufs" where
  "ssufs_writeSuperBlock sb s =
     s\<lparr>ss_disk := dwrite 0 (dwrite 0 (sb_bytes sb) (ss_uninit s)) (ss_disk s)\<rparr>"

text \<open>
  An inode number is a C int: a number below zero passes the \<^verbatim>\<open>assert\<close>. The offset is
  computed in 64 bits; one that is negative makes \<^verbatim>\<open>lseek\<close> fail, and the bytes then come from
  wherever the file position was, which is not modelled further.
\<close>

definition inode_pos :: "int \<Rightarrow> int" where
  "inode_pos inodenum = int BLOCKSIZE + inodenum * 32"

definition ssufs_readInode :: "int \<Rightarrow> ssufs \<Rightarrow> inode_t option" where
  "ssufs_readInode inodenum s =
     (if inodenum \<ge> int NUM_INODES \<or> inode_pos inodenum < 0 then None
      else let buf = dread (nat (inode_pos inodenum)) 32 (ss_disk s) in
        if length buf = 32 then Some (inode_of buf) else None)"

definition ssufs_writeInode :: "int \<Rightarrow> inode_t \<Rightarrow> ssufs \<Rightarrow> ssufs option" where
  "ssufs_writeInode inodenum ip s =
     (if inodenum \<ge> int NUM_INODES \<or> inode_pos inodenum < 0 then None
      else Some (s\<lparr>ss_disk := dwrite (nat (inode_pos inodenum)) (inode_bytes ip) (ss_disk s)\<rparr>))"

definition data_pos :: "int \<Rightarrow> int" where
  "data_pos blocknum = int BLOCKSIZE * (5 + blocknum)"

definition ssufs_readDataBlock :: "int \<Rightarrow> ssufs \<Rightarrow> bytes option" where
  "ssufs_readDataBlock blocknum s =
     (if blocknum \<ge> int NUM_DATA_BLOCKS \<or> data_pos blocknum < 0 then None
      else let buf = dread (nat (data_pos blocknum)) BLOCKSIZE (ss_disk s) in
        if length buf = BLOCKSIZE then Some buf else None)"

definition ssufs_writeDataBlock :: "int \<Rightarrow> bytes \<Rightarrow> ssufs \<Rightarrow> ssufs option" where
  "ssufs_writeDataBlock blocknum buf s =
     (if blocknum \<ge> int NUM_DATA_BLOCKS \<or> data_pos blocknum < 0 then None
      else Some (s\<lparr>ss_disk := dwrite (nat (data_pos blocknum)) (take BLOCKSIZE buf) (ss_disk s)\<rparr>))"

primrec write_inodes :: "nat \<Rightarrow> inode_t \<Rightarrow> ssufs \<Rightarrow> ssufs option" where
  "write_inodes 0 ip s = Some s"
| "write_inodes (Suc n) ip s = do { s1 \<leftarrow> write_inodes n ip s; ssufs_writeInode (int n) ip s1 }"

text \<open>Of the name of the inodes \<^verbatim>\<open>formatDisk\<close> sets only the first byte.\<close>

definition ssufs_formatDisk :: "ssufs \<Rightarrow> ssufs option" where
  "ssufs_formatDisk s =
     (let sb = \<lparr>sb_name = [115, 115, 117, 102, 115, 0] @ drop 6 (take 8 (ss_uninit s)),
                inode_freelist = replicate NUM_INODES INODE_FREE,
                datablock_freelist = replicate NUM_DATA_BLOCKS DATA_BLOCK_FREE\<rparr>;
          s1 = ssufs_writeSuperBlock sb (s\<lparr>ss_disk := []\<rparr>);
          ip = \<lparr>i_status = INODE_FREE, i_name = 0 # drop 1 (take 8 (ss_uninit s)), i_file_size = 0,
                direct_blocks = replicate MAX_FILE_SIZE (- 1)\<rparr>
      in do { s2 \<leftarrow> write_inodes NUM_INODES ip s1;
              Some (s2\<lparr>file_handle_array := replicate MAX_OPEN_FILES \<lparr>fh_offset = 0, fh_inode_number = - 1\<rparr>\<rparr>) })"

text \<open>
  \<^verbatim>\<open>strcmp(tmp->name, filename)\<close> reads the inode's bytes from the name on, past the name when it has
  no NUL.
\<close>

definition name_matches :: "inode_t \<Rightarrow> bytes \<Rightarrow> bool option" where
  "name_matches ip filename = strcmp_eq (drop 4 (inode_bytes ip)) (filename @ [0])"

primrec namei_loop :: "superblock_t \<Rightarrow> bytes \<Rightarrow> ssufs \<Rightarrow> nat list \<Rightarrow> int option" where
  "namei_loop sb filename s [] = Some (- 1)"
| "namei_loop sb filename s (i # is) =
     (if inode_freelist sb ! i = INODE_IN_USE then do {
        tmp \<leftarrow> ssufs_readInode (int i) s;
        eq \<leftarrow> name_matches tmp filename;
        if eq then Some (int i) else namei_loop sb filename s is }
      else namei_loop sb filename s is)"

definition open_namei :: "bytes \<Rightarrow> ssufs \<Rightarrow> int option" where
  "open_namei filename s =
     (if length filename > MAX_NAME_STRLEN then Some (- 1)
      else do { sb \<leftarrow> ssufs_readSuperBlock s; namei_loop sb filename s [0..<NUM_INODES] })"

definition ssufs_allocInode :: "ssufs \<Rightarrow> (int \<times> ssufs) option" where
  "ssufs_allocInode s = do {
     sb \<leftarrow> ssufs_readSuperBlock s;
     case first_idx (\<lambda>c. c = INODE_FREE) (inode_freelist sb) of
       Some i \<Rightarrow> Some (int i, ssufs_writeSuperBlock
         (sb\<lparr>inode_freelist := (inode_freelist sb)[i := INODE_IN_USE]\<rparr>) s)
     | None \<Rightarrow> Some (- 1, s) }"

definition ssufs_allocDataBlock :: "ssufs \<Rightarrow> (int \<times> ssufs) option" where
  "ssufs_allocDataBlock s = do {
     sb \<leftarrow> ssufs_readSuperBlock s;
     case first_idx (\<lambda>c. c = DATA_BLOCK_FREE) (datablock_freelist sb) of
       Some i \<Rightarrow> Some (int i, ssufs_writeSuperBlock
         (sb\<lparr>datablock_freelist := (datablock_freelist sb)[i := DATA_BLOCK_USED]\<rparr>) s)
     | None \<Rightarrow> Some (- 1, s) }"

definition ssufs_freeDataBlock :: "int \<Rightarrow> ssufs \<Rightarrow> ssufs option" where
  "ssufs_freeDataBlock blocknum s = do {
     sb \<leftarrow> ssufs_readSuperBlock s;
     if blocknum < 0 \<or> int NUM_DATA_BLOCKS \<le> blocknum then None
     else if datablock_freelist sb ! nat blocknum \<noteq> DATA_BLOCK_USED then None
     else Some (ssufs_writeSuperBlock
       (sb\<lparr>datablock_freelist := (datablock_freelist sb)[nat blocknum := DATA_BLOCK_FREE]\<rparr>) s) }"

text \<open>The loop of \<^verbatim>\<open>ssufs_freeInode\<close> over the block numbers, with the superblock in memory.\<close>

primrec free_blocks :: "u32 list \<Rightarrow> superblock_t \<Rightarrow> ssufs \<Rightarrow> (superblock_t \<times> ssufs) option" where
  "free_blocks [] sb s = Some (sb, s)"
| "free_blocks (b # bs) sb s =
     (if b \<noteq> - 1 then do {
        s1 \<leftarrow> ssufs_freeDataBlock (sint b) (ssufs_writeSuperBlock sb s);
        sb1 \<leftarrow> ssufs_readSuperBlock s1;
        free_blocks bs sb1 s1 }
      else free_blocks bs sb s)"

definition ssufs_freeInode :: "int \<Rightarrow> ssufs \<Rightarrow> ssufs option" where
  "ssufs_freeInode inodenum s = do {
     sb \<leftarrow> ssufs_readSuperBlock s;
     ip \<leftarrow> ssufs_readInode inodenum s;
     if inodenum < 0 \<or> inode_freelist sb ! nat inodenum \<noteq> INODE_IN_USE then None
     else do {
       let sb1 = sb\<lparr>inode_freelist := (inode_freelist sb)[nat inodenum := INODE_FREE]\<rparr>;
       (sb2, s2) \<leftarrow> free_blocks (direct_blocks ip) sb1 s;
       ssufs_writeInode inodenum
         (ip\<lparr>i_status := INODE_FREE, i_file_size := 0, direct_blocks := replicate MAX_FILE_SIZE (- 1)\<rparr>)
         (ssufs_writeSuperBlock sb2 s2) } }"

section \<open>Layout\<close>

definition sb_ok :: "superblock_t \<Rightarrow> bool" where
  "sb_ok sb \<longleftrightarrow> length (sb_name sb) = 8 \<and> length (inode_freelist sb) = 8 \<and> length (datablock_freelist sb) = 30"

definition inode_ok :: "inode_t \<Rightarrow> bool" where
  "inode_ok ip \<longleftrightarrow> length (i_name ip) = 8 \<and> length (direct_blocks ip) = 4"

text \<open>A disk that holds the superblock and all inodes.\<close>

definition disk_ok :: "ssufs \<Rightarrow> bool" where
  "disk_ok s \<longleftrightarrow> 320 \<le> length (ss_disk s) \<and> length (ss_uninit s) = 64 \<and>
     length (file_handle_array s) = MAX_OPEN_FILES"

lemma sb_of_bytes: "sb_ok sb \<Longrightarrow> sb_of (dwrite 0 (sb_bytes sb) u) = sb"
  by (simp add: sb_of_def sb_ok_def sb_bytes_def dread_def dwrite_def)

lemma length_sb_bytes: "sb_ok sb \<Longrightarrow> length (sb_bytes sb) = 46"
  by (simp add: sb_ok_def sb_bytes_def)

lemma sb_of_ok: "46 \<le> length bs \<Longrightarrow> sb_ok (sb_of bs)"
  by (simp add: sb_of_def sb_ok_def length_dread)

lemma length_inode_bytes: "inode_ok ip \<Longrightarrow> length (inode_bytes ip) = 32"
  by (simp add: inode_ok_def inode_bytes_def length_concat comp_def sum_list_triv)

lemma inode_of_ok: "32 \<le> length bs \<Longrightarrow> inode_ok (inode_of bs)"
  by (simp add: inode_of_def inode_ok_def length_dread)

lemma inode_of_bytes: "inode_ok ip \<Longrightarrow> inode_of (inode_bytes ip) = ip"
proof -
  assume ok: "inode_ok ip"
  then obtain a b c d where db: "direct_blocks ip = [a, b, c, d]"
    by (auto simp: inode_ok_def length_Suc_conv numeral_eq_Suc)
  have "[0..<4] = [0, 1, 2, 3 :: nat]" by (simp add: upt_rec)
  with ok db show ?thesis by (simp add: inode_of_def inode_bytes_def inode_ok_def dread_def)
qed

text \<open>The superblock, an inode and a data block as the disk holds them.\<close>

definition SB :: "ssufs \<Rightarrow> superblock_t" where "SB s = sb_of (dread 0 64 (ss_disk s))"

definition INODE :: "ssufs \<Rightarrow> nat \<Rightarrow> inode_t" where
  "INODE s i = inode_of (dread (64 + 32 * i) 32 (ss_disk s))"

definition DATA :: "ssufs \<Rightarrow> nat \<Rightarrow> bytes" where "DATA s b = dread (64 * (5 + b)) 64 (ss_disk s)"

definition has_data :: "ssufs \<Rightarrow> nat \<Rightarrow> bool" where "has_data s b \<longleftrightarrow> 64 * (6 + b) \<le> length (ss_disk s)"

lemma SB_ok [simp]: "disk_ok s \<Longrightarrow> sb_ok (SB s)"
  by (simp add: SB_def disk_ok_def sb_of_ok length_dread)

lemma INODE_ok [simp]: "disk_ok s \<Longrightarrow> i < 8 \<Longrightarrow> inode_ok (INODE s i)"
  by (simp add: INODE_def disk_ok_def inode_of_ok length_dread)

lemma readSuperBlock [simp]: "disk_ok s \<Longrightarrow> ssufs_readSuperBlock s = Some (SB s)"
  by (simp add: ssufs_readSuperBlock_def SB_def disk_ok_def length_dread BLOCKSIZE_def Let_def)

lemma readInode [simp]: "disk_ok s \<Longrightarrow> i < 8 \<Longrightarrow> ssufs_readInode (int i) s = Some (INODE s i)"
  by (simp add: ssufs_readInode_def INODE_def disk_ok_def length_dread BLOCKSIZE_def inode_pos_def
      NUM_INODES_def Let_def nat_add_distrib nat_mult_distrib mult.commute)

lemma readDataBlock [simp]:
  "has_data s b \<Longrightarrow> b < 30 \<Longrightarrow> ssufs_readDataBlock (int b) s = Some (DATA s b)"
  by (simp add: ssufs_readDataBlock_def DATA_def has_data_def length_dread BLOCKSIZE_def data_pos_def
      NUM_DATA_BLOCKS_def Let_def nat_mult_distrib nat_add_distrib)

definition put_inode :: "nat \<Rightarrow> inode_t \<Rightarrow> ssufs \<Rightarrow> ssufs" where
  "put_inode i ip s = s\<lparr>ss_disk := dwrite (64 + 32 * i) (inode_bytes ip) (ss_disk s)\<rparr>"

definition put_data :: "nat \<Rightarrow> bytes \<Rightarrow> ssufs \<Rightarrow> ssufs" where
  "put_data b buf s = s\<lparr>ss_disk := dwrite (64 * (5 + b)) buf (ss_disk s)\<rparr>"

lemma writeInode [simp]: "i < 8 \<Longrightarrow> ssufs_writeInode (int i) ip s = Some (put_inode i ip s)"
  by (simp add: ssufs_writeInode_def put_inode_def BLOCKSIZE_def inode_pos_def
      NUM_INODES_def nat_add_distrib nat_mult_distrib mult.commute)

lemma writeDataBlock [simp]:
  "b < 30 \<Longrightarrow> length buf = 64 \<Longrightarrow> ssufs_writeDataBlock (int b) buf s = Some (put_data b buf s)"
  by (simp add: ssufs_writeDataBlock_def put_data_def BLOCKSIZE_def data_pos_def
      NUM_DATA_BLOCKS_def nat_add_distrib nat_mult_distrib)

text \<open>What each write leaves of the other parts of the disk.\<close>

lemma writeSuperBlock_keeps [simp]:
  assumes "disk_ok s" "sb_ok sb"
  shows "SB (ssufs_writeSuperBlock sb s) = sb" "disk_ok (ssufs_writeSuperBlock sb s)"
    "i < 8 \<Longrightarrow> INODE (ssufs_writeSuperBlock sb s) i = INODE s i"
    "has_data (ssufs_writeSuperBlock sb s) b = has_data s b"
    "has_data s b \<Longrightarrow> DATA (ssufs_writeSuperBlock sb s) b = DATA s b"
    "file_handle_array (ssufs_writeSuperBlock sb s) = file_handle_array s"
    "ss_uninit (ssufs_writeSuperBlock sb s) = ss_uninit s"
proof -
  let ?b = "dwrite 0 (sb_bytes sb) (ss_uninit s)"
  have len: "length ?b = 64" using assms by (simp add: disk_ok_def length_sb_bytes)
  show "SB (ssufs_writeSuperBlock sb s) = sb"
    using len assms(2) by (simp add: SB_def ssufs_writeSuperBlock_def dread_dwrite_same sb_of_bytes)
  show "disk_ok (ssufs_writeSuperBlock sb s)" "has_data (ssufs_writeSuperBlock sb s) b = has_data s b"
    using len assms by (auto simp: ssufs_writeSuperBlock_def disk_ok_def has_data_def)
  show "INODE (ssufs_writeSuperBlock sb s) i = INODE s i" if "i < 8"
    using len assms(1) that by (simp add: ssufs_writeSuperBlock_def INODE_def disk_ok_def dread_dwrite_other)
  show "DATA (ssufs_writeSuperBlock sb s) b = DATA s b" if "has_data s b"
    using len assms(1) that by (simp add: ssufs_writeSuperBlock_def DATA_def has_data_def dread_dwrite_other)
qed (simp_all add: ssufs_writeSuperBlock_def)

lemma put_inode_keeps [simp]:
  assumes "disk_ok s" "inode_ok ip" "i < 8"
  shows "SB (put_inode i ip s) = SB s" "disk_ok (put_inode i ip s)"
    "j < 8 \<Longrightarrow> INODE (put_inode i ip s) j = (if j = i then ip else INODE s j)"
    "has_data (put_inode i ip s) b = has_data s b" "has_data s b \<Longrightarrow> DATA (put_inode i ip s) b = DATA s b"
    "file_handle_array (put_inode i ip s) = file_handle_array s" "ss_uninit (put_inode i ip s) = ss_uninit s"
proof -
  have len: "length (inode_bytes ip) = 32" using assms(2) by (rule length_inode_bytes)
  show "SB (put_inode i ip s) = SB s"
    using assms(1) by (simp add: SB_def put_inode_def disk_ok_def dread_dwrite_other)
  show "disk_ok (put_inode i ip s)" "has_data (put_inode i ip s) b = has_data s b"
    using len assms by (auto simp: put_inode_def disk_ok_def has_data_def)
  show "INODE (put_inode i ip s) j = (if j = i then ip else INODE s j)" if "j < 8"
  proof (cases "j = i")
    case True
    with len assms(2) show ?thesis by (simp add: INODE_def put_inode_def dread_dwrite_same inode_of_bytes)
  next
    case False
    then have "64 + 32 * j + 32 \<le> 64 + 32 * i \<or> 64 + 32 * i + 32 \<le> 64 + 32 * j" by arith
    with len False that assms(1) show ?thesis
      by (simp add: INODE_def put_inode_def disk_ok_def dread_dwrite_other)
  qed
  show "DATA (put_inode i ip s) b = DATA s b" if "has_data s b"
    using len assms(1,3) that by (simp add: put_inode_def DATA_def has_data_def dread_dwrite_other)
qed (simp_all add: put_inode_def)

lemma put_data_keeps [simp]:
  assumes "disk_ok s" "length buf = 64"
  shows "SB (put_data b buf s) = SB s" "disk_ok (put_data b buf s)"
    "j < 8 \<Longrightarrow> INODE (put_data b buf s) j = INODE s j"
    "has_data (put_data b buf s) c = (has_data s c \<or> c \<le> b)"
    "DATA (put_data b buf s) b = buf"
    "has_data s c \<Longrightarrow> c \<noteq> b \<Longrightarrow> DATA (put_data b buf s) c = DATA s c"
    "file_handle_array (put_data b buf s) = file_handle_array s" "ss_uninit (put_data b buf s) = ss_uninit s"
proof -
  show "SB (put_data b buf s) = SB s"
    using assms by (simp add: SB_def put_data_def disk_ok_def dread_dwrite_other)
  show "disk_ok (put_data b buf s)" "has_data (put_data b buf s) c = (has_data s c \<or> c \<le> b)"
    using assms by (auto simp: put_data_def disk_ok_def has_data_def)
  show "INODE (put_data b buf s) j = INODE s j" if "j < 8"
    using assms that by (simp add: INODE_def put_data_def disk_ok_def dread_dwrite_other)
  show "DATA (put_data b buf s) b = buf"
    using assms by (simp add: DATA_def put_data_def dread_dwrite_same)
  show "DATA (put_data b buf s) c = DATA s c" if "has_data s c" "c \<noteq> b"
  proof -
    have "64 * (5 + c) + 64 \<le> 64 * (5 + b) \<or> 64 * (5 + b) + 64 \<le> 64 * (5 + c)" using that(2)
      by (cases c b rule: linorder_cases) auto
    with assms that(1) show ?thesis by (simp add: DATA_def put_data_def has_data_def dread_dwrite_other)
  qed
qed (simp_all add: put_data_def)

section \<open>Formatting\<close>

definition fresh_inode :: "ssufs \<Rightarrow> inode_t" where
  "fresh_inode s = \<lparr>i_status = INODE_FREE, i_name = 0 # drop 1 (take 8 (ss_uninit s)), i_file_size = 0,
     direct_blocks = replicate MAX_FILE_SIZE (- 1)\<rparr>"

lemma write_inodes_layout:
  assumes "length (ss_disk s) = 64" "inode_ok ip" "n \<le> 8"
  shows "\<exists>s'. write_inodes n ip s = Some s' \<and> length (ss_disk s') = 64 + 32 * n \<and>
    ss_uninit s' = ss_uninit s \<and> dread 0 64 (ss_disk s') = dread 0 64 (ss_disk s) \<and>
    (\<forall>j<n. INODE s' j = ip)"
  using assms(3)
proof (induction n)
  case 0
  with assms show ?case by simp
next
  case (Suc n)
  then obtain s' where s': "write_inodes n ip s = Some s'" "length (ss_disk s') = 64 + 32 * n"
    "ss_uninit s' = ss_uninit s" "dread 0 64 (ss_disk s') = dread 0 64 (ss_disk s)" "\<forall>j<n. INODE s' j = ip"
    by auto
  have len: "length (inode_bytes ip) = 32" using assms(2) by (rule length_inode_bytes)
  have "write_inodes (Suc n) ip s = Some (put_inode n ip s')" using s'(1) Suc.prems by simp
  moreover have "INODE (put_inode n ip s') j = ip" if "j < Suc n" for j
  proof (cases "j = n")
    case True
    with len assms(2) show ?thesis by (simp add: INODE_def put_inode_def dread_dwrite_same inode_of_bytes)
  next
    case False
    with that have "j < n" by simp
    then have "INODE (put_inode n ip s') j = INODE s' j"
      using s'(2) len by (simp add: INODE_def put_inode_def dread_dwrite_other)
    with s'(5) \<open>j < n\<close> show ?thesis by simp
  qed
  ultimately show ?case using s' len by (simp add: put_inode_def dread_dwrite_other)
qed

lemma formatDisk_layout:
  assumes "length (ss_uninit s) = 64"
  shows "\<exists>s'. ssufs_formatDisk s = Some s' \<and> disk_ok s' \<and> (\<forall>i<8. INODE s' i = fresh_inode s) \<and>
    inode_freelist (SB s') = replicate 8 INODE_FREE \<and> datablock_freelist (SB s') = replicate 30 DATA_BLOCK_FREE \<and>
    (\<forall>f\<in>set (file_handle_array s'). fh_inode_number f = - 1)"
proof -
  define sb where "sb = \<lparr>sb_name = [115, 115, 117, 102, 115, 0] @ drop 6 (take 8 (ss_uninit s)),
    inode_freelist = replicate NUM_INODES INODE_FREE,
    datablock_freelist = replicate NUM_DATA_BLOCKS DATA_BLOCK_FREE\<rparr>"
  let ?s1 = "ssufs_writeSuperBlock sb (s\<lparr>ss_disk := []\<rparr>)"
  have sb: "sb_ok sb" using assms by (simp add: sb_ok_def sb_def ssufs_consts)
  have len: "length (dwrite 0 (sb_bytes sb) (ss_uninit s)) = 64" using assms sb by (simp add: length_sb_bytes)
  have ip: "inode_ok (fresh_inode s)" using assms by (simp add: inode_ok_def fresh_inode_def ssufs_consts)
  have "length (ss_disk ?s1) = 64" using len by (simp add: ssufs_writeSuperBlock_def)
  from write_inodes_layout [OF this ip order.refl] obtain s2 where s2:
    "write_inodes 8 (fresh_inode s) ?s1 = Some s2" "length (ss_disk s2) = 320" "ss_uninit s2 = ss_uninit ?s1"
    "dread 0 64 (ss_disk s2) = dread 0 64 (ss_disk ?s1)" "\<forall>j<8. INODE s2 j = fresh_inode s" by auto
  have "SB s2 = sb" using s2(4) len sb
    by (simp add: SB_def ssufs_writeSuperBlock_def dread_dwrite_same sb_of_bytes)
  moreover define s3 where "s3 = s2\<lparr>file_handle_array := replicate MAX_OPEN_FILES \<lparr>fh_offset = 0, fh_inode_number = - 1\<rparr>\<rparr>"
  ultimately have "SB s3 = sb" "\<forall>j<8. INODE s3 j = fresh_inode s" using s2(5) by (simp_all add: SB_def INODE_def)
  moreover have "disk_ok s3" using s2 assms by (simp add: s3_def disk_ok_def ssufs_writeSuperBlock_def)
  moreover have "ssufs_formatDisk s = Some s3"
    using s2(1) by (simp add: ssufs_formatDisk_def Let_def sb_def fresh_inode_def NUM_INODES_def s3_def)
  ultimately show ?thesis by (auto simp: sb_def ssufs_consts s3_def)
qed

section \<open>The free lists as tables of slots\<close>

definition inode_busy :: "ssufs \<Rightarrow> nat \<Rightarrow> bool" where
  "inode_busy s i \<longleftrightarrow> inode_freelist (SB s) ! i \<noteq> INODE_FREE"

definition block_busy :: "ssufs \<Rightarrow> nat \<Rightarrow> bool" where
  "block_busy s b \<longleftrightarrow> datablock_freelist (SB s) ! b \<noteq> DATA_BLOCK_FREE"

definition lists_ok :: "ssufs \<Rightarrow> bool" where
  "lists_ok s \<longleftrightarrow> disk_ok s \<and> set (inode_freelist (SB s)) \<subseteq> {INODE_FREE, INODE_IN_USE} \<and>
     set (datablock_freelist (SB s)) \<subseteq> {DATA_BLOCK_FREE, DATA_BLOCK_USED}"

text \<open>A claim is an allocation that does not return -1.\<close>

definition claimed :: "(int \<times> ssufs) option \<Rightarrow> (nat \<times> ssufs) option" where
  "claimed r = (case r of None \<Rightarrow> None | Some (i, s) \<Rightarrow> if i = - 1 then None else Some (nat i, s))"

lemma free_used_neq [simp]:
  "(INODE_IN_USE :: byte) \<noteq> INODE_FREE" "(INODE_IN_USE :: u32) \<noteq> INODE_FREE" "DATA_BLOCK_USED \<noteq> DATA_BLOCK_FREE"
  by (simp_all add: INODE_FREE_def INODE_IN_USE_def DATA_BLOCK_FREE_def DATA_BLOCK_USED_def)

lemma sb_lengths: "disk_ok s \<Longrightarrow> length (inode_freelist (SB s)) = 8" "disk_ok s \<Longrightarrow> length (datablock_freelist (SB s)) = 30"
  using SB_ok [of s] by (simp_all add: sb_ok_def)

definition set_inode_used :: "nat \<Rightarrow> ssufs \<Rightarrow> ssufs" where
  "set_inode_used i s = ssufs_writeSuperBlock
     ((SB s)\<lparr>inode_freelist := (inode_freelist (SB s))[i := INODE_IN_USE]\<rparr>) s"

definition set_block :: "nat \<Rightarrow> byte \<Rightarrow> ssufs \<Rightarrow> ssufs" where
  "set_block b c s = ssufs_writeSuperBlock
     ((SB s)\<lparr>datablock_freelist := (datablock_freelist (SB s))[b := c]\<rparr>) s"

lemma sb_ok_upd: "disk_ok s \<Longrightarrow> sb_ok ((SB s)\<lparr>inode_freelist := (inode_freelist (SB s))[i := c]\<rparr>)"
  "disk_ok s \<Longrightarrow> sb_ok ((SB s)\<lparr>datablock_freelist := (datablock_freelist (SB s))[i := c]\<rparr>)"
  using SB_ok [of s] by (simp_all add: sb_ok_def)

lemma allocInode_eq:
  "disk_ok s \<Longrightarrow> ssufs_allocInode s = (case first_idx (\<lambda>c. c = INODE_FREE) (inode_freelist (SB s)) of
     Some i \<Rightarrow> Some (int i, set_inode_used i s) | None \<Rightarrow> Some (- 1, s))"
  by (simp add: ssufs_allocInode_def set_inode_used_def split: option.split)

lemma allocDataBlock_eq:
  "disk_ok s \<Longrightarrow> ssufs_allocDataBlock s = (case first_idx (\<lambda>c. c = DATA_BLOCK_FREE) (datablock_freelist (SB s)) of
     Some i \<Rightarrow> Some (int i, set_block i DATA_BLOCK_USED s) | None \<Rightarrow> Some (- 1, s))"
  by (simp add: ssufs_allocDataBlock_def set_block_def split: option.split)

lemma set_inode_used_SB:
  "disk_ok s \<Longrightarrow> SB (set_inode_used i s) = (SB s)\<lparr>inode_freelist := (inode_freelist (SB s))[i := INODE_IN_USE]\<rparr>"
  by (simp add: set_inode_used_def sb_ok_upd)

lemma set_block_SB:
  "disk_ok s \<Longrightarrow> SB (set_block b c s) = (SB s)\<lparr>datablock_freelist := (datablock_freelist (SB s))[b := c]\<rparr>"
  by (simp add: set_block_def sb_ok_upd)

lemma set_inode_used_ok: "lists_ok s \<Longrightarrow> lists_ok (set_inode_used i s)"
  using set_update_subset_insert [of "inode_freelist (SB s)" i INODE_IN_USE]
  by (auto simp: lists_ok_def set_inode_used_SB) (simp add: set_inode_used_def sb_ok_upd)

lemma set_block_ok: "lists_ok s \<Longrightarrow> c \<in> {DATA_BLOCK_FREE, DATA_BLOCK_USED} \<Longrightarrow> lists_ok (set_block b c s)"
  using set_update_subset_insert [of "datablock_freelist (SB s)" b c]
  by (auto simp: lists_ok_def set_block_SB) (simp_all add: set_block_def sb_ok_upd)

interpretation inode_table: slot_table "\<lambda>s. 8" inode_busy "\<lambda>s. claimed (ssufs_allocInode s)" lists_ok
proof unfold_locales
  fix s i s'
  assume ok: "lists_ok s" and c: "claimed (ssufs_allocInode s) = Some (i, s')"
  then have d: "disk_ok s" by (simp add: lists_ok_def)
  with c have f: "first_idx (\<lambda>c. c = INODE_FREE) (inode_freelist (SB s)) = Some i" "s' = set_inode_used i s"
    by (auto simp: claimed_def allocInode_eq split: option.splits if_splits)
  from first_idx_SomeD [OF f(1)] d f(2) ok
  show "i < 8 \<and> \<not> inode_busy s i \<and> (\<forall>j<i. inode_busy s j) \<and> lists_ok s' \<and> 8 = 8 \<and>
      (\<forall>j<8. inode_busy s' j \<longleftrightarrow> inode_busy s j \<or> j = i)"
    by (auto simp: inode_busy_def sb_lengths set_inode_used_SB nth_list_update intro: set_inode_used_ok)
next
  fix s assume "lists_ok s"
  then have d: "disk_ok s" by (simp add: lists_ok_def)
  then have "claimed (ssufs_allocInode s) = None \<longleftrightarrow>
      first_idx (\<lambda>c. c = INODE_FREE) (inode_freelist (SB s)) = None"
    by (auto simp: claimed_def allocInode_eq split: option.splits)
  with sb_lengths(1) [OF d] show "claimed (ssufs_allocInode s) = None \<longleftrightarrow> (\<forall>i<8. inode_busy s i)"
    by (auto simp: first_idx_None inode_busy_def in_set_conv_nth)
qed

interpretation block_table: freeable_slot_table "\<lambda>s. 30" block_busy "\<lambda>s. claimed (ssufs_allocDataBlock s)" lists_ok
  "\<lambda>b s. the (ssufs_freeDataBlock (int b) s)"
proof unfold_locales
  fix s i s'
  assume ok: "lists_ok s" and c: "claimed (ssufs_allocDataBlock s) = Some (i, s')"
  then have d: "disk_ok s" by (simp add: lists_ok_def)
  with c have f: "first_idx (\<lambda>c. c = DATA_BLOCK_FREE) (datablock_freelist (SB s)) = Some i"
    "s' = set_block i DATA_BLOCK_USED s"
    by (auto simp: claimed_def allocDataBlock_eq split: option.splits if_splits)
  from first_idx_SomeD [OF f(1)] d f(2) ok
  show "i < 30 \<and> \<not> block_busy s i \<and> (\<forall>j<i. block_busy s j) \<and> lists_ok s' \<and> 30 = 30 \<and>
      (\<forall>j<30. block_busy s' j \<longleftrightarrow> block_busy s j \<or> j = i)"
    by (auto simp: block_busy_def sb_lengths set_block_SB nth_list_update intro: set_block_ok)
next
  fix s assume "lists_ok s"
  then have d: "disk_ok s" by (simp add: lists_ok_def)
  then have "claimed (ssufs_allocDataBlock s) = None \<longleftrightarrow>
      first_idx (\<lambda>c. c = DATA_BLOCK_FREE) (datablock_freelist (SB s)) = None"
    by (auto simp: claimed_def allocDataBlock_eq split: option.splits)
  with sb_lengths(2) [OF d] show "claimed (ssufs_allocDataBlock s) = None \<longleftrightarrow> (\<forall>i<30. block_busy s i)"
    by (auto simp: first_idx_None block_busy_def in_set_conv_nth)
next
  fix s i
  assume ok: "lists_ok s" and i: "i < 30" and b: "block_busy s i"
  then have d: "disk_ok s" by (simp add: lists_ok_def)
  have "datablock_freelist (SB s) ! i \<in> set (datablock_freelist (SB s))" using i d by (simp add: sb_lengths)
  with b ok have "datablock_freelist (SB s) ! i = DATA_BLOCK_USED" by (auto simp: lists_ok_def block_busy_def)
  with i d have "ssufs_freeDataBlock (int i) s = Some (set_block i DATA_BLOCK_FREE s)"
    by (simp add: ssufs_freeDataBlock_def set_block_def NUM_DATA_BLOCKS_def)
  with ok i d show "lists_ok (the (ssufs_freeDataBlock (int i) s)) \<and> 30 = 30 \<and>
      (\<forall>j<30. block_busy (the (ssufs_freeDataBlock (int i) s)) j \<longleftrightarrow> block_busy s j \<and> j \<noteq> i)"
    by (auto simp: block_busy_def sb_lengths set_block_SB nth_list_update intro: set_block_ok)
qed

end
