(* ===== verification/Ssufs_Ops.thy ===== *)
theory Ssufs_Ops
  imports Ssufs_Disk
begin

text \<open>
  The file operations of the teaching file system, \<^verbatim>\<open>hw6/ssufs_q/ssufs-ops.c\<close>. File handles
  are indices into the table of the state; one outside the table is undefined behaviour.
\<close>

definition handle :: "int \<Rightarrow> ssufs \<Rightarrow> filehandle_t option" where
  "handle h s = (if 0 \<le> h \<and> h < int (length (file_handle_array s))
     then Some (file_handle_array s ! nat h) else None)"

definition set_handle :: "int \<Rightarrow> filehandle_t \<Rightarrow> ssufs \<Rightarrow> ssufs" where
  "set_handle h f s = s\<lparr>file_handle_array := (file_handle_array s)[nat h := f]\<rparr>"

definition ssufs_allocFileHandle :: "ssufs \<Rightarrow> int" where
  "ssufs_allocFileHandle s =
     (case first_idx (\<lambda>f. fh_inode_number f = - 1) (file_handle_array s) of
        Some i \<Rightarrow> int i | None \<Rightarrow> - 1)"

text \<open>\<^verbatim>\<open>strcpy(inode->name, filename)\<close> inside the 32 bytes of the inode.\<close>

definition strcpy_name :: "inode_t \<Rightarrow> bytes \<Rightarrow> inode_t option" where
  "strcpy_name ip filename =
     (if 28 \<le> length filename then None
      else Some (inode_of (dwrite 4 (filename @ [0]) (inode_bytes ip))))"

definition ssufs_create :: "bytes \<Rightarrow> ssufs \<Rightarrow> (int \<times> ssufs) option" where
  "ssufs_create filename s = do {
     n \<leftarrow> open_namei filename s;
     if n \<noteq> - 1 then Some (- 1, s)
     else do {
       (i_num, s1) \<leftarrow> ssufs_allocInode s;
       if i_num = - 1 then Some (- 1, s1)
       else do {
         ip \<leftarrow> ssufs_readInode i_num s1;
         ip1 \<leftarrow> strcpy_name (ip\<lparr>i_status := INODE_IN_USE\<rparr>) filename;
         s2 \<leftarrow> ssufs_writeInode i_num ip1 s1;
         Some (i_num, s2) } } }"

text \<open>
  The loop of \<^verbatim>\<open>ssufs_delete\<close>: \<^verbatim>\<open>sizeof(buf)\<close> is the size of a pointer, 8 bytes.
\<close>

primrec wipe_blocks :: "u32 list \<Rightarrow> ssufs \<Rightarrow> ssufs option" where
  "wipe_blocks [] s = Some s"
| "wipe_blocks (b # bs) s =
     (if b \<noteq> - 1 then do {
        buf \<leftarrow> ssufs_readDataBlock (sint b) s;
        s1 \<leftarrow> ssufs_writeDataBlock (sint b) (replicate 8 0 @ drop 8 buf) s;
        wipe_blocks bs s1 }
      else wipe_blocks bs s)"

definition ssufs_delete :: "bytes \<Rightarrow> ssufs \<Rightarrow> ssufs option" where
  "ssufs_delete filename s = do {
     f_inode \<leftarrow> open_namei filename s;
     if f_inode = - 1 then Some s
     else do {
       tmp \<leftarrow> ssufs_readInode f_inode s;
       s1 \<leftarrow> wipe_blocks (direct_blocks tmp) s;
       ssufs_freeInode f_inode s1 } }"

definition ssufs_open :: "bytes \<Rightarrow> ssufs \<Rightarrow> (int \<times> ssufs) option" where
  "ssufs_open filename s = do {
     i_num \<leftarrow> open_namei filename s;
     let handler_num = ssufs_allocFileHandle s;
     if i_num = - 1 \<or> handler_num = - 1 then Some (- 1, s)
     else Some (handler_num, set_handle handler_num \<lparr>fh_offset = 0, fh_inode_number = i_num\<rparr> s) }"

definition ssufs_close :: "int \<Rightarrow> ssufs \<Rightarrow> ssufs option" where
  "ssufs_close file_handle s = do {
     _ \<leftarrow> handle file_handle s;
     Some (set_handle file_handle \<lparr>fh_offset = 0, fh_inode_number = - 1\<rparr> s) }"

definition ssufs_lseek :: "int \<Rightarrow> int \<Rightarrow> ssufs \<Rightarrow> (int \<times> ssufs) option" where
  "ssufs_lseek file_handle nseek s = do {
     f \<leftarrow> handle file_handle s;
     tmp \<leftarrow> ssufs_readInode (fh_inode_number f) s;
     let fsize = sint (i_file_size tmp);
     let offset = fh_offset f + nseek;
     if fsize = - 1 \<or> offset < 0 \<or> offset > fsize then Some (- 1, s)
     else Some (0, set_handle file_handle (f\<lparr>fh_offset := offset\<rparr>) s) }"

section \<open>Reading\<close>

text \<open>
  The \<^verbatim>\<open>while\<close> loop: bytes of the block from \<open>off\<close> on are appended to the caller's buffer,
  here \<open>out\<close>, until it holds \<open>nbytes\<close> of them (then the flag is set) or the block ends.
\<close>

function read_inner :: "bytes \<Rightarrow> nat \<Rightarrow> bytes \<Rightarrow> int \<Rightarrow> bytes \<times> bool" where
  "read_inner tmp_buf off out nbytes =
     (if off < BLOCKSIZE then
        let out1 = out @ [tmp_buf ! off] in
        if int (length out1) = nbytes then (out1, True) else read_inner tmp_buf (Suc off) out1 nbytes
      else (out, False))"
  by pat_completeness auto
termination
  by (relation "measure (\<lambda>(t, off, out, n). BLOCKSIZE - off)") auto

declare read_inner.simps [simp del]

primrec read_loop :: "int \<Rightarrow> int \<Rightarrow> ssufs \<Rightarrow> u32 list \<Rightarrow> int \<Rightarrow> bytes \<Rightarrow> (int \<times> bytes \<times> ssufs) option" where
  "read_loop file_handle nbytes s [] f_offset out = Some (- 1, out, s)"
| "read_loop file_handle nbytes s (b # bs) f_offset out =
     (if 0 \<le> f_offset \<and> f_offset < int BLOCKSIZE \<and> b \<noteq> - 1 then do {
        tmp_buf \<leftarrow> ssufs_readDataBlock (sint b) s;
        let (out1, fin) = read_inner tmp_buf (nat f_offset) out nbytes;
        if fin then do { (_, s1) \<leftarrow> ssufs_lseek file_handle nbytes s; Some (0, out1, s1) }
        else read_loop file_handle nbytes s bs 0 out1 }
      else read_loop file_handle nbytes s bs (if f_offset \<noteq> 0 then f_offset - int BLOCKSIZE else f_offset) out)"

definition ssufs_read :: "int \<Rightarrow> int \<Rightarrow> ssufs \<Rightarrow> (int \<times> bytes \<times> ssufs) option" where
  "ssufs_read file_handle nbytes s = do {
     f \<leftarrow> handle file_handle s;
     tmp \<leftarrow> ssufs_readInode (fh_inode_number f) s;
     if fh_offset f + nbytes > sint (i_file_size tmp) then Some (- 1, [], s)
     else read_loop file_handle nbytes s (direct_blocks tmp) (fh_offset f) [] }"

section \<open>Writing\<close>

text \<open>The variables of \<^verbatim>\<open>ssufs_write\<close> that its outer loop changes.\<close>

record wr =
  w_inode :: inode_t
  w_tmp_buf :: bytes
  w_rollback :: bytes
  w_rollback_index :: int
  w_isUsed :: "int list"
  w_off :: int
  w_curr :: nat
  w_fs :: ssufs

text \<open>The inner loop; the flag tells that \<open>nbytes\<close> bytes have been taken from the caller's buffer.\<close>

function write_inner :: "bytes \<Rightarrow> int \<Rightarrow> bytes \<Rightarrow> nat \<Rightarrow> nat \<Rightarrow> (bytes \<times> nat \<times> bool) option" where
  "write_inner buf nbytes tmp_buf off cur =
     (if off < BLOCKSIZE then
        if length buf \<le> cur then None
        else let tmp1 = tmp_buf[off := buf ! cur] in
          if int (Suc cur) = nbytes then Some (tmp1, Suc cur, True)
          else write_inner buf nbytes tmp1 (Suc off) (Suc cur)
      else Some (tmp_buf, cur, False))"
  by pat_completeness auto
termination
  by (relation "measure (\<lambda>(b, n, t, off, c). BLOCKSIZE - off)") auto

declare write_inner.simps [simp del]

text \<open>Undoing a write for which no block was left.\<close>

primrec rollback_loop :: "nat list \<Rightarrow> wr \<Rightarrow> ssufs option" where
  "rollback_loop [] w = Some (w_fs w)"
| "rollback_loop (j # js) w =
     (if w_isUsed w ! j = 1 then
        let b = sint (direct_blocks (w_inode w) ! j) in
        if int j = w_rollback_index w then do {
          s1 \<leftarrow> ssufs_writeDataBlock b (w_rollback w) (w_fs w);
          rollback_loop js (w\<lparr>w_fs := s1\<rparr>) }
        else do {
          s1 \<leftarrow> ssufs_writeDataBlock b (w_tmp_buf w) (w_fs w);
          s2 \<leftarrow> ssufs_freeDataBlock b s1;
          rollback_loop js (w\<lparr>w_fs := s2\<rparr>) }
      else rollback_loop js w)"

definition c_strcpy :: "bytes \<Rightarrow> bytes \<Rightarrow> bytes option" where
  "c_strcpy dst src = (case first_idx (\<lambda>c. c = 0) src of None \<Rightarrow> None
     | Some n \<Rightarrow> Some (take (Suc n) src @ drop (Suc n) dst))"

text \<open>The block for index \<open>i\<close>: the one the inode has, or a new one; \<open>None\<close> inside when there is none.\<close>

definition block_for :: "nat \<Rightarrow> wr \<Rightarrow> wr option option" where
  "block_for i w =
     (if direct_blocks (w_inode w) ! i = - 1 then do {
        (b, s1) \<leftarrow> ssufs_allocDataBlock (w_fs w);
        let w1 = w\<lparr>w_inode := (w_inode w)\<lparr>direct_blocks := (direct_blocks (w_inode w))[i := word_of_int b]\<rparr>,
                   w_fs := s1\<rparr>;
        Some (if b = - 1 then None else Some w1) }
      else Some (Some w))"

definition save_block :: "nat \<Rightarrow> wr \<Rightarrow> wr option" where
  "save_block i w =
     (if w_off w \<noteq> 0 then do {
        tmp_buf \<leftarrow> ssufs_readDataBlock (sint (direct_blocks (w_inode w) ! i)) (w_fs w);
        rb \<leftarrow> c_strcpy (w_rollback w) tmp_buf;
        Some (w\<lparr>w_tmp_buf := tmp_buf, w_rollback := rb, w_rollback_index := int i\<rparr>) }
      else Some w)"

primrec write_loop :: "int \<Rightarrow> int \<Rightarrow> bytes \<Rightarrow> int \<Rightarrow> nat list \<Rightarrow> wr \<Rightarrow> (int \<times> ssufs) option" where
  "write_loop file_handle f_inode buf nbytes [] w = Some (- 1, w_fs w)"
| "write_loop file_handle f_inode buf nbytes (i # is) w =
     (if 0 \<le> w_off w \<and> w_off w < int BLOCKSIZE then do {
        r \<leftarrow> block_for i w;
        case r of
          None \<Rightarrow> do { s1 \<leftarrow> rollback_loop [0..<MAX_FILE_SIZE] w; Some (- 1, s1) }
        | Some w1 \<Rightarrow> do {
            w2 \<leftarrow> save_block i w1;
            (tmp, cur, fin) \<leftarrow> write_inner buf nbytes (w_tmp_buf w2) (nat (w_off w2)) (w_curr w2);
            s3 \<leftarrow> ssufs_writeDataBlock (sint (direct_blocks (w_inode w2) ! i)) tmp (w_fs w2);
            if fin then do {
              s4 \<leftarrow> ssufs_writeInode f_inode
                ((w_inode w2)\<lparr>i_file_size := i_file_size (w_inode w2) + word_of_int nbytes\<rparr>) s3;
              (_, s5) \<leftarrow> ssufs_lseek file_handle nbytes s4;
              Some (0, s5) }
            else write_loop file_handle f_inode buf nbytes is
              (w2\<lparr>w_tmp_buf := replicate BLOCKSIZE 0, w_off := 0, w_curr := cur,
                  w_isUsed := (w_isUsed w2)[i := 1], w_fs := s3\<rparr>) } }
      else write_loop file_handle f_inode buf nbytes is
        (w\<lparr>w_off := (if w_off w \<noteq> 0 then w_off w - int BLOCKSIZE else w_off w)\<rparr>))"

text \<open>\<open>rbi\<close> is the value of \<^verbatim>\<open>rollback_index\<close> before it is set.\<close>

definition ssufs_write :: "int \<Rightarrow> int \<Rightarrow> bytes \<Rightarrow> int \<Rightarrow> ssufs \<Rightarrow> (int \<times> ssufs) option" where
  "ssufs_write rbi file_handle buf nbytes s = do {
     f \<leftarrow> handle file_handle s;
     tmp \<leftarrow> ssufs_readInode (fh_inode_number f) s;
     if sint (i_file_size tmp) + nbytes > int MAX_FILE_SIZE * int BLOCKSIZE then Some (- 1, s)
     else write_loop file_handle (fh_inode_number f) buf nbytes [0..<MAX_FILE_SIZE]
       \<lparr>w_inode = tmp, w_tmp_buf = ss_uninit s, w_rollback = ss_uninit s, w_rollback_index = rbi,
        w_isUsed = replicate MAX_FILE_SIZE (- 1), w_off = fh_offset f, w_curr = 0, w_fs = s\<rparr> }"

section \<open>Lookup and creation\<close>

text \<open>What the comparison of an inode's name with a file name amounts to.\<close>

definition name_is :: "inode_t \<Rightarrow> bytes \<Rightarrow> bool" where
  "name_is ip filename \<longleftrightarrow> take (Suc (length filename)) (drop 4 (inode_bytes ip)) = filename @ [0]"

definition in_use :: "ssufs \<Rightarrow> nat \<Rightarrow> bool" where
  "in_use s i \<longleftrightarrow> inode_freelist (SB s) ! i = INODE_IN_USE"

lemma drop_inode_bytes:
  "drop 4 (inode_bytes ip) = i_name ip @ le32 (i_file_size ip) @ concat (map le32 (direct_blocks ip))"
  by (simp add: inode_bytes_def)

lemma name_matches_eq:
  "inode_ok ip \<Longrightarrow> 0 \<notin> set filename \<Longrightarrow> length filename \<le> 8 \<Longrightarrow> name_matches ip filename = Some (name_is ip filename)"
  using length_inode_bytes [of ip] by (simp add: name_matches_def name_is_def strcmp_eq_take)

lemma namei_loop_eq:
  assumes "disk_ok s" "0 \<notin> set filename" "length filename \<le> 8" "\<forall>i\<in>set is. i < 8"
  shows "namei_loop (SB s) filename s is =
    Some (case filter (\<lambda>i. in_use s i \<and> name_is (INODE s i) filename) is of [] \<Rightarrow> - 1 | i # _ \<Rightarrow> int i)"
  using assms(4)
proof (induction "is")
  case (Cons i "is")
  with assms show ?case by (auto simp: in_use_def name_matches_eq split: if_splits)
qed simp

lemma open_namei_eq:
  assumes "disk_ok s" "0 \<notin> set filename" "length filename \<le> 8"
  shows "open_namei filename s =
    Some (case filter (\<lambda>i. in_use s i \<and> name_is (INODE s i) filename) [0..<8] of [] \<Rightarrow> - 1 | i # _ \<Rightarrow> int i)"
  using namei_loop_eq [OF assms, of "[0..<8]"] assms by (simp add: open_namei_def ssufs_consts)

lemma open_namei_absent:
  assumes "disk_ok s" "0 \<notin> set filename" "length filename \<le> 8" "open_namei filename s = Some (- 1)"
  shows "\<forall>i<8. \<not> (in_use s i \<and> name_is (INODE s i) filename)"
  using assms(4) unfolding open_namei_eq [OF assms(1-3)]
  by (auto simp: filter_empty_conv split: list.splits)

lemma open_namei_unique:
  assumes "disk_ok s" "0 \<notin> set filename" "length filename \<le> 8" "i < 8"
    "\<forall>j<8. (in_use s j \<and> name_is (INODE s j) filename) = (j = i)"
  shows "open_namei filename s = Some (int i)"
proof -
  have "filter (\<lambda>j. in_use s j \<and> name_is (INODE s j) filename) [0..<8] = filter (\<lambda>j. j = i) [0..<8]"
    using assms(5) by (intro filter_cong) auto
  also have "\<dots> = [i]"
  proof -
    have "[0..<8] = [0..<i] @ i # [Suc i..<8]" using assms(4) by (metis le0 less_imp_le upt_conv_Cons upt_add_eq_append le_add_diff_inverse)
    then show ?thesis by (simp add: filter_empty_conv)
  qed
  finally show ?thesis by (simp add: open_namei_eq [OF assms(1-3)])
qed

text \<open>A name of at most seven characters is stored inside the name field.\<close>

lemma strcpy_name_short:
  assumes "inode_ok ip" "length filename \<le> 7"
  shows "strcpy_name ip filename =
    Some (ip\<lparr>i_name := filename @ 0 # drop (Suc (length filename)) (i_name ip)\<rparr>)"
proof -
  let ?ip = "ip\<lparr>i_name := filename @ 0 # drop (Suc (length filename)) (i_name ip)\<rparr>"
  have "inode_bytes ip = le32 (i_status ip) @ i_name ip @ le32 (i_file_size ip) @ concat (map le32 (direct_blocks ip))"
    by (simp add: inode_bytes_def)
  with assms have "dwrite 4 (filename @ [0]) (inode_bytes ip) = inode_bytes ?ip"
    by (simp add: dwrite_def inode_bytes_def inode_ok_def)
  moreover have "inode_ok ?ip" using assms by (simp add: inode_ok_def)
  ultimately show ?thesis using assms(2) by (simp add: strcpy_name_def inode_of_bytes)
qed

lemma name_is_short:
  assumes "0 \<notin> set f" "0 \<notin> set g" "i_name ip = f @ 0 # r" "length g \<le> 8" "inode_ok ip"
  shows "name_is ip g \<longleftrightarrow> f = g"
proof -
  have "length f + length r = 7" using assms(3,5) by (simp add: inode_ok_def)
  then show ?thesis
    using take_string_eq [OF assms(1,2), of "r @ le32 (i_file_size ip) @ concat (map le32 (direct_blocks ip))"] assms(3,4)
    by (simp add: name_is_def drop_inode_bytes)
qed

end
