(* ===== verification/Ssufs_Files.thy ===== *)
theory Ssufs_Files
  imports Ssufs_Ops
begin

text \<open>
  What creating, finding and deleting files of the teaching file system amounts to.
\<close>

section \<open>Creation\<close>

lemma set_inode_used_keeps [simp]:
  assumes "disk_ok s"
  shows "disk_ok (set_inode_used i s)" "j < 8 \<Longrightarrow> INODE (set_inode_used i s) j = INODE s j"
    "file_handle_array (set_inode_used i s) = file_handle_array s"
  using assms by (simp_all add: set_inode_used_def sb_ok_upd)

lemma in_use_busy: "in_use s i \<Longrightarrow> inode_busy s i"
  by (auto simp: in_use_def inode_busy_def)

text \<open>The state after \<^verbatim>\<open>create\<close> took inode \<open>i\<close> and stored \<open>ip\<close> there.\<close>

abbreviation created :: "nat \<Rightarrow> inode_t \<Rightarrow> ssufs \<Rightarrow> ssufs" where
  "created i ip s \<equiv> put_inode i ip (set_inode_used i s)"

lemma created_keeps:
  assumes "lists_ok s" "inode_ok ip" "i < 8"
  shows "lists_ok (created i ip s)"
    "j < 8 \<Longrightarrow> in_use (created i ip s) j \<longleftrightarrow> j = i \<or> in_use s j"
    "j < 8 \<Longrightarrow> INODE (created i ip s) j = (if j = i then ip else INODE s j)"
proof -
  have d: "disk_ok s" using assms(1) by (simp add: lists_ok_def)
  then have SB: "SB (created i ip s) = SB (set_inode_used i s)" using assms by simp
  show "lists_ok (created i ip s)"
    using set_inode_used_ok [OF assms(1), of i] assms(2,3) d by (simp add: lists_ok_def SB)
  show "in_use (created i ip s) j \<longleftrightarrow> j = i \<or> in_use s j" if "j < 8"
    using that assms(3) d sb_lengths [OF d] by (auto simp: in_use_def SB set_inode_used_SB nth_list_update)
  show "INODE (created i ip s) j = (if j = i then ip else INODE s j)" if "j < 8"
    using that assms d by simp
qed

lemma allocInode_free:
  assumes "lists_ok s" "\<exists>i<8. \<not> inode_busy s i"
  obtains i where "i < 8" "\<not> inode_busy s i" "ssufs_allocInode s = Some (int i, set_inode_used i s)"
proof -
  have d: "disk_ok s" using assms(1) by (simp add: lists_ok_def)
  have "first_idx (\<lambda>c. c = INODE_FREE) (inode_freelist (SB s)) \<noteq> None"
    using assms(2) sb_lengths [OF d] by (auto simp: first_idx_None inode_busy_def in_set_conv_nth)
  then obtain i where i: "first_idx (\<lambda>c. c = INODE_FREE) (inode_freelist (SB s)) = Some i" by auto
  from first_idx_SomeD [OF i] sb_lengths [OF d] i d show ?thesis
    by (intro that [of i]) (auto simp: inode_busy_def allocInode_eq)
qed

lemma create_eq:
  assumes "lists_ok s" "open_namei f s = Some (- 1)" "i < 8" "ssufs_allocInode s = Some (int i, set_inode_used i s)"
    "strcpy_name ((INODE s i)\<lparr>i_status := INODE_IN_USE\<rparr>) f = Some ip"
  shows "ssufs_create f s = Some (int i, created i ip s)"
  using assms by (simp add: ssufs_create_def lists_ok_def)

section \<open>Deletion\<close>

text \<open>The blocks an inode refers to.\<close>

definition file_blocks :: "inode_t \<Rightarrow> nat list" where
  "file_blocks ip = map unat (filter (\<lambda>b. b \<noteq> - 1) (direct_blocks ip))"

definition blocks_ok :: "ssufs \<Rightarrow> inode_t \<Rightarrow> bool" where
  "blocks_ok s ip \<longleftrightarrow> distinct (file_blocks ip) \<and>
     (\<forall>b\<in>set (file_blocks ip). b < 30 \<and> has_data s b \<and> block_busy s b)"

lemma length_DATA: "has_data s b \<Longrightarrow> length (DATA s b) = 64"
  by (simp add: DATA_def has_data_def length_dread)

lemma wipe_blocks_eq:
  assumes "disk_ok s" "distinct (map unat (filter (\<lambda>b. b \<noteq> - 1) bs))"
    "\<forall>b\<in>set bs. b \<noteq> - 1 \<longrightarrow> unat b < 30 \<and> has_data s (unat b)"
  shows "\<exists>s'. wipe_blocks bs s = Some s' \<and> disk_ok s' \<and> SB s' = SB s \<and> (\<forall>i<8. INODE s' i = INODE s i) \<and>
    file_handle_array s' = file_handle_array s \<and> (\<forall>b. has_data s b \<longrightarrow> has_data s' b) \<and>
    (\<forall>b. has_data s b \<longrightarrow> DATA s' b =
      (if b \<in> set (map unat (filter (\<lambda>b. b \<noteq> - 1) bs)) then replicate 8 0 @ drop 8 (DATA s b) else DATA s b))"
  using assms
proof (induction bs arbitrary: s)
  case (Cons c bs)
  show ?case
  proof (cases "c = - 1")
    case True
    with Cons.IH [OF Cons.prems(1)] Cons.prems show ?thesis by simp
  next
    case False
    define e where "e = unat c"
    have b: "e < 30" "has_data s e" using Cons.prems(3) False by (auto simp: e_def)
    let ?w = "replicate 8 0 @ drop 8 (DATA s e)"
    have len: "length ?w = 64" using length_DATA [OF b(2)] by simp
    let ?s1 = "put_data e ?w s"
    have c: "sint c = int e" using b(1) by (simp add: e_def sint_small)
    have "disk_ok ?s1" "\<forall>d\<in>set bs. d \<noteq> - 1 \<longrightarrow> unat d < 30 \<and> has_data ?s1 (unat d)"
      using Cons.prems(1,3) len by auto
    with Cons.IH [of ?s1] Cons.prems(2) False obtain s' where s': "wipe_blocks bs ?s1 = Some s'" "disk_ok s'"
      "SB s' = SB ?s1" "\<forall>i<8. INODE s' i = INODE ?s1 i" "file_handle_array s' = file_handle_array ?s1"
      "\<forall>b. has_data ?s1 b \<longrightarrow> has_data s' b"
      "\<forall>b. has_data ?s1 b \<longrightarrow> DATA s' b = (if b \<in> set (map unat (filter (\<lambda>b. b \<noteq> - 1) bs))
        then replicate 8 0 @ drop 8 (DATA ?s1 b) else DATA ?s1 b)" by auto
    have "wipe_blocks (c # bs) s = Some s'"
      using False b len s'(1) by (simp add: c)
    moreover have "DATA s' d = (if d \<in> set (map unat (filter (\<lambda>b. b \<noteq> - 1) (c # bs)))
        then replicate 8 0 @ drop 8 (DATA s d) else DATA s d)" if "has_data s d" for d
      using s'(7) that Cons.prems(1,2) len False by (cases "d = e") (auto simp: e_def)
    ultimately show ?thesis using s' Cons.prems(1) len by auto
  qed
qed simp

definition mark_free :: "u32 list \<Rightarrow> superblock_t \<Rightarrow> superblock_t" where
  "mark_free bs sb = fold (\<lambda>b sb. if b \<noteq> - 1
     then sb\<lparr>datablock_freelist := (datablock_freelist sb)[unat b := DATA_BLOCK_FREE]\<rparr> else sb) bs sb"

lemma free_blocks_eq:
  assumes "disk_ok s" "sb_ok sb" "distinct (map unat (filter (\<lambda>b. b \<noteq> - 1) bs))"
    "\<forall>b\<in>set bs. b \<noteq> - 1 \<longrightarrow> unat b < 30 \<and> datablock_freelist sb ! unat b = DATA_BLOCK_USED"
  shows "\<exists>s'. free_blocks bs sb s = Some (mark_free bs sb, s') \<and> disk_ok s' \<and> (\<forall>i<8. INODE s' i = INODE s i) \<and>
    file_handle_array s' = file_handle_array s \<and> (\<forall>b. has_data s b \<longrightarrow> has_data s' b \<and> DATA s' b = DATA s b)"
  using assms
proof (induction bs arbitrary: s sb)
  case (Cons c bs)
  show ?case
  proof (cases "c = - 1")
    case True
    with Cons.IH [OF Cons.prems(1,2)] Cons.prems show ?thesis by (simp add: mark_free_def)
  next
    case False
    define e where "e = unat c"
    let ?s1 = "ssufs_writeSuperBlock sb s"
    let ?sb = "sb\<lparr>datablock_freelist := (datablock_freelist sb)[e := DATA_BLOCK_FREE]\<rparr>"
    have b: "e < 30" "datablock_freelist sb ! e = DATA_BLOCK_USED" using Cons.prems(4) False by (auto simp: e_def)
    have c: "sint c = int e" using b(1) by (simp add: e_def sint_small)
    have ok: "sb_ok ?sb" "disk_ok ?s1" using Cons.prems(1,2) by (simp_all add: sb_ok_def)
    let ?s2 = "ssufs_writeSuperBlock ?sb ?s1"
    have fr: "ssufs_freeDataBlock (sint c) ?s1 = Some ?s2"
      using Cons.prems(1,2) b ok by (simp add: c ssufs_freeDataBlock_def NUM_DATA_BLOCKS_def)
    have "\<forall>d\<in>set bs. d \<noteq> - 1 \<longrightarrow> unat d < 30 \<and> datablock_freelist ?sb ! unat d = DATA_BLOCK_USED"
    proof (intro ballI impI)
      fix d assume d: "d \<in> set bs" "d \<noteq> - 1"
      with Cons.prems(3) False have "unat d \<noteq> e" by (auto simp: e_def image_iff)
      with Cons.prems(4) d show "unat d < 30 \<and> datablock_freelist ?sb ! unat d = DATA_BLOCK_USED" by simp
    qed
    with Cons.IH [of ?s2 ?sb] Cons.prems(3) False ok obtain s' where
      s': "free_blocks bs ?sb ?s2 = Some (mark_free bs ?sb, s')" "disk_ok s'" "\<forall>i<8. INODE s' i = INODE ?s2 i"
      "file_handle_array s' = file_handle_array ?s2"
      "\<forall>b. has_data ?s2 b \<longrightarrow> has_data s' b \<and> DATA s' b = DATA ?s2 b" by auto
    have "free_blocks (c # bs) sb s = Some (mark_free (c # bs) sb, s')"
      using False fr s'(1) ok by (simp add: mark_free_def e_def)
    with s' Cons.prems(1,2) ok show ?thesis by auto
  qed
qed (simp add: mark_free_def)

lemma mark_free_sel:
  "sb_name (mark_free bs sb) = sb_name sb" "inode_freelist (mark_free bs sb) = inode_freelist sb"
  "length (datablock_freelist (mark_free bs sb)) = length (datablock_freelist sb)"
  by (induction bs arbitrary: sb) (auto simp: mark_free_def)

lemma mark_free_nth:
  "b < length (datablock_freelist sb) \<Longrightarrow> datablock_freelist (mark_free bs sb) ! b =
     (if b \<in> set (map unat (filter (\<lambda>b. b \<noteq> - 1) bs)) then DATA_BLOCK_FREE else datablock_freelist sb ! b)"
proof (induction bs arbitrary: sb)
  case (Cons c bs)
  let ?sb = "if c \<noteq> - 1 then sb\<lparr>datablock_freelist := (datablock_freelist sb)[unat c := DATA_BLOCK_FREE]\<rparr> else sb"
  have "mark_free (c # bs) sb = mark_free bs ?sb" by (simp add: mark_free_def)
  with Cons.IH [of ?sb] Cons.prems show ?case by (auto simp: nth_list_update)
qed (simp add: mark_free_def)

lemma mark_free_set: "set (datablock_freelist sb) \<subseteq> {DATA_BLOCK_FREE, DATA_BLOCK_USED} \<Longrightarrow>
    set (datablock_freelist (mark_free bs sb)) \<subseteq> {DATA_BLOCK_FREE, DATA_BLOCK_USED}"
  by (auto simp: in_set_conv_nth mark_free_sel mark_free_nth subset_iff split: if_splits)

lemma open_namei_foundD:
  assumes "disk_ok s" "0 \<notin> set f" "length f \<le> 8" "open_namei f s = Some (int i)"
  shows "i < 8" "in_use s i" "name_is (INODE s i) f"
proof -
  from assms(4) obtain js where "filter (\<lambda>j. in_use s j \<and> name_is (INODE s j) f) [0..<8] = i # js"
    unfolding open_namei_eq [OF assms(1-3)] by (auto split: list.splits)
  then have "i \<in> set (filter (\<lambda>j. in_use s j \<and> name_is (INODE s j) f) [0..<8])" by simp
  then show "i < 8" "in_use s i" "name_is (INODE s i) f" by auto
qed

definition freed_inode :: "inode_t \<Rightarrow> inode_t" where
  "freed_inode ip = ip\<lparr>i_status := INODE_FREE, i_file_size := 0, direct_blocks := replicate MAX_FILE_SIZE (- 1)\<rparr>"

lemma freeInode_eq:
  assumes ok: "lists_ok s" and i: "i < 8" "in_use s i" and b: "blocks_ok s (INODE s i)"
  shows "\<exists>s'. ssufs_freeInode (int i) s = Some s' \<and> lists_ok s' \<and> \<not> inode_busy s' i \<and>
    (\<forall>j<8. j \<noteq> i \<longrightarrow> inode_busy s' j = inode_busy s j) \<and>
    (\<forall>b<30. block_busy s' b \<longleftrightarrow> block_busy s b \<and> b \<notin> set (file_blocks (INODE s i))) \<and>
    (\<forall>b. has_data s b \<longrightarrow> DATA s' b = DATA s b)"
proof -
  have d: "disk_ok s" using ok by (simp add: lists_ok_def)
  note len = sb_lengths [OF d]
  define bs where "bs = direct_blocks (INODE s i)"
  define sb1 where "sb1 = (SB s)\<lparr>inode_freelist := (inode_freelist (SB s))[i := INODE_FREE]\<rparr>"
  have sb1: "sb_ok sb1" using SB_ok [OF d] by (simp add: sb1_def sb_ok_def)
  have used: "\<forall>b\<in>set bs. b \<noteq> - 1 \<longrightarrow> unat b < 30 \<and> datablock_freelist sb1 ! unat b = DATA_BLOCK_USED"
  proof (intro ballI impI)
    fix b assume "b \<in> set bs" "b \<noteq> - 1"
    then have "unat b \<in> set (file_blocks (INODE s i))" by (simp add: file_blocks_def bs_def)
    with assms(4) have u: "unat b < 30" "block_busy s (unat b)" by (auto simp: blocks_ok_def)
    then have "datablock_freelist (SB s) ! unat b \<in> {DATA_BLOCK_FREE, DATA_BLOCK_USED}"
      using ok len by (metis lists_ok_def nth_mem subsetD)
    with u show "unat b < 30 \<and> datablock_freelist sb1 ! unat b = DATA_BLOCK_USED"
      by (auto simp: sb1_def block_busy_def)
  qed
  have "distinct (map unat (filter (\<lambda>b. b \<noteq> - 1) bs))" using b by (simp add: blocks_ok_def file_blocks_def bs_def)
  from free_blocks_eq [OF d sb1 this used] obtain s2 where s2: "free_blocks bs sb1 s = Some (mark_free bs sb1, s2)"
    "disk_ok s2" "\<forall>b. has_data s b \<longrightarrow> has_data s2 b \<and> DATA s2 b = DATA s b" by blast
  define sb2 where "sb2 = mark_free bs sb1"
  have sb2: "sb_ok sb2" using sb1 by (simp add: sb2_def sb_ok_def mark_free_sel)
  let ?s3 = "ssufs_writeSuperBlock sb2 s2" and ?ip = "freed_inode (INODE s i)"
  have ip: "inode_ok ?ip" using INODE_ok [OF d i(1)] by (simp add: freed_inode_def inode_ok_def MAX_FILE_SIZE_def)
  have s3: "disk_ok ?s3" using s2(2) sb2 by simp
  let ?s4 = "put_inode i ?ip ?s3"
  have "ssufs_freeInode (int i) s = Some ?s4"
    using d i s2(1) by (simp add: ssufs_freeInode_def bs_def sb1_def sb2_def in_use_def freed_inode_def)
  moreover have SB4: "SB ?s4 = sb2" using s3 ip i(1) s2(2) sb2 by simp
  moreover have "lists_ok ?s4"
  proof -
    have "set (inode_freelist sb2) \<subseteq> {INODE_FREE, INODE_IN_USE}"
      using ok set_update_subset_insert [of "inode_freelist (SB s)" i INODE_FREE]
      by (auto simp: lists_ok_def sb2_def mark_free_sel sb1_def)
    moreover have "set (datablock_freelist sb2) \<subseteq> {DATA_BLOCK_FREE, DATA_BLOCK_USED}"
      unfolding sb2_def using ok by (intro mark_free_set) (simp add: lists_ok_def sb1_def)
    ultimately show ?thesis using s3 ip i(1) SB4 by (simp add: lists_ok_def)
  qed
  moreover have "\<not> inode_busy ?s4 i" "\<forall>j<8. j \<noteq> i \<longrightarrow> inode_busy ?s4 j = inode_busy s j"
    using SB4 i(1) len by (auto simp: inode_busy_def sb2_def mark_free_sel sb1_def)
  moreover have "\<forall>b<30. block_busy ?s4 b \<longleftrightarrow> block_busy s b \<and> b \<notin> set (file_blocks (INODE s i))"
    using SB4 len by (auto simp: block_busy_def sb2_def mark_free_nth sb1_def file_blocks_def bs_def)
  moreover have "\<forall>b. has_data s b \<longrightarrow> DATA ?s4 b = DATA s b" using s2 sb2 ip i(1) by simp
  ultimately show ?thesis by blast
qed

section \<open>Properties\<close>

text \<open>Freshly formatted, the file system hands out its 30 data blocks: \<open>k\<close> successive
  allocations succeed exactly if \<open>k\<close> is at most 30, and they give pairwise different blocks. This
  rests on the superblock being written to and read back from the disk on every call.\<close>

theorem ssufs_blocks_after_format:
  assumes "length (ss_uninit s0) = 64" "ssufs_formatDisk s0 = Some s"
  shows "((\<exists>r. block_table.claims k s = Some r) \<longleftrightarrow> k \<le> 30) \<and>
    (\<forall>is s'. block_table.claims k s = Some (is, s') \<longrightarrow> distinct is \<and> length is = k \<and> (\<forall>i\<in>set is. i < 30))"
proof -
  from formatDisk_layout [OF assms(1)] assms(2) have l: "disk_ok s"
    "inode_freelist (SB s) = replicate 8 INODE_FREE" "datablock_freelist (SB s) = replicate 30 DATA_BLOCK_FREE" by auto
  then have ok: "lists_ok s" by (auto simp: lists_ok_def)
  have "{i. i < 30 \<and> \<not> block_busy s i} = {..<30}" using l(3) by (auto simp: block_busy_def)
  then have "block_table.nfree s = 30" by (simp add: block_table.nfree_def)
  with block_table.claims_iff_nfree [OF ok] block_table.claims_fresh [OF ok] show ?thesis by fastforce
qed

text \<open>Creating a file with a new name of at most seven characters, when an inode is free,
  returns an inode that was free; afterwards the name is found there, every other name is found where
  it was before, and the free lists stay well-formed.\<close>

theorem ssufs_create_found:
  assumes "lists_ok s" "0 \<notin> set f" "length f \<le> 7" "open_namei f s = Some (- 1)" "\<exists>i<8. \<not> inode_busy s i"
  shows "\<exists>i s'. ssufs_create f s = Some (int i, s') \<and> i < 8 \<and> \<not> inode_busy s i \<and> lists_ok s' \<and>
    open_namei f s' = Some (int i) \<and>
    (\<forall>g. 0 \<notin> set g \<longrightarrow> g \<noteq> f \<longrightarrow> open_namei g s' = open_namei g s)"
proof -
  have d: "disk_ok s" using assms(1) by (simp add: lists_ok_def)
  obtain i where i: "i < 8" "\<not> inode_busy s i" "ssufs_allocInode s = Some (int i, set_inode_used i s)"
    using allocInode_free [OF assms(1,5)] by blast
  let ?jp = "(INODE s i)\<lparr>i_status := INODE_IN_USE\<rparr>"
  let ?r = "drop (Suc (length f)) (i_name (INODE s i))"
  let ?ip = "?jp\<lparr>i_name := f @ 0 # ?r\<rparr>"
  have ok: "inode_ok ?jp" "inode_ok ?ip"
    using INODE_ok [OF d i(1)] assms(3) by (auto simp: inode_ok_def)
  have "strcpy_name ?jp f = Some ?ip" using strcpy_name_short [OF ok(1) assms(3)] by simp
  from create_eq [OF assms(1,4) i(1,3) this] have c: "ssufs_create f s = Some (int i, created i ?ip s)" .
  note k = created_keeps [OF assms(1) ok(2) i(1)]
  have d': "disk_ok (created i ?ip s)" using k(1) by (simp add: lists_ok_def)
  have nm: "name_is ?ip g \<longleftrightarrow> g = f" if "0 \<notin> set g" "length g \<le> 8" for g
    using name_is_short [OF assms(2) that(1) _ that(2) ok(2)] by auto
  have "open_namei f (created i ?ip s) = Some (int i)"
    using assms(2,3) open_namei_absent [OF d assms(2) _ assms(4)] k(2,3) i nm [of f]
    by (intro open_namei_unique [OF d']) auto
  moreover have "open_namei g (created i ?ip s) = open_namei g s" if g: "0 \<notin> set g" "g \<noteq> f" for g
  proof (cases "length g \<le> 8")
    case True
    have "\<not> in_use s i" using i(2) in_use_busy by blast
    then have "filter (\<lambda>j. in_use (created i ?ip s) j \<and> name_is (INODE (created i ?ip s) j) g) [0..<8] =
        filter (\<lambda>j. in_use s j \<and> name_is (INODE s j) g) [0..<8]"
      using k(2,3) nm [OF g(1) True] g(2) by (intro filter_cong) auto
    then show ?thesis by (simp only: open_namei_eq [OF d g(1) True] open_namei_eq [OF d' g(1) True])
  qed (simp add: open_namei_def MAX_NAME_STRLEN_def)
  ultimately show ?thesis using c i k(1) by blast
qed

text \<open>A file whose name has the full eight characters that \<^verbatim>\<open>MAX_NAME_STRLEN\<close> allows is only
  found while the low byte of its size is zero: the stored name has no terminator, and the comparison
  goes on into the size that follows it. The file is lost as soon as it has been written to.\<close>

theorem ssufs_full_name_lost:
  assumes "disk_ok s" "0 \<notin> set f" "length f = 8" "i < 8" "in_use s i" "i_name (INODE s i) = f"
    "\<forall>j<8. j \<noteq> i \<longrightarrow> i_name (INODE s j) \<noteq> f"
  shows "open_namei f s = Some (if unat (i_file_size (INODE s i)) mod 256 = 0 then int i else - 1)"
proof -
  have n: "name_is (INODE s j) f \<longleftrightarrow> i_name (INODE s j) = f \<and> unat (i_file_size (INODE s j)) mod 256 = 0"
    if "j < 8" for j
  proof -
    have l: "length (i_name (INODE s j)) = 8" using INODE_ok [OF assms(1) that] by (simp add: inode_ok_def)
    have "(ucast (w :: u32) :: byte) = 0 \<longleftrightarrow> unat w mod 256 = 0" for w
      by (simp add: word_eq_iff_unsigned unsigned_ucast_eq take_bit_eq_mod unat_eq_0 flip: unat_eq_0)
    with l assms(3) show ?thesis by (simp add: name_is_def drop_inode_bytes le32_def)
  qed
  have "filter (\<lambda>j. in_use s j \<and> name_is (INODE s j) f) [0..<8] = []" if "unat (i_file_size (INODE s i)) mod 256 \<noteq> 0"
    using n assms that by (auto simp: filter_empty_conv)
  moreover have "open_namei f s = Some (int i)" if "unat (i_file_size (INODE s i)) mod 256 = 0"
    using n assms that by (intro open_namei_unique) auto
  ultimately show ?thesis using assms(1-3) by (auto simp: open_namei_eq)
qed

text \<open>Deleting a file frees its inode and its blocks and no others, but not its contents: of each
  block only the first eight bytes are cleared, the size of a pointer and not of the buffer.\<close>

theorem ssufs_delete_frees:
  assumes "lists_ok s" "0 \<notin> set f" "length f \<le> 8" "open_namei f s = Some (int i)" "blocks_ok s (INODE s i)"
  shows "\<exists>s'. ssufs_delete f s = Some s' \<and> lists_ok s' \<and> \<not> inode_busy s' i \<and>
    (\<forall>j<8. j \<noteq> i \<longrightarrow> inode_busy s' j = inode_busy s j) \<and>
    (\<forall>b<30. block_busy s' b \<longleftrightarrow> block_busy s b \<and> b \<notin> set (file_blocks (INODE s i))) \<and>
    (\<forall>b\<in>set (file_blocks (INODE s i)). DATA s' b = replicate 8 0 @ drop 8 (DATA s b))"
proof -
  have d: "disk_ok s" using assms(1) by (simp add: lists_ok_def)
  note i = open_namei_foundD [OF d assms(2-4)]
  let ?bs = "direct_blocks (INODE s i)"
  have "\<forall>b\<in>set ?bs. b \<noteq> - 1 \<longrightarrow> unat b < 30 \<and> has_data s (unat b)"
    using assms(5) by (auto simp: blocks_ok_def file_blocks_def)
  from wipe_blocks_eq [OF d _ this] assms(5) obtain s1 where s1: "wipe_blocks ?bs s = Some s1" "disk_ok s1"
    "SB s1 = SB s" "\<forall>i<8. INODE s1 i = INODE s i" "\<forall>b. has_data s b \<longrightarrow> has_data s1 b"
    "\<forall>b. has_data s b \<longrightarrow> DATA s1 b = (if b \<in> set (file_blocks (INODE s i))
      then replicate 8 0 @ drop 8 (DATA s b) else DATA s b)"
    by (auto simp: blocks_ok_def file_blocks_def)
  have ok1: "lists_ok s1" "in_use s1 i" "INODE s1 i = INODE s i" "blocks_ok s1 (INODE s1 i)"
    using assms(1,5) s1 i by (auto simp: lists_ok_def in_use_def blocks_ok_def block_busy_def)
  from freeInode_eq [OF ok1(1) i(1) ok1(2,4)] obtain s2 where s2: "ssufs_freeInode (int i) s1 = Some s2"
    "lists_ok s2" "\<not> inode_busy s2 i" "\<forall>j<8. j \<noteq> i \<longrightarrow> inode_busy s2 j = inode_busy s1 j"
    "\<forall>b<30. block_busy s2 b \<longleftrightarrow> block_busy s1 b \<and> b \<notin> set (file_blocks (INODE s1 i))"
    "\<forall>b. has_data s1 b \<longrightarrow> DATA s2 b = DATA s1 b" by blast
  have "ssufs_delete f s = Some s2" using assms(4) d i(1) s1(1) s2(1) by (simp add: ssufs_delete_def)
  moreover have "\<forall>j. inode_busy s1 j = inode_busy s j" "\<forall>b. block_busy s1 b = block_busy s b"
    using s1(3) by (simp_all add: inode_busy_def block_busy_def)
  ultimately show ?thesis using s2 s1(5,6) ok1(3) assms(5) by (auto simp: blocks_ok_def)
qed

text \<open>A file name of nine characters or more, too long for the name field, is accepted by
  \<^verbatim>\<open>create\<close>, which takes it for a new name and copies it over the size and the block numbers of the
  inode; but no lookup ever finds the file, so the inode can neither be opened nor freed by name.\<close>

theorem ssufs_long_name_unreachable:
  assumes "lists_ok s" "8 < length f" "length f < 28" "\<exists>i<8. \<not> inode_busy s i"
  shows "\<exists>i s'. ssufs_create f s = Some (int i, s') \<and> i < 8 \<and> inode_busy s' i \<and> \<not> inode_busy s i \<and>
    ssufs_open f s' = Some (- 1, s') \<and> ssufs_delete f s' = Some s'"
proof -
  have d: "disk_ok s" using assms(1) by (simp add: lists_ok_def)
  obtain i where i: "i < 8" "\<not> inode_busy s i" "ssufs_allocInode s = Some (int i, set_inode_used i s)"
    using allocInode_free [OF assms(1,4)] by blast
  have no: "open_namei f s' = Some (- 1)" for s' using assms(2) by (simp add: open_namei_def MAX_NAME_STRLEN_def)
  let ?jp = "(INODE s i)\<lparr>i_status := INODE_IN_USE\<rparr>"
  let ?ip = "inode_of (dwrite 4 (f @ [0]) (inode_bytes ?jp))"
  have "inode_ok ?jp" using INODE_ok [OF d i(1)] by (simp add: inode_ok_def)
  then have ok: "inode_ok ?ip" by (intro inode_of_ok) (simp add: length_inode_bytes)
  have "strcpy_name ?jp f = Some ?ip" using assms(3) by (simp add: strcpy_name_def)
  from create_eq [OF assms(1) no i(1,3) this] have c: "ssufs_create f s = Some (int i, created i ?ip s)" .
  moreover have "inode_busy (created i ?ip s) i" using created_keeps(2) [OF assms(1) ok i(1), of i] i(1)
    by (auto intro: in_use_busy)
  moreover have "ssufs_open f t = Some (- 1, t)" "ssufs_delete f t = Some t" for t
    by (simp_all add: ssufs_open_def ssufs_delete_def no)
  ultimately show ?thesis using i by blast
qed

section \<open>Witnesses\<close>

text \<open>A formatted disk, and one on which inode 0 is a file with an eight-character name.\<close>

definition blank :: ssufs where
  "blank = \<lparr>ss_disk = [], file_handle_array = [], ss_uninit = replicate 64 0\<rparr>"

definition formatted :: ssufs where "formatted = the (ssufs_formatDisk blank)"

lemma formatted_eq: "ssufs_formatDisk blank = Some formatted"
  and formatted_ok: "lists_ok formatted" "\<forall>i<8. \<not> inode_busy formatted i" "\<forall>i<8. \<not> in_use formatted i"
    "\<forall>i<8. INODE formatted i = fresh_inode blank"
proof -
  from formatDisk_layout [of blank] obtain s where s: "ssufs_formatDisk blank = Some s" "disk_ok s"
    "\<forall>i<8. INODE s i = fresh_inode blank" "inode_freelist (SB s) = replicate 8 INODE_FREE"
    "datablock_freelist (SB s) = replicate 30 DATA_BLOCK_FREE" by (auto simp: blank_def)
  then have f: "formatted = s" by (simp add: formatted_def)
  show "ssufs_formatDisk blank = Some formatted" "\<forall>i<8. INODE formatted i = fresh_inode blank"
    using s f by simp_all
  show "lists_ok formatted" using s f by (simp add: lists_ok_def)
  show "\<forall>i<8. \<not> inode_busy formatted i" using s f by (simp add: inode_busy_def)
  then show "\<forall>i<8. \<not> in_use formatted i" using in_use_busy by blast
qed

lemma formatted_free: "\<exists>i<8. \<not> inode_busy formatted i"
  using formatted_ok(2) zero_less_numeral by blast

lemma formatted_absent: "0 \<notin> set f \<Longrightarrow> length f \<le> 8 \<Longrightarrow> open_namei f formatted = Some (- 1)"
  using formatted_ok by (simp add: open_namei_eq lists_ok_def filter_empty_conv)

definition eight :: bytes where "eight = [97, 97, 97, 97, 97, 97, 97, 97]"

definition with_eight :: ssufs where
  "with_eight = created 0 ((fresh_inode blank)\<lparr>i_name := eight, i_file_size := 5\<rparr>) formatted"

theorem ssufs_blocks_after_format_witness:
  "length (ss_uninit blank) = 64 \<and> (\<exists>r. block_table.claims 30 formatted = Some r) \<and>
   \<not> (\<exists>r. block_table.claims 31 formatted = Some r)"
proof -
  have u: "length (ss_uninit blank) = 64" by (simp add: blank_def)
  from ssufs_blocks_after_format [OF u formatted_eq, of 30] ssufs_blocks_after_format [OF u formatted_eq, of 31] u
  show ?thesis by simp
qed

theorem ssufs_create_found_witness:
  "\<exists>i s'. ssufs_create [97, 98] formatted = Some (int i, s') \<and> open_namei [97, 98] s' = Some (int i)"
proof -
  have "open_namei [97, 98] formatted = Some (- 1)" by (rule formatted_absent) simp_all
  from ssufs_create_found [OF formatted_ok(1) _ _ this formatted_free] show ?thesis by auto
qed

lemma with_eight_ok:
  "disk_ok with_eight" "in_use with_eight 0" "\<forall>j<8. j \<noteq> 0 \<longrightarrow> i_name (INODE with_eight j) \<noteq> eight"
  "INODE with_eight 0 = (fresh_inode blank)\<lparr>i_name := eight, i_file_size := 5\<rparr>"
proof -
  have ok: "inode_ok ((fresh_inode blank)\<lparr>i_name := eight, i_file_size := 5\<rparr>)"
    by (simp add: inode_ok_def fresh_inode_def eight_def MAX_FILE_SIZE_def)
  note k = created_keeps [OF formatted_ok(1) ok, of 0]
  show "disk_ok with_eight" "in_use with_eight 0" "INODE with_eight 0 = (fresh_inode blank)\<lparr>i_name := eight, i_file_size := 5\<rparr>"
    using k by (simp_all add: with_eight_def lists_ok_def)
  show "\<forall>j<8. j \<noteq> 0 \<longrightarrow> i_name (INODE with_eight j) \<noteq> eight"
    using k(3) formatted_ok(4) by (simp add: with_eight_def fresh_inode_def eight_def)
qed

theorem ssufs_full_name_lost_witness: "in_use with_eight 0 \<and> open_namei eight with_eight = Some (- 1)"
  using ssufs_full_name_lost [OF with_eight_ok(1) _ _ _ with_eight_ok(2) _ with_eight_ok(3)] with_eight_ok
  by (simp add: eight_def)

theorem ssufs_delete_frees_witness:
  "\<exists>s i s'. ssufs_create [97, 98] formatted = Some (int i, s) \<and> ssufs_delete [97, 98] s = Some s' \<and> \<not> inode_busy s' i"
proof -
  have a: "open_namei [97, 98] formatted = Some (- 1)" by (rule formatted_absent) simp_all
  have d: "disk_ok formatted" using formatted_ok(1) by (simp add: lists_ok_def)
  obtain i where i: "i < 8" "ssufs_allocInode formatted = Some (int i, set_inode_used i formatted)"
    using allocInode_free [OF formatted_ok(1)] formatted_ok(2) by (metis zero_less_numeral)
  let ?jp = "(INODE formatted i)\<lparr>i_status := INODE_IN_USE\<rparr>"
  let ?ip = "?jp\<lparr>i_name := [97, 98] @ 0 # drop (Suc (length [97 :: byte, 98])) (i_name ?jp)\<rparr>"
  have ok: "inode_ok ?jp" "inode_ok ?ip" using INODE_ok [OF d i(1)] by (auto simp: inode_ok_def)
  have "strcpy_name ?jp [97, 98] = Some ?ip" using strcpy_name_short [OF ok(1), of "[97, 98]"] by simp
  from create_eq [OF formatted_ok(1) a i this] have c: "ssufs_create [97, 98] formatted = Some (int i, created i ?ip formatted)" .
  note k = created_keeps [OF formatted_ok(1) ok(2) i(1)]
  have d': "disk_ok (created i ?ip formatted)" using k(1) by (simp add: lists_ok_def)
  have n: "name_is ?ip [97, 98]" using ok(2) by (subst name_is_short [of "[97, 98]"]) auto
  have "open_namei [97, 98] (created i ?ip formatted) = Some (int i)"
    using k(2,3) i(1) formatted_ok(3) n by (intro open_namei_unique [OF d']) auto
  moreover have "blocks_ok (created i ?ip formatted) (INODE (created i ?ip formatted) i)"
    using k(3) [OF i(1)] formatted_ok(4) i(1) by (simp add: blocks_ok_def file_blocks_def fresh_inode_def)
  ultimately show ?thesis using ssufs_delete_frees [OF k(1), of "[97, 98]" i] c by auto
qed

theorem ssufs_long_name_unreachable_witness:
  "\<exists>i s'. ssufs_create (replicate 9 97) formatted = Some (int i, s') \<and> ssufs_open (replicate 9 97) s' = Some (- 1, s')"
  using ssufs_long_name_unreachable [OF formatted_ok(1) _ _ formatted_free, of "replicate 9 97"] by auto

end
