(* ===== verification/Ssufs_Data.thy ===== *)
theory Ssufs_Data
  imports Ssufs_Files
begin

text \<open>
  Reading and writing the contents of files of the teaching file system. A file holds
  the bytes \<open>c\<close> when its inode lists blocks whose contents, one after the other, start
  with \<open>c\<close>.
\<close>

definition contents :: "ssufs \<Rightarrow> nat list \<Rightarrow> bytes" where
  "contents s bs = concat (map (DATA s) bs)"

definition block_list :: "ssufs \<Rightarrow> nat list \<Rightarrow> u32 list \<Rightarrow> bool" where
  "block_list s bs db \<longleftrightarrow> length bs \<le> 4 \<and> db = map word_of_nat bs @ replicate (4 - length bs) (- 1) \<and>
     distinct bs \<and> (\<forall>b\<in>set bs. b < 30 \<and> has_data s b \<and> block_busy s b)"

definition file_holds :: "ssufs \<Rightarrow> nat \<Rightarrow> bytes \<Rightarrow> bool" where
  "file_holds s fi c \<longleftrightarrow> fi < 8 \<and> i_file_size (INODE s fi) = word_of_nat (length c) \<and>
     (\<exists>bs. block_list s bs (direct_blocks (INODE s fi)) \<and> length c \<le> 64 * length bs \<and>
       take (length c) (contents s bs) = c)"

lemma small_block [simp]:
  assumes "b < 30"
  shows "sint (word_of_nat b :: u32) = int b" "(word_of_nat b :: u32) \<noteq> - 1"
proof -
  show s: "sint (word_of_nat b :: u32) = int b" using assms by (simp add: sint_nat)
  show "(word_of_nat b :: u32) \<noteq> - 1"
  proof
    assume "(word_of_nat b :: u32) = - 1"
    then have "sint (word_of_nat b :: u32) = - 1" by simp
    with s show False by simp
  qed
qed

lemma length_contents: "\<forall>b\<in>set bs. has_data s b \<Longrightarrow> length (contents s bs) = 64 * length bs"
  by (induction bs) (auto simp: contents_def length_DATA)

section \<open>Reading\<close>

lemma read_inner_eq:
  assumes "length out < n" "off \<le> 64" "length tmp = 64"
  shows "read_inner tmp off out (int n) =
    (if n - length out \<le> 64 - off then (out @ take (n - length out) (drop off tmp), True)
     else (out @ drop off tmp, False))"
  using assms(1,2)
proof (induction "64 - off" arbitrary: off out)
  case 0
  with assms(3) show ?case by (simp add: read_inner.simps [of tmp 64 out] BLOCKSIZE_def)
next
  case (Suc k)
  then have off: "off < 64" by simp
  then have d: "drop off tmp = tmp ! off # drop (Suc off) tmp" using assms(3) by (simp add: Cons_nth_drop_Suc)
  show ?case
  proof (cases "Suc (length out) = n")
    case True
    then have "n - length out = 1" by simp
    with True off d show ?thesis by (simp add: read_inner.simps [of tmp off out] BLOCKSIZE_def Let_def)
  next
    case False
    with Suc have "read_inner tmp (Suc off) (out @ [tmp ! off]) (int n) =
      (if n - Suc (length out) \<le> 64 - Suc off
       then ((out @ [tmp ! off]) @ take (n - Suc (length out)) (drop (Suc off) tmp), True)
       else ((out @ [tmp ! off]) @ drop (Suc off) tmp, False))"
      using Suc.hyps(1) [of "Suc off" "out @ [tmp ! off]"] by simp
    moreover have "n - length out = Suc (n - Suc (length out))" using Suc.prems(1) by simp
    moreover from this have "n - Suc (length out) \<le> 63 - off \<longleftrightarrow> n - length out \<le> 64 - off" using off by linarith
    ultimately show ?thesis
      using False off d by (simp add: read_inner.simps [of tmp off out] BLOCKSIZE_def Let_def)
  qed
qed

lemma read_loop_eq:
  assumes "\<forall>b\<in>set bs. b < 30 \<and> has_data s b" "length out < n" "off + (n - length out) \<le> 64 * length bs"
    "ssufs_lseek h (int n) s = Some (r, s')"
  shows "read_loop h (int n) s (map word_of_nat bs @ ms) (int off) out =
    Some (0, out @ take (n - length out) (drop off (contents s bs)), s')"
  using assms(1-3)
proof (induction bs arbitrary: off out)
  case (Cons b bs)
  have b: "b < 30" "has_data s b" using Cons.prems(1) by auto
  have len: "length (DATA s b) = 64" using b(2) by (rule length_DATA)
  show ?case
  proof (cases "off < 64")
    case True
    show ?thesis
    proof (cases "n - length out \<le> 64 - off")
      case fin: True
      then have "take (n - length out) (drop off (contents s (b # bs))) = take (n - length out) (drop off (DATA s b))"
        using len by (simp add: contents_def)
      with True fin b len Cons.prems(2) assms(4) show ?thesis by (simp add: read_inner_eq BLOCKSIZE_def)
    next
      case False
      let ?out = "out @ drop off (DATA s b)"
      have l: "length ?out = length out + (64 - off)" using len by simp
      have "read_loop h (int n) s (map word_of_nat bs @ ms) (int 0) ?out =
          Some (0, ?out @ take (n - length ?out) (drop 0 (contents s bs)), s')"
        using Cons.prems False True by (intro Cons.IH) (auto simp: len)
      moreover have "take (n - length out) (drop off (contents s (b # bs))) =
          drop off (DATA s b) @ take (n - length ?out) (contents s bs)"
        using False True len by (simp add: contents_def l)
      ultimately show ?thesis
        using True False b len Cons.prems(2) by (simp add: read_inner_eq BLOCKSIZE_def)
    qed
  next
    case False
    then have "int off - int BLOCKSIZE = int (off - 64)" by (simp add: BLOCKSIZE_def)
    moreover have "drop off (contents s (b # bs)) = drop (off - 64) (contents s bs)"
      using False len by (simp add: contents_def)
    ultimately show ?thesis
      using Cons.IH [of out "off - 64"] Cons.prems False by (simp add: BLOCKSIZE_def)
  qed
qed simp

section \<open>Writing\<close>

lemma write_inner_eq:
  assumes "n \<le> length buf" "cur < n" "off \<le> 64" "length tmp = 64"
  shows "write_inner buf (int n) tmp off cur =
    (if n - cur \<le> 64 - off
     then Some (take off tmp @ take (n - cur) (drop cur buf) @ drop (off + (n - cur)) tmp, n, True)
     else Some (take off tmp @ take (64 - off) (drop cur buf), cur + (64 - off), False))"
  using assms(2-4)
proof (induction "64 - off" arbitrary: off cur tmp)
  case 0
  then show ?case by (simp add: write_inner.simps [of buf "int n" tmp 64 cur] BLOCKSIZE_def)
next
  case (Suc k)
  then have off: "off < 64" "\<not> length buf \<le> cur" using assms(1) by auto
  let ?tmp = "tmp[off := buf ! cur]"
  have t: "take (Suc off) ?tmp = take off tmp @ [buf ! cur]" "drop (Suc off + m) ?tmp = drop (Suc off + m) tmp" for m
    using off Suc.prems(3) by (simp_all add: take_Suc_conv_app_nth)
  have d: "drop cur buf = buf ! cur # drop (Suc cur) buf" using off(2) by (simp add: Cons_nth_drop_Suc)
  show ?case
  proof (cases "Suc cur = n")
    case True
    then have "n - cur = 1" by simp
    with True off d t(1) t(2) [of 0] Suc.prems(3) show ?thesis
      by (simp add: write_inner.simps [of buf _ tmp off cur] BLOCKSIZE_def Let_def upd_conv_take_nth_drop)
  next
    case False
    then have IH: "write_inner buf (int n) ?tmp (Suc off) (Suc cur) =
      (if n - Suc cur \<le> 64 - Suc off
       then Some (take (Suc off) ?tmp @ take (n - Suc cur) (drop (Suc cur) buf) @ drop (Suc off + (n - Suc cur)) ?tmp, n, True)
       else Some (take (Suc off) ?tmp @ take (64 - Suc off) (drop (Suc cur) buf), Suc cur + (64 - Suc off), False))"
      using Suc by (intro Suc.hyps(1)) auto
    have e: "n - cur = Suc (n - Suc cur)" "64 - off = Suc (64 - Suc off)" using Suc.prems(1) off(1) by simp_all
    have "write_inner buf (int n) tmp off cur = write_inner buf (int n) ?tmp (Suc off) (Suc cur)"
      using False off by (simp add: write_inner.simps [of buf _ tmp off cur] BLOCKSIZE_def Let_def)
    with e d t(1) t(2) [of "n - Suc cur"] off show ?thesis unfolding IH by auto
  qed
qed

text \<open>Taking a block that is free.\<close>

lemma allocDataBlock_free:
  assumes "lists_ok s" "0 < block_table.nfree s"
  obtains b where "b < 30" "\<not> block_busy s b" "ssufs_allocDataBlock s = Some (int b, set_block b DATA_BLOCK_USED s)"
    "lists_ok (set_block b DATA_BLOCK_USED s)" "block_table.nfree s = Suc (block_table.nfree (set_block b DATA_BLOCK_USED s))"
    "\<forall>j<30. block_busy (set_block b DATA_BLOCK_USED s) j \<longleftrightarrow> block_busy s j \<or> j = b"
proof -
  have d: "disk_ok s" using assms(1) by (simp add: lists_ok_def)
  from block_table.claim_iff_nfree [OF assms(1)] assms(2) obtain b s' where
    c: "claimed (ssufs_allocDataBlock s) = Some (b, s')" by auto
  have "ssufs_allocDataBlock s = Some (int b, set_block b DATA_BLOCK_USED s)" "s' = set_block b DATA_BLOCK_USED s"
    using c d by (auto simp: claimed_def allocDataBlock_eq split: option.splits if_splits)
  with block_table.claim_Some [OF assms(1) c] block_table.claim_nfree [OF assms(1) c] show ?thesis
    by (intro that [of b]) auto
qed

lemma set_block_keeps [simp]:
  assumes "disk_ok s"
  shows "disk_ok (set_block b c s)" "j < 8 \<Longrightarrow> INODE (set_block b c s) j = INODE s j"
    "has_data (set_block b c s) e = has_data s e" "has_data s e \<Longrightarrow> DATA (set_block b c s) e = DATA s e"
    "file_handle_array (set_block b c s) = file_handle_array s" "ss_uninit (set_block b c s) = ss_uninit s"
  using assms by (simp_all add: set_block_def sb_ok_upd)

lemma put_data_lists:
  assumes "disk_ok s" "length buf = 64"
  shows "lists_ok (put_data b buf s) = lists_ok s" "block_busy (put_data b buf s) e = block_busy s e"
    "block_table.nfree (put_data b buf s) = block_table.nfree s"
  using assms by (simp_all add: lists_ok_def block_busy_def block_table.nfree_def)

lemma contents_cong: "\<forall>b\<in>set bs. DATA s' b = DATA s b \<Longrightarrow> contents s' bs = contents s bs"
  unfolding contents_def by (intro arg_cong [where f = concat] map_cong) auto

lemma set_handle_keeps [simp]:
  "SB (set_handle h f s) = SB s" "INODE (set_handle h f s) i = INODE s i" "DATA (set_handle h f s) b = DATA s b"
  "has_data (set_handle h f s) b = has_data s b" "disk_ok (set_handle h f s) = disk_ok s"
  "lists_ok (set_handle h f s) = lists_ok s" "block_busy (set_handle h f s) b = block_busy s b"
  by (simp_all add: set_handle_def SB_def INODE_def DATA_def has_data_def disk_ok_def lists_ok_def block_busy_def)

lemma handle_cong: "file_handle_array s' = file_handle_array s \<Longrightarrow> handle h s' = handle h s"
  by (simp add: handle_def)

text \<open>What a write leaves alone: other files, and the blocks in use.\<close>

definition untouched :: "nat \<Rightarrow> ssufs \<Rightarrow> ssufs \<Rightarrow> bool" where
  "untouched fi s s' \<longleftrightarrow> (\<forall>j<8. j \<noteq> fi \<longrightarrow> INODE s' j = INODE s j) \<and>
     (\<forall>b<30. block_busy s b \<longrightarrow> block_busy s' b) \<and>
     (\<forall>b<30. block_busy s b \<longrightarrow> has_data s b \<longrightarrow> has_data s' b \<and> DATA s' b = DATA s b)"

lemma untouched_trans: "untouched fi s s1 \<Longrightarrow> untouched fi s1 s2 \<Longrightarrow> untouched fi s s2"
  unfolding untouched_def by auto

text \<open>A new block at the end of the list, filled with \<open>tmp\<close>.\<close>

lemma fill_new_block:
  assumes "lists_ok s" "block_list s bs db" "length bs < 4" "b < 30" "\<not> block_busy s b" "length tmp = 64"
  defines "s3 \<equiv> put_data b tmp (set_block b DATA_BLOCK_USED s)"
  shows "lists_ok s3" "block_list s3 (bs @ [b]) (db[length bs := word_of_nat b])"
    "contents s3 (bs @ [b]) = contents s bs @ tmp" "untouched fi s s3"
    "file_handle_array s3 = file_handle_array s" "\<forall>j<8. INODE s3 j = INODE s j"
proof -
  let ?s1 = "set_block b DATA_BLOCK_USED s"
  have d: "disk_ok s" "disk_ok ?s1" using assms(1) by (simp_all add: lists_ok_def)
  note p = put_data_lists [OF d(2) assms(6)]
  have busy: "block_busy s3 e \<longleftrightarrow> block_busy s e \<or> e = b" if "e < 30" for e
    using that assms(4) d(1) sb_lengths [OF d(1)] unfolding s3_def p
    by (auto simp: block_busy_def set_block_SB nth_list_update)
  show "lists_ok s3" using set_block_ok [OF assms(1)] by (simp add: s3_def p)
  have data: "has_data s3 e" "DATA s3 e = DATA s e" if "has_data s e" "e \<noteq> b" for e
    using that d assms(6) by (simp_all add: s3_def)
  have bs: "\<forall>e\<in>set bs. e < 30 \<and> has_data s e \<and> block_busy s e \<and> e \<noteq> b"
    using assms(2,5) by (auto simp: block_list_def)
  have "has_data s3 b" using d(2) assms(6) by (simp add: s3_def)
  moreover obtain k where k: "4 - length bs = Suc k" using assms(3) by (cases "4 - length bs") auto
  then have "4 - length (bs @ [b]) = k" by simp
  with k assms(2) have "db[length bs := word_of_nat b] =
      map word_of_nat (bs @ [b]) @ replicate (4 - length (bs @ [b])) (- 1)"
    by (simp add: block_list_def list_update_append)
  ultimately show "block_list s3 (bs @ [b]) (db[length bs := word_of_nat b])"
    using assms(2-5) bs busy data unfolding block_list_def by auto
  have "DATA s3 b = tmp" using d(2) assms(6) by (simp add: s3_def)
  moreover have "contents s3 bs = contents s bs" using bs data by (intro contents_cong) auto
  ultimately show "contents s3 (bs @ [b]) = contents s bs @ tmp" by (simp add: contents_def)
  show "\<forall>j<8. INODE s3 j = INODE s j" "file_handle_array s3 = file_handle_array s"
    using d assms(6) by (simp_all add: s3_def)
  then show "untouched fi s s3" using busy data assms(5) unfolding untouched_def by metis
qed


text \<open>
  The situation at the start of a pass of the write loop that opens a new block: \<open>bs\<close> are
  the blocks so far, \<open>p\<close> is the offset the call started at; and what the call has
  achieved when it returns in \<open>s'\<close>.
\<close>

definition write_ready :: "int \<Rightarrow> filehandle_t \<Rightarrow> nat \<Rightarrow> nat \<Rightarrow> bytes \<Rightarrow> nat \<Rightarrow> nat list \<Rightarrow> wr \<Rightarrow> bool" where
  "write_ready h f fi p buf n bs w \<longleftrightarrow> lists_ok (w_fs w) \<and>
     block_list (w_fs w) bs (direct_blocks (w_inode w)) \<and> length (i_name (w_inode w)) = 8 \<and>
     w_off w = 0 \<and> w_curr w < n \<and> n \<le> length buf \<and> length (w_tmp_buf w) = 64 \<and>
     64 * length bs + (n - w_curr w) \<le> 256 \<and> n - w_curr w \<le> 64 * block_table.nfree (w_fs w) \<and>
     handle h (w_fs w) = Some f \<and> fh_inode_number f = int fi \<and> fh_offset f = int p \<and> fi < 8 \<and>
     i_file_size (w_inode w) = word_of_nat p \<and> p + n \<le> 256"

definition write_done :: "int \<Rightarrow> filehandle_t \<Rightarrow> nat \<Rightarrow> nat \<Rightarrow> bytes \<Rightarrow> nat \<Rightarrow> nat list \<Rightarrow> wr \<Rightarrow> ssufs \<Rightarrow> bool" where
  "write_done h f fi p buf n bs w s' \<longleftrightarrow> lists_ok s' \<and> untouched fi (w_fs w) s' \<and>
     file_handle_array s' = (file_handle_array (w_fs w))[nat h := f\<lparr>fh_offset := int (p + n)\<rparr>] \<and>
     i_file_size (INODE s' fi) = word_of_nat (p + n) \<and>
     (\<exists>bs'. block_list s' bs' (direct_blocks (INODE s' fi)) \<and>
       64 * length bs + (n - w_curr w) \<le> 64 * length bs' \<and>
       take (64 * length bs + (n - w_curr w)) (contents s' bs') =
         contents (w_fs w) bs @ take (n - w_curr w) (drop (w_curr w) buf))"

definition block_bytes :: "bytes \<Rightarrow> nat \<Rightarrow> wr \<Rightarrow> bytes" where
  "block_bytes buf n w = take (n - w_curr w) (take 64 (drop (w_curr w) buf)) @ drop (n - w_curr w) (w_tmp_buf w)"

definition after_block :: "bytes \<Rightarrow> nat \<Rightarrow> nat list \<Rightarrow> nat \<Rightarrow> wr \<Rightarrow> wr" where
  "after_block buf n bs b w = w\<lparr>w_inode := (w_inode w)\<lparr>direct_blocks := (direct_blocks (w_inode w))[length bs := word_of_nat b]\<rparr>,
     w_tmp_buf := replicate BLOCKSIZE 0, w_off := 0, w_curr := w_curr w + 64,
     w_isUsed := (w_isUsed w)[length bs := 1],
     w_fs := put_data b (block_bytes buf n w) (set_block b DATA_BLOCK_USED (w_fs w))\<rparr>"

lemma write_ready_room: "write_ready h f fi p buf n bs w \<Longrightarrow> length bs < 4 \<and> length (block_bytes buf n w) = 64"
  by (auto simp: write_ready_def block_bytes_def block_list_def)

text \<open>One pass of the loop.\<close>

lemma write_loop_pass:
  assumes r: "write_ready h f fi p buf n bs w"
  obtains b where "b < 30" "\<not> block_busy (w_fs w) b"
    "block_table.nfree (w_fs w) = Suc (block_table.nfree (w_fs (after_block buf n bs b w)))"
    "write_loop h (int fi) buf (int n) [length bs..<4] w =
      (let w2 = after_block buf n bs b w in
       if n - w_curr w \<le> 64 then do {
         s4 \<leftarrow> ssufs_writeInode (int fi) ((w_inode w2)\<lparr>i_file_size := word_of_nat (p + n)\<rparr>) (w_fs w2);
         (_, s5) \<leftarrow> ssufs_lseek h (int n) s4;
         Some (0, s5) }
       else write_loop h (int fi) buf (int n) [length (bs @ [b])..<4] w2)"
proof -
  note rd = r [unfolded write_ready_def]
  note lb = write_ready_room [OF r]
  have db: "direct_blocks (w_inode w) ! length bs = - 1" "length (direct_blocks (w_inode w)) = 4"
    using rd lb by (auto simp: block_list_def nth_append)
  have "0 < block_table.nfree (w_fs w)" using rd by (cases "block_table.nfree (w_fs w)") auto
  with rd obtain b where b: "b < 30" "\<not> block_busy (w_fs w) b"
    "ssufs_allocDataBlock (w_fs w) = Some (int b, set_block b DATA_BLOCK_USED (w_fs w))"
    "block_table.nfree (w_fs w) = Suc (block_table.nfree (set_block b DATA_BLOCK_USED (w_fs w)))"
    by (metis allocDataBlock_free)
  let ?s1 = "set_block b DATA_BLOCK_USED (w_fs w)"
  define w1 where "w1 = w\<lparr>w_inode := (w_inode w)\<lparr>direct_blocks := (direct_blocks (w_inode w))[length bs := word_of_nat b]\<rparr>,
    w_fs := ?s1\<rparr>"
  have w1: "block_for (length bs) w = Some (Some w1)" "save_block (length bs) w1 = Some w1"
    "sint (direct_blocks (w_inode w1) ! length bs) = int b"
    using db lb b rd by (simp_all add: block_for_def save_block_def w1_def)
  have up: "[length bs..<4] = length bs # [length (bs @ [b])..<4]" using lb by (simp add: upt_conv_Cons)
  have wr: "write_inner buf (int n) (w_tmp_buf w1) (nat (w_off w1)) (w_curr w1) =
      Some (block_bytes buf n w, if n - w_curr w \<le> 64 then n else w_curr w + 64, n - w_curr w \<le> 64)"
    using write_inner_eq [of n buf "w_curr w" 0 "w_tmp_buf w"] rd by (auto simp: w1_def block_bytes_def min_def)
  have "write_loop h (int fi) buf (int n) [length bs..<4] w =
      (let w2 = after_block buf n bs b w in
       if n - w_curr w \<le> 64 then do {
         s4 \<leftarrow> ssufs_writeInode (int fi) ((w_inode w2)\<lparr>i_file_size := word_of_nat (p + n)\<rparr>) (w_fs w2);
         (_, s5) \<leftarrow> ssufs_lseek h (int n) s4;
         Some (0, s5) }
       else write_loop h (int fi) buf (int n) [length (bs @ [b])..<4] w2)"
    using w1 wr b(1) lb rd unfolding up by (simp add: BLOCKSIZE_def after_block_def) (simp add: w1_def Let_def)
  moreover have "disk_ok ?s1" using rd by (simp add: lists_ok_def)
  ultimately show ?thesis using b lb by (intro that [of b]) (simp_all add: after_block_def put_data_lists)
qed

text \<open>The last pass.\<close>

lemma write_last_pass:
  assumes r: "write_ready h f fi p buf n bs w" and b: "b < 30" "\<not> block_busy (w_fs w) b" and fin: "n - w_curr w \<le> 64"
  defines "w2 \<equiv> after_block buf n bs b w"
  defines "ip \<equiv> (w_inode w2)\<lparr>i_file_size := word_of_nat (p + n)\<rparr>"
  defines "s5 \<equiv> set_handle h (f\<lparr>fh_offset := int (p + n)\<rparr>) (put_inode fi ip (w_fs w2))"
  shows "ssufs_lseek h (int n) (put_inode fi ip (w_fs w2)) = Some (0, s5)" "write_done h f fi p buf n bs w s5"
proof -
  note rd = r [unfolded write_ready_def]
  note lb = write_ready_room [OF r]
  let ?db = "(direct_blocks (w_inode w))[length bs := word_of_nat b]"
  have s3: "lists_ok (w_fs w2)" "block_list (w_fs w2) (bs @ [b]) ?db"
    "contents (w_fs w2) (bs @ [b]) = contents (w_fs w) bs @ block_bytes buf n w" "untouched fi (w_fs w) (w_fs w2)"
    "file_handle_array (w_fs w2) = file_handle_array (w_fs w)"
    using fill_new_block [of "w_fs w" bs "direct_blocks (w_inode w)" b "block_bytes buf n w"] rd lb b
    by (simp_all add: w2_def after_block_def)
  have fi: "fi < 8" using rd by simp
  have ip: "inode_ok ip" "direct_blocks ip = ?db" "i_file_size ip = word_of_nat (p + n)"
    using rd by (auto simp: inode_ok_def ip_def w2_def after_block_def block_list_def)
  have d: "disk_ok (w_fs w2)" using s3(1) by (simp add: lists_ok_def)
  note k = put_inode_keeps [OF d ip(1) fi]
  have "handle h (put_inode fi ip (w_fs w2)) = Some f" using rd s3(5) k(6) by (metis handle_cong)
  then show "ssufs_lseek h (int n) (put_inode fi ip (w_fs w2)) = Some (0, s5)"
    using rd k fi ip(3) by (simp add: ssufs_lseek_def s5_def sint_nat flip: of_nat_add)
  have "block_list s5 (bs @ [b]) (direct_blocks (INODE s5 fi))"
    using s3(2) k fi ip(2) by (simp add: s5_def block_list_def block_busy_def)
  moreover have "contents s5 (bs @ [b]) = contents (w_fs w) bs @ block_bytes buf n w"
    unfolding s3(3) [symmetric] using s3(2) k by (intro contents_cong) (auto simp: s5_def block_list_def)
  moreover have "length (contents (w_fs w) bs) = 64 * length bs"
    using rd by (intro length_contents) (auto simp: block_list_def)
  moreover have "untouched fi (w_fs w2) s5" using k by (simp add: s5_def untouched_def block_busy_def)
  moreover have "lists_ok s5" "INODE s5 fi = ip" using s3(1) k fi by (simp_all add: s5_def lists_ok_def)
  moreover have "file_handle_array s5 = (file_handle_array (w_fs w))[nat h := f\<lparr>fh_offset := int (p + n)\<rparr>]"
    using s3(5) k(6) by (simp add: s5_def set_handle_def)
  moreover have "take (n - w_curr w) (block_bytes buf n w) = take (n - w_curr w) (drop (w_curr w) buf)"
    using fin rd by (auto simp: block_bytes_def min_def)
  ultimately show "write_done h f fi p buf n bs w s5"
    using ip(3) fin untouched_trans [OF s3(4), of s5]
    unfolding write_done_def by (intro conjI exI [of _ "bs @ [b]"]) simp_all
qed

lemma write_next_pass:
  assumes r: "write_ready h f fi p buf n bs w" and b: "b < 30" "\<not> block_busy (w_fs w) b" and more: "\<not> n - w_curr w \<le> 64"
    and nf: "block_table.nfree (w_fs w) = Suc (block_table.nfree (w_fs (after_block buf n bs b w)))"
  shows "write_ready h f fi p buf n (bs @ [b]) (after_block buf n bs b w)"
    "write_done h f fi p buf n (bs @ [b]) (after_block buf n bs b w) s' \<Longrightarrow> write_done h f fi p buf n bs w s'"
proof -
  note rd = r [unfolded write_ready_def]
  note lb = write_ready_room [OF r]
  let ?w2 = "after_block buf n bs b w" and ?db = "(direct_blocks (w_inode w))[length bs := word_of_nat b]"
  have s3: "lists_ok (w_fs ?w2)" "block_list (w_fs ?w2) (bs @ [b]) ?db"
    "contents (w_fs ?w2) (bs @ [b]) = contents (w_fs w) bs @ block_bytes buf n w" "untouched fi (w_fs w) (w_fs ?w2)"
    "file_handle_array (w_fs ?w2) = file_handle_array (w_fs w)"
    using fill_new_block [of "w_fs w" bs "direct_blocks (w_inode w)" b "block_bytes buf n w"] rd lb b
    by (simp_all add: after_block_def)
  have w2: "w_curr ?w2 = w_curr w + 64" "direct_blocks (w_inode ?w2) = ?db" "i_name (w_inode ?w2) = i_name (w_inode w)"
    "i_file_size (w_inode ?w2) = i_file_size (w_inode w)" "w_off ?w2 = 0" "length (w_tmp_buf ?w2) = 64"
    by (simp_all add: after_block_def BLOCKSIZE_def)
  have "handle h (w_fs ?w2) = Some f" using rd handle_cong [OF s3(5)] by simp
  with rd s3(1,2) more nf show "write_ready h f fi p buf n (bs @ [b]) ?w2"
    by (auto simp: write_ready_def w2)
  have "block_bytes buf n w = take 64 (drop (w_curr w) buf)" using more rd by (simp add: block_bytes_def)
  moreover have "take (n - w_curr w) (drop (w_curr w) buf) =
      take 64 (drop (w_curr w) buf) @ take (n - (w_curr w + 64)) (drop (w_curr w + 64) buf)"
    using more take_add [of 64 "n - (w_curr w + 64)" "drop (w_curr w) buf"] by (simp add: add.commute)
  moreover have "64 * length (bs @ [b]) + (n - (w_curr w + 64)) = 64 * length bs + (n - w_curr w)" using more by simp
  ultimately show "write_done h f fi p buf n bs w s'" if "write_done h f fi p buf n (bs @ [b]) ?w2 s'"
    using that s3(3,5) untouched_trans [OF s3(4), of s'] unfolding write_done_def w2 by auto
qed

lemma write_loop_done:
  "write_ready h f fi p buf n bs w \<Longrightarrow>
    \<exists>s'. write_loop h (int fi) buf (int n) [length bs..<4] w = Some (0, s') \<and> write_done h f fi p buf n bs w s'"
proof (induction "4 - length bs" arbitrary: bs w rule: less_induct)
  case less
  from write_loop_pass [OF less.prems] obtain b where b: "b < 30" "\<not> block_busy (w_fs w) b"
    "block_table.nfree (w_fs w) = Suc (block_table.nfree (w_fs (after_block buf n bs b w)))"
    "write_loop h (int fi) buf (int n) [length bs..<4] w =
      (let w2 = after_block buf n bs b w in
       if n - w_curr w \<le> 64 then do {
         s4 \<leftarrow> ssufs_writeInode (int fi) ((w_inode w2)\<lparr>i_file_size := word_of_nat (p + n)\<rparr>) (w_fs w2);
         (_, s5) \<leftarrow> ssufs_lseek h (int n) s4;
         Some (0, s5) }
       else write_loop h (int fi) buf (int n) [length (bs @ [b])..<4] w2)" by blast
  have fi: "fi < 8" using less.prems by (simp add: write_ready_def)
  show ?case
  proof (cases "n - w_curr w \<le> 64")
    case True
    with write_last_pass [OF less.prems b(1,2) True] fi show ?thesis by (simp add: b(4) Let_def)
  next
    case False
    note nx = write_next_pass [OF less.prems b(1,2) False b(3)]
    have "4 - length (bs @ [b]) < 4 - length bs" using write_ready_room [OF less.prems] by auto
    from less.hyps [OF this nx(1)] nx(2) False show ?thesis unfolding b(4) Let_def by auto
  qed
qed

text \<open>The passes before the offset of the handle is reached.\<close>

lemma write_loop_skip:
  assumes "w_off w = int (64 * m)" "m + i \<le> 4"
  shows "write_loop h fi buf nb [i..<4] w = write_loop h fi buf nb [i + m..<4] (w\<lparr>w_off := 0\<rparr>)"
  using assms
proof (induction m arbitrary: i w)
  case 0
  then have "w\<lparr>w_off := 0\<rparr> = w" by simp
  then show ?case by simp
next
  case (Suc m)
  then have "[i..<4] = i # [Suc i..<4]" by (simp add: upt_conv_Cons)
  with Suc.prems Suc.IH [of "w\<lparr>w_off := int (64 * m)\<rparr>" "Suc i"] show ?case
    by (simp add: BLOCKSIZE_def)
qed

lemma block_list_length:
  assumes "block_list s bs (direct_blocks ip)" "block_list s bs' (direct_blocks ip)"
  shows "bs = bs'"
proof -
  have *: "\<forall>b\<in>set bs. (word_of_nat b :: u32) \<noteq> - 1" if "block_list s bs (direct_blocks ip)" for bs
    using that small_block(2) by (auto simp: block_list_def)
  have f: "filter (\<lambda>b. b \<noteq> - 1) (direct_blocks ip) = map word_of_nat bs" if "block_list s bs (direct_blocks ip)" for bs
    using * [OF that] that by (simp add: block_list_def filter_map comp_def)
  have u: "map unat (map (word_of_nat :: nat \<Rightarrow> u32) bs) = bs" if "block_list s bs (direct_blocks ip)" for bs
    using that by (auto simp: block_list_def unat_nat intro!: map_idI)
  from u [OF assms(1)] u [OF assms(2)] f [OF assms(1)] f [OF assms(2)] show ?thesis by metis
qed

text \<open>Every successful write adds its length to the size of the file.\<close>

lemma block_for_inode: "block_for i w = Some (Some w1) \<Longrightarrow> inode_ok (w_inode w) \<Longrightarrow>
    inode_ok (w_inode w1) \<and> i_file_size (w_inode w1) = i_file_size (w_inode w)"
  by (auto simp: block_for_def inode_ok_def Let_def split: if_splits bind_splits)

lemma save_block_inode: "save_block i w = Some w1 \<Longrightarrow> w_inode w1 = w_inode w"
  by (auto simp: save_block_def split: if_splits bind_splits)

lemma INODE_put_inode: "inode_ok ip \<Longrightarrow> INODE (put_inode i ip s) i = ip"
  by (simp add: INODE_def put_inode_def dread_dwrite_same length_inode_bytes inode_of_bytes)

lemma lseek_disk: "ssufs_lseek h k s = Some (r, s') \<Longrightarrow> INODE s' i = INODE s i"
  by (auto simp: ssufs_lseek_def Let_def split: if_splits bind_splits)

lemma write_loop_size:
  "write_loop h (int fi) buf nb is w = Some (0, s') \<Longrightarrow> inode_ok (w_inode w) \<Longrightarrow> fi < 8 \<Longrightarrow>
    i_file_size (INODE s' fi) = i_file_size (w_inode w) + word_of_int nb"
proof (induction "is" arbitrary: w)
  case (Cons i "is")
  show ?case
  proof (cases "0 \<le> w_off w \<and> w_off w < int BLOCKSIZE")
    case True
    with Cons.prems(1) obtain w1 where w1: "block_for i w = Some (Some w1)"
      by (auto split: bind_splits option.splits)
    with True Cons.prems(1) obtain w2 tmp cur fin s3 where
      w2: "save_block i w1 = Some w2"
      "write_inner buf nb (w_tmp_buf w2) (nat (w_off w2)) (w_curr w2) = Some (tmp, cur, fin)"
      "ssufs_writeDataBlock (sint (direct_blocks (w_inode w2) ! i)) tmp (w_fs w2) = Some s3"
      by (auto split: bind_splits)
    have ip: "inode_ok (w_inode w2)" "i_file_size (w_inode w2) = i_file_size (w_inode w)"
      using block_for_inode [OF w1 Cons.prems(2)] save_block_inode [OF w2(1)] by simp_all
    show ?thesis
    proof (cases fin)
      case f: True
      let ?ip = "(w_inode w2)\<lparr>i_file_size := i_file_size (w_inode w2) + word_of_int nb\<rparr>"
      from f True w1 w2 Cons.prems(1,3) obtain r where
        "ssufs_lseek h nb (put_inode fi ?ip s3) = Some (r, s')" by (auto split: bind_splits)
      from lseek_disk [OF this] INODE_put_inode [of ?ip fi s3] ip show ?thesis by (simp add: inode_ok_def)
    next
      case False
      with True w1 w2 Cons.prems(1) show ?thesis
        using Cons.IH [OF _ _ Cons.prems(3), of "w2\<lparr>w_tmp_buf := replicate BLOCKSIZE 0, w_off := 0, w_curr := cur,
          w_isUsed := (w_isUsed w2)[i := 1], w_fs := s3\<rparr>"] ip by simp
    qed
  next
    case False
    with Cons show ?thesis by (auto split: if_splits)
  qed
qed simp

section \<open>Properties\<close>



text \<open>Every successful write adds the number of bytes written to the size of the file, wherever
  the offset is: overwriting bytes inside a file makes it longer than its contents.\<close>

theorem ssufs_overwrite_grows:
  assumes "disk_ok s" "handle h s = Some f" "fh_inode_number f = int fi" "fi < 8"
    "ssufs_write rbi h buf nbytes s = Some (0, s')"
  shows "i_file_size (INODE s' fi) = i_file_size (INODE s fi) + word_of_int nbytes"
  using assms INODE_ok [OF assms(1,4)]
  by (auto simp: ssufs_write_def split: if_splits dest!: write_loop_size)

section \<open>Witnesses\<close>

text \<open>A formatted disk with an empty file at inode 0, open at handle 0.\<close>

definition one_file :: ssufs where
  "one_file = set_handle 0 \<lparr>fh_offset = 0, fh_inode_number = 0\<rparr> (created 0 (fresh_inode blank) formatted)"

abbreviation fh0 :: filehandle_t where "fh0 \<equiv> \<lparr>fh_offset = 0, fh_inode_number = 0\<rparr>"

lemma one_file_ok:
  "lists_ok one_file" "disk_ok one_file" "file_holds one_file 0 []"
  "block_list one_file [] (direct_blocks (INODE one_file 0))" "handle 0 one_file = Some fh0"
  "block_table.nfree one_file = 30"
proof -
  have ok: "inode_ok (fresh_inode blank)" by (simp add: inode_ok_def fresh_inode_def blank_def MAX_FILE_SIZE_def)
  note k = created_keeps [OF formatted_ok(1) ok, of 0]
  have d: "disk_ok formatted" using formatted_ok(1) by (simp add: lists_ok_def)
  then have fa: "file_handle_array (created 0 (fresh_inode blank) formatted) = file_handle_array formatted"
    using ok by simp
  show "lists_ok one_file" "disk_ok one_file" using k(1) by (simp_all add: one_file_def lists_ok_def)
  have i0: "INODE one_file 0 = fresh_inode blank" using k(3) by (simp add: one_file_def)
  then show "block_list one_file [] (direct_blocks (INODE one_file 0))"
    by (simp add: block_list_def fresh_inode_def MAX_FILE_SIZE_def)
  with i0 show "file_holds one_file 0 []"
    by (auto simp: file_holds_def fresh_inode_def intro!: exI [of _ "[]"])
  show "handle 0 one_file = Some fh0"
    using d fa by (simp add: handle_def one_file_def set_handle_def disk_ok_def MAX_OPEN_FILES_def)
  from formatDisk_layout [of blank] formatted_eq have "datablock_freelist (SB formatted) = replicate 30 DATA_BLOCK_FREE"
    by (auto simp: blank_def)
  then have "\<forall>b<30. \<not> block_busy one_file b"
    using d ok by (simp add: one_file_def block_busy_def set_inode_used_SB)
  then have "{b. b < 30 \<and> \<not> block_busy one_file b} = {..<30}" by auto
  then show "block_table.nfree one_file = 30" by (simp add: block_table.nfree_def)
qed



theorem ssufs_overwrite_grows_witness:
  "\<exists>s'. ssufs_write 0 0 [104, 105] (int 2) one_file = Some (0, s') \<and>
     i_file_size (INODE s' 0) = i_file_size (INODE one_file 0) + word_of_int (int 2)"
proof -
  from write_loop_done [of 0 fh0 0 0 "[104, 105]" 2 "[]" "\<lparr>w_inode = INODE one_file 0, w_tmp_buf = ss_uninit one_file,
      w_rollback = ss_uninit one_file, w_rollback_index = 0, w_isUsed = replicate MAX_FILE_SIZE (- 1), w_off = 0,
      w_curr = 0, w_fs = one_file\<rparr>"] one_file_ok INODE_ok [OF one_file_ok(2), of 0]
  obtain s' where "write_loop 0 (int 0) [104, 105] (int 2) [0..<4] \<lparr>w_inode = INODE one_file 0, w_tmp_buf = ss_uninit one_file,
      w_rollback = ss_uninit one_file, w_rollback_index = 0, w_isUsed = replicate MAX_FILE_SIZE (- 1), w_off = 0,
      w_curr = 0, w_fs = one_file\<rparr> = Some (0, s')"
    by (auto simp: write_ready_def disk_ok_def inode_ok_def file_holds_def)
  moreover have "sint (i_file_size (INODE one_file 0)) = 0" using one_file_ok(3) by (simp add: file_holds_def)
  ultimately have w: "ssufs_write 0 0 [104, 105] (int 2) one_file = Some (0, s')"
    using one_file_ok(2,5) readInode [OF one_file_ok(2), of 0]
    by (simp add: ssufs_write_def MAX_FILE_SIZE_def BLOCKSIZE_def)
  from ssufs_overwrite_grows [OF one_file_ok(2,5) _ _ w, of 0] w show ?thesis by auto
qed

end
