(* ===== verification/Xv6_String.thy ===== *)
theory Xv6_String
  imports Byte_Store
begin

text \<open>
  The byte and string routines of the kernel, \<^verbatim>\<open>hw3/xv6/string.c\<close>, over a byte memory.
  Addresses are natural numbers; the loops are recursions on the counter.
\<close>

type_synonym memory = "nat \<Rightarrow> byte"

section \<open>Filling, comparing and moving bytes\<close>

text \<open>The string instructions of \<^verbatim>\<open>x86.h\<close>: store a byte, or a 32-bit word, \<open>n\<close> times.\<close>

primrec stosb :: "nat \<Rightarrow> byte \<Rightarrow> nat \<Rightarrow> memory \<Rightarrow> memory" where
  "stosb dst c 0 m = m"
| "stosb dst c (Suc n) m = stosb (dst + 1) c n (m(dst := c))"

definition put32 :: "nat \<Rightarrow> u32 \<Rightarrow> memory \<Rightarrow> memory" where
  "put32 a w m = m(a := le32 w ! 0, a + 1 := le32 w ! 1, a + 2 := le32 w ! 2, a + 3 := le32 w ! 3)"

primrec stosl :: "nat \<Rightarrow> u32 \<Rightarrow> nat \<Rightarrow> memory \<Rightarrow> memory" where
  "stosl dst w 0 m = m"
| "stosl dst w (Suc n) m = stosl (dst + 4) w n (put32 dst w m)"

definition memset :: "nat \<Rightarrow> u32 \<Rightarrow> nat \<Rightarrow> memory \<Rightarrow> memory" where
  "memset dst c n m =
     (if dst mod 4 = 0 \<and> n mod 4 = 0 then
        let c = c AND 0xFF in
        stosl dst (push_bit 24 c OR push_bit 16 c OR push_bit 8 c OR c) (n div 4) m
      else stosb dst (ucast c) n m)"

primrec memcmp :: "nat \<Rightarrow> nat \<Rightarrow> nat \<Rightarrow> memory \<Rightarrow> int" where
  "memcmp s1 s2 0 m = 0"
| "memcmp s1 s2 (Suc n) m =
     (if m s1 \<noteq> m s2 then uint (m s1) - uint (m s2) else memcmp (s1 + 1) (s2 + 1) n m)"

primrec move_up :: "nat \<Rightarrow> nat \<Rightarrow> nat \<Rightarrow> memory \<Rightarrow> memory" where
  "move_up d s 0 m = m"
| "move_up d s (Suc n) m = move_up (d + 1) (s + 1) n (m(d := m s))"

text \<open>The loop that runs downwards, with \<open>d\<close> and \<open>s\<close> behind the last byte still to be moved.\<close>

primrec move_down :: "nat \<Rightarrow> nat \<Rightarrow> nat \<Rightarrow> memory \<Rightarrow> memory" where
  "move_down d s 0 m = m"
| "move_down d s (Suc n) m = move_down (d - 1) (s - 1) n (m(d - 1 := m (s - 1)))"

definition memmove :: "nat \<Rightarrow> nat \<Rightarrow> nat \<Rightarrow> memory \<Rightarrow> memory" where
  "memmove dst src n m =
     (if src < dst \<and> src + n > dst then move_down (dst + n) (src + n) n m else move_up dst src n m)"

definition memcpy :: "nat \<Rightarrow> nat \<Rightarrow> nat \<Rightarrow> memory \<Rightarrow> memory" where
  "memcpy dst src n m = memmove dst src n m"

section \<open>Strings\<close>

primrec strncmp :: "nat \<Rightarrow> nat \<Rightarrow> nat \<Rightarrow> memory \<Rightarrow> int" where
  "strncmp p q 0 m = 0"
| "strncmp p q (Suc n) m =
     (if m p \<noteq> 0 \<and> m p = m q then strncmp (p + 1) (q + 1) n m else uint (m p) - uint (m q))"

text \<open>
  The first loop of \<^verbatim>\<open>strncpy\<close> copies until it has copied a NUL, the second fills the rest
  with NULs.
\<close>

primrec strncpy :: "nat \<Rightarrow> nat \<Rightarrow> nat \<Rightarrow> memory \<Rightarrow> memory" where
  "strncpy s t 0 m = m"
| "strncpy s t (Suc n) m =
     (let m1 = m(s := m t) in if m t \<noteq> 0 then strncpy (s + 1) (t + 1) n m1 else stosb (s + 1) 0 n m1)"

text \<open>\<open>safestrcpy_loop s t k\<close> is the loop with \<open>k\<close> more bytes allowed before the final NUL.\<close>

primrec safestrcpy_loop :: "nat \<Rightarrow> nat \<Rightarrow> nat \<Rightarrow> memory \<Rightarrow> memory" where
  "safestrcpy_loop s t 0 m = m(s := 0)"
| "safestrcpy_loop s t (Suc k) m =
     (let m1 = m(s := m t) in if m t \<noteq> 0 then safestrcpy_loop (s + 1) (t + 1) k m1 else m1(s + 1 := 0))"

definition safestrcpy :: "nat \<Rightarrow> nat \<Rightarrow> int \<Rightarrow> memory \<Rightarrow> memory" where
  "safestrcpy s t n m = (if n \<le> 0 then m else safestrcpy_loop s t (nat n - 1) m)"

partial_function (option) strlen_from :: "nat \<Rightarrow> nat \<Rightarrow> memory \<Rightarrow> nat option" where
  "strlen_from s n m = (if m (s + n) \<noteq> 0 then strlen_from s (n + 1) m else Some n)"

definition strlen :: "nat \<Rightarrow> memory \<Rightarrow> nat option" where
  "strlen s m = strlen_from s 0 m"

section \<open>What they compute\<close>

text \<open>The bytes \<open>a\<close> to \<open>a + n - 1\<close> of a memory.\<close>

definition region :: "memory \<Rightarrow> nat \<Rightarrow> nat \<Rightarrow> bytes" where
  "region m a n = map m [a..<a + n]"

lemma stosb_eq: "stosb dst c n m = (\<lambda>a. if dst \<le> a \<and> a < dst + n then c else m a)"
  by (induction n arbitrary: dst m) (auto simp: fun_eq_iff)

lemma stosl_bytes:
  assumes "\<And>k. k < 4 \<Longrightarrow> le32 w ! k = c"
  shows "stosl dst w n m = (\<lambda>a. if dst \<le> a \<and> a < dst + 4 * n then c else m a)"
proof (induction n arbitrary: dst m)
  case (Suc n)
  have "put32 dst w m = (\<lambda>a. if dst \<le> a \<and> a < dst + 4 then c else m a)"
    using assms [of 0] assms [of 1] assms [of 2] assms [of 3] by (auto simp: put32_def fun_eq_iff)
  with Suc show ?case by (auto simp: fun_eq_iff)
qed (auto simp: fun_eq_iff)

lemma le32_nth: "k < 4 \<Longrightarrow> le32 w ! k = ucast (drop_bit (8 * k) w)"
  by (auto simp: le32_def less_Suc_eq numeral_eq_Suc)

lemma spread_byte:
  fixes c :: u32
  assumes "k < 4"
  defines "b \<equiv> c AND 0xFF"
  shows "le32 (push_bit 24 b OR push_bit 16 b OR push_bit 8 b OR b) ! k = ucast c"
proof -
  define w where "w = (push_bit 24 b OR push_bit 16 b OR push_bit 8 b OR b)"
  have ff: "(0xFF :: u32) = mask 8" by (simp add: mask_eq_exp_minus_1)
  have b: "bit b n \<longleftrightarrow> bit c n \<and> n < 8" for n
    unfolding b_def ff by (auto simp: bit_simps dest: bit_imp_le_length)
  have w: "bit w (8 * k + j) \<longleftrightarrow> bit c j" if "j < 8" for j
  proof -
    from assms(1) consider "k = 0" | "k = 1" | "k = 2" | "k = 3" by linarith
    then show ?thesis using that by cases (auto simp: w_def bit_or_iff bit_push_bit_iff b possible_bit_def)
  qed
  show ?thesis
    unfolding w_def [symmetric] le32_nth [OF assms(1)]
    by (rule bit_word_eqI) (simp add: bit_ucast_iff bit_drop_bit_eq w)
qed

lemma memset_eq: "memset dst c n m = (\<lambda>a. if dst \<le> a \<and> a < dst + n then ucast c else m a)"
proof (cases "dst mod 4 = 0 \<and> n mod 4 = 0")
  case True
  then have "4 * (n div 4) = n" by auto
  let ?b = "c AND 0xFF"
  have "stosl dst (push_bit 24 ?b OR push_bit 16 ?b OR push_bit 8 ?b OR ?b) (n div 4) m =
      (\<lambda>a. if dst \<le> a \<and> a < dst + 4 * (n div 4) then ucast c else m a)"
    by (rule stosl_bytes) (rule spread_byte)
  with True \<open>4 * (n div 4) = n\<close> show ?thesis by (simp add: memset_def Let_def)
qed (auto simp: memset_def stosb_eq)

lemma move_up_eq:
  "d \<le> s \<or> s + n \<le> d \<Longrightarrow> move_up d s n m = (\<lambda>a. if d \<le> a \<and> a < d + n then m (s + (a - d)) else m a)"
proof (induction n arbitrary: d s m)
  case (Suc n)
  have IH: "move_up (Suc d) (Suc s) n (m(d := m s)) =
      (\<lambda>a. if Suc d \<le> a \<and> a < Suc d + n then (m(d := m s)) (Suc s + (a - Suc d)) else (m(d := m s)) a)"
    using Suc.prems by (intro Suc.IH) auto
  show ?case
  proof (rule ext)
    fix a
    show "move_up d s (Suc n) m a = (if d \<le> a \<and> a < d + Suc n then m (s + (a - d)) else m a)"
      using Suc.prems by (cases "a = d") (auto simp: IH Suc_diff_Suc Suc_diff_le)
  qed
qed (auto simp: fun_eq_iff)

lemma move_down_eq:
  "s \<le> d \<Longrightarrow> move_down (d + n) (s + n) n m = (\<lambda>a. if d \<le> a \<and> a < d + n then m (s + (a - d)) else m a)"
proof (induction n arbitrary: m)
  case (Suc n)
  have "move_down (d + Suc n) (s + Suc n) (Suc n) m = move_down (d + n) (s + n) n (m(d + n := m (s + n)))" by simp
  also have "\<dots> = (\<lambda>a. if d \<le> a \<and> a < d + n then (m(d + n := m (s + n))) (s + (a - d)) else (m(d + n := m (s + n))) a)"
    using Suc by simp
  finally show ?case using Suc.prems by (auto simp: fun_eq_iff less_Suc_eq)
qed (auto simp: fun_eq_iff)

lemma strlen_from_eq:
  "m (s + n + k) = 0 \<Longrightarrow> \<forall>j<k. m (s + n + j) \<noteq> 0 \<Longrightarrow> strlen_from s n m = Some (n + k)"
proof (induction k arbitrary: n)
  case 0
  then show ?case by (simp add: strlen_from.simps)
next
  case (Suc k)
  have "m (s + n) \<noteq> 0" using Suc.prems(2) by (metis add.right_neutral zero_less_Suc)
  moreover have "\<forall>j<k. m (s + (n + 1) + j) \<noteq> 0" using Suc.prems(2) by (metis Suc_less_eq add.assoc plus_1_eq_Suc)
  ultimately show ?case using Suc.IH [of "n + 1"] Suc.prems(1) by (subst strlen_from.simps) simp
qed

text \<open>A string at \<open>t\<close>: its bytes, none of them NUL, and a NUL behind them.\<close>

definition string_at :: "memory \<Rightarrow> nat \<Rightarrow> bytes \<Rightarrow> bool" where
  "string_at m t str \<longleftrightarrow> region m t (length str) = str \<and> 0 \<notin> set str \<and> m (t + length str) = 0"

lemma region_Cons: "region m a (Suc n) = m a # region m (a + 1) n"
  by (simp add: region_def upt_rec)

lemma string_at_Cons: "string_at m t (c # str) \<longleftrightarrow> m t = c \<and> c \<noteq> 0 \<and> string_at m (t + 1) str"
  by (auto simp: string_at_def region_Cons)

lemma region_cong: "\<forall>x. a \<le> x \<longrightarrow> x < a + n \<longrightarrow> m x = m' x \<Longrightarrow> region m a n = region m' a n"
  by (auto simp: region_def)

lemma string_at_cong:
  "string_at m t str \<Longrightarrow> \<forall>x. t \<le> x \<longrightarrow> x \<le> t + length str \<longrightarrow> m' x = m x \<Longrightarrow> string_at m' t str"
  using region_cong [of t "length str" m m'] by (auto simp: string_at_def)

lemma safestrcpy_loop_eq:
  assumes "string_at m t str" "s + k < t \<or> t + length str < s"
  shows "string_at (safestrcpy_loop s t k m) s (take k str) \<and>
    (\<forall>a. a < s \<or> s + k < a \<longrightarrow> safestrcpy_loop s t k m a = m a)"
  using assms
proof (induction k arbitrary: s t str m)
  case 0
  then show ?case by (simp add: string_at_def region_def)
next
  case (Suc k)
  show ?case
  proof (cases str)
    case Nil
    with Suc.prems(1) show ?thesis by (simp add: string_at_def region_def)
  next
    case (Cons c str')
    have c: "m t = c" "c \<noteq> 0" "string_at m (t + 1) str'" using Suc.prems(1) Cons by (auto simp: string_at_Cons)
    define m1 where "m1 = m(s := c)"
    define m2 where "m2 = safestrcpy_loop (s + 1) (t + 1) k m1"
    have "string_at m1 (t + 1) str'"
      using c(3) Suc.prems(2) Cons by (intro string_at_cong [OF c(3)]) (auto simp: m1_def)
    from Suc.IH [OF this, of "s + 1"] Suc.prems(2) Cons
    have IH: "string_at m2 (s + 1) (take k str')" "\<And>a. a < s + 1 \<or> s + 1 + k < a \<Longrightarrow> m2 a = m1 a"
      by (auto simp: m2_def)
    have "safestrcpy_loop s t (Suc k) m = m2" using c by (simp add: m1_def m2_def Let_def)
    moreover have "m2 s = c" using IH(2) [of s] by (simp add: m1_def)
    moreover have "m2 a = m a" if "a < s \<or> s + Suc k < a" for a using IH(2) [of a] that by (auto simp: m1_def)
    ultimately show ?thesis using IH(1) c Cons by (simp add: string_at_Cons)
  qed
qed

lemma strncmp_string:
  assumes "string_at m p s" "string_at m q t"
  shows "strncmp p q n m = 0 \<longleftrightarrow> take n s = take n t"
  using assms
proof (induction n arbitrary: p q s t)
  case (Suc n)
  show ?case
  proof (cases s)
    case s: Nil
    then have "m p = 0" using Suc.prems(1) by (simp add: string_at_def)
    moreover have "m q = 0 \<longleftrightarrow> t = []"
      using Suc.prems(2) by (cases t) (auto simp: string_at_Cons, simp add: string_at_def)
    ultimately show ?thesis using s by (auto simp: unsigned_eq_0_iff)
  next
    case s: (Cons a s')
    then have a: "m p = a" "a \<noteq> 0" "string_at m (p + 1) s'" using Suc.prems(1) by (simp_all add: string_at_Cons)
    show ?thesis
    proof (cases t)
      case Nil
      then have "m q = 0" using Suc.prems(2) by (simp add: string_at_def)
      with s a Nil show ?thesis by (simp add: uint_0_iff)
    next
      case (Cons b t')
      with Suc.prems(2) have "m q = b" "string_at m (q + 1) t'" by (simp_all add: string_at_Cons)
      with Suc.IH [OF a(3)] s a Cons show ?thesis by (auto dest: word_uint_eqI)
    qed
  qed
qed simp

lemma memmove_eq:
  "memmove dst src n m = (\<lambda>a. if dst \<le> a \<and> a < dst + n then m (src + (a - dst)) else m a)"
proof (cases "src < dst \<and> src + n > dst")
  case True
  then show ?thesis using move_down_eq [of src dst n m] by (simp add: memmove_def)
next
  case False
  then show ?thesis using move_up_eq [of dst src n m] by (auto simp: memmove_def not_less)
qed

section \<open>Properties\<close>

text \<open>C36. \<^verbatim>\<open>memmove\<close> copies correctly also when source and destination overlap: afterwards every
  destination byte has the value its source byte had before the call, and no other byte has changed.\<close>

theorem memmove_overlap:
  "memmove dst src n m = (\<lambda>a. if dst \<le> a \<and> a < dst + n then m (src + (a - dst)) else m a)"
  by (rule memmove_eq)

text \<open>\<^verbatim>\<open>safestrcpy\<close> into a buffer of \<open>n\<close> bytes that does not overlap the source leaves a
  terminated string there, the first \<open>n - 1\<close> characters of the source, and changes nothing outside the
  buffer.\<close>

theorem safestrcpy_terminates:
  assumes "string_at m t str" "0 < n" "s + n \<le> t \<or> t + length str < s"
  shows "string_at (safestrcpy s t (int n) m) s (take (n - 1) str) \<and>
    (\<forall>a. a < s \<or> s + n \<le> a \<longrightarrow> safestrcpy s t (int n) m a = m a)"
  using safestrcpy_loop_eq [OF assms(1), of s "n - 1"] assms(2,3) by (auto simp: safestrcpy_def)

section \<open>Witnesses\<close>

theorem safestrcpy_terminates_witness:
  "\<exists>m. string_at m 100 [104, 105] \<and> string_at (safestrcpy 0 100 (int 2) m) 0 [104]"
proof -
  let ?m = "(\<lambda>a. 0)(100 := 104, 101 := 105 :: byte)"
  have "string_at ?m 100 [104, 105]" by (simp add: string_at_def region_def upt_rec)
  with safestrcpy_terminates [OF this, of 2 0] show ?thesis by auto
qed

end
