(* ===== verification/Xv6_Kalloc.thy ===== *)
theory Xv6_Kalloc
  imports Xv6_String
begin

text \<open>
  The kernel's physical page allocator, \<^verbatim>\<open>hw3/xv6/kalloc.c\<close>. The memory is the byte memory of
  \<^verbatim>\<open>Xv6_String\<close>, indexed by kernel virtual addresses; the free list runs through the free pages
  themselves, so that a page that is handed out is also the page whose first word is read to find
  the next one. The addresses \<^verbatim>\<open>end\<close> and \<^verbatim>\<open>data\<close> come from the linker and are fields of the state
  that no operation changes. The spin lock is not part of this theory: every operation is one step.
\<close>

section \<open>Words in memory\<close>

definition get32 :: "memory \<Rightarrow> nat \<Rightarrow> u32" where
  "get32 m a = de32 (region m a 4)"

lemma region4: "region m a 4 = [m a, m (a + 1), m (a + 2), m (a + 3)]"
  by (simp add: region_def upt_rec numeral_eq_Suc)

lemma put32_eq: "put32 a w m = (\<lambda>x. if a \<le> x \<and> x < a + 4 then le32 w ! (x - a) else m x)"
  by (rule ext) (auto simp: put32_def le_less_Suc_eq numeral_eq_Suc less_Suc_eq)

lemma get32_put32 [simp]: "get32 (put32 a w m) a = w"
proof -
  have "region (put32 a w m) a 4 = le32 w"
    by (simp add: region4 put32_def le32_def)
  then show ?thesis by (simp add: get32_def)
qed

lemma get32_cong: "(\<And>x. a \<le> x \<Longrightarrow> x < a + 4 \<Longrightarrow> m x = m' x) \<Longrightarrow> get32 m a = get32 m' a"
  by (simp add: get32_def region4)

lemma get32_put32_other: "a + 4 \<le> b \<or> b + 4 \<le> a \<Longrightarrow> get32 (put32 a w m) b = get32 m b"
  by (rule get32_cong) (auto simp: put32_eq)

lemma get32_memset_other: "a + n \<le> b \<or> b + 4 \<le> a \<Longrightarrow> get32 (memset a c n m) b = get32 m b"
  by (rule get32_cong) (auto simp: memset_eq)

lemma get32_memset_zero:
  assumes "a \<le> b" "b + 4 \<le> a + n"
  shows "get32 (memset a 0 n m) b = 0"
  using assms by (simp add: get32_def region4 memset_eq de32_def)

section \<open>Pages\<close>

definition PGSIZE :: nat where "PGSIZE = 4096"
definition KERNBASE :: nat where "KERNBASE = 0x80000000"
definition PHYSTOP :: nat where "PHYSTOP = 0xE000000"

text \<open>Pointers are 32-bit numbers: both conversions wrap.\<close>

definition V2P :: "nat \<Rightarrow> nat" where "V2P a = (a + 0x100000000 - KERNBASE) mod 0x100000000"
definition P2V :: "nat \<Rightarrow> nat" where "P2V a = (a + KERNBASE) mod 0x100000000"
definition PGROUNDUP :: "nat \<Rightarrow> nat" where "PGROUNDUP a = (a + PGSIZE - 1) div PGSIZE * PGSIZE"
definition PGROUNDDOWN :: "nat \<Rightarrow> nat" where "PGROUNDDOWN a = a div PGSIZE * PGSIZE"

section \<open>The allocator\<close>

record kmem =
  mem :: memory
  freelist :: nat
  use_lock :: bool
  end_sym :: nat
  data_sym :: nat

definition kfree :: "nat \<Rightarrow> kmem \<Rightarrow> kmem option" where
  "kfree v k =
     (if v mod PGSIZE \<noteq> 0 \<or> v < end_sym k \<or> V2P v \<ge> PHYSTOP then None
      else
        let m = memset v 1 PGSIZE (mem k);
            m = put32 v (word_of_nat (freelist k)) m
        in Some (k\<lparr>mem := m, freelist := v\<rparr>))"

definition kalloc :: "kmem \<Rightarrow> nat \<times> kmem" where
  "kalloc k =
     (let r = freelist k in
      if r \<noteq> 0 then (r, k\<lparr>freelist := unat (get32 (mem k) r)\<rparr>) else (r, k))"

function free_pages :: "nat \<Rightarrow> nat \<Rightarrow> kmem \<Rightarrow> kmem option" where
  "free_pages p vend k =
     (if p + PGSIZE \<le> vend then (case kfree p k of None \<Rightarrow> None | Some k1 \<Rightarrow> free_pages (p + PGSIZE) vend k1)
      else Some k)"
  by auto
termination by (relation "measure (\<lambda>(p, vend, k). vend - p)") (auto simp: PGSIZE_def)

declare free_pages.simps [simp del]

definition freerange :: "nat \<Rightarrow> nat \<Rightarrow> kmem \<Rightarrow> kmem option" where
  "freerange vstart vend k = free_pages (PGROUNDUP vstart) vend k"

definition kinit1 :: "nat \<Rightarrow> nat \<Rightarrow> kmem \<Rightarrow> kmem option" where
  "kinit1 vstart vend k = freerange vstart vend (k\<lparr>use_lock := False\<rparr>)"

definition kinit2 :: "nat \<Rightarrow> nat \<Rightarrow> kmem \<Rightarrow> kmem option" where
  "kinit2 vstart vend k = map_option (\<lambda>k. k\<lparr>use_lock := True\<rparr>) (freerange vstart vend k)"

section \<open>The free list\<close>

text \<open>A page that may be on the list, and the list that starts at an address.\<close>

definition page_ok :: "nat \<Rightarrow> nat \<Rightarrow> bool" where
  "page_ok e p \<longleftrightarrow> p mod PGSIZE = 0 \<and> e \<le> p \<and> V2P p < PHYSTOP \<and> p < 0x100000000"

primrec chain :: "memory \<Rightarrow> nat \<Rightarrow> nat list \<Rightarrow> bool" where
  "chain m h [] \<longleftrightarrow> h = 0"
| "chain m h (p # ps) \<longleftrightarrow> h = p \<and> chain m (unat (get32 m p)) ps"

text \<open>The pages \<open>ps\<close> are free, in this order; the kernel lies above \<^verbatim>\<open>KERNBASE\<close>.\<close>

definition kmem_ok :: "kmem \<Rightarrow> nat list \<Rightarrow> bool" where
  "kmem_ok k ps \<longleftrightarrow> KERNBASE < end_sym k \<and> chain (mem k) (freelist k) ps \<and> distinct ps \<and>
     (\<forall>p\<in>set ps. page_ok (end_sym k) p)"

lemma page_range:
  assumes "page_ok e p" "KERNBASE < e"
  shows "KERNBASE < p" "p < KERNBASE + PHYSTOP" "V2P p = p - KERNBASE" "P2V (V2P p) = p"
proof -
  have p: "KERNBASE < p" "p < 0x100000000" using assms by (auto simp: page_ok_def)
  then have v: "V2P p = p - KERNBASE" by (auto simp: V2P_def KERNBASE_def mod_if)
  with p assms show "KERNBASE < p" "p < KERNBASE + PHYSTOP" "V2P p = p - KERNBASE" "P2V (V2P p) = p"
    by (auto simp: page_ok_def P2V_def)
qed

lemma page_top:
  assumes "page_ok e p" "KERNBASE < e"
  shows "p + PGSIZE \<le> KERNBASE + PHYSTOP"
proof -
  from assms obtain q where q: "p = PGSIZE * q" by (auto simp: page_ok_def mod_eq_0_iff_dvd dvd_def)
  from page_range(2) [OF assms] show ?thesis by (simp add: q PGSIZE_def KERNBASE_def PHYSTOP_def)
qed

lemma pages_apart:
  assumes "p mod PGSIZE = 0" "q mod PGSIZE = 0" "p \<noteq> q"
  shows "p + PGSIZE \<le> q \<or> q + PGSIZE \<le> p"
proof -
  from assms obtain i j where ij: "p = PGSIZE * i" "q = PGSIZE * j" by (auto simp: mod_eq_0_iff_dvd dvd_def)
  with assms(3) have "i < j \<or> j < i" by auto
  then have "Suc i \<le> j \<or> Suc j \<le> i" by auto
  then have "PGSIZE * Suc i \<le> PGSIZE * j \<or> PGSIZE * Suc j \<le> PGSIZE * i" by (meson mult_le_mono2)
  then show ?thesis by (simp add: ij add.commute)
qed

lemma chain_cong:
  "(\<And>p. p \<in> set ps \<Longrightarrow> get32 m p = get32 m' p) \<Longrightarrow> chain m h ps = chain m' h ps"
  by (induction ps arbitrary: h) auto

lemma kalloc_Nil: "kmem_ok k [] \<Longrightarrow> kalloc k = (0, k)"
  by (simp add: kmem_ok_def kalloc_def)

lemma kalloc_Cons:
  assumes "kmem_ok k (p # ps)"
  shows "kalloc k = (p, k\<lparr>freelist := unat (get32 (mem k) p)\<rparr>)"
    "kmem_ok (k\<lparr>freelist := unat (get32 (mem k) p)\<rparr>) ps" "page_ok (end_sym k) p" "p \<notin> set ps" "p \<noteq> 0"
proof -
  from assms have p: "page_ok (end_sym k) p" "KERNBASE < end_sym k" by (auto simp: kmem_ok_def)
  from page_range(1) [OF p] show "p \<noteq> 0" by simp
  with assms show "kalloc k = (p, k\<lparr>freelist := unat (get32 (mem k) p)\<rparr>)"
    "kmem_ok (k\<lparr>freelist := unat (get32 (mem k) p)\<rparr>) ps" "page_ok (end_sym k) p" "p \<notin> set ps"
    by (auto simp: kmem_ok_def kalloc_def)
qed

text \<open>What happens to the bytes of a freed page.\<close>

lemma kfree_Some:
  assumes "kmem_ok k ps" "page_ok (end_sym k) v" "v \<notin> set ps"
  shows "\<exists>k'. kfree v k = Some k' \<and> kmem_ok k' (v # ps) \<and> end_sym k' = end_sym k \<and> data_sym k' = data_sym k \<and>
    use_lock k' = use_lock k \<and> (\<forall>x. x < v \<or> v + PGSIZE \<le> x \<longrightarrow> mem k' x = mem k x)"
proof -
  let ?m = "put32 v (word_of_nat (freelist k)) (memset v 1 PGSIZE (mem k))"
  have v: "v mod PGSIZE = 0" "end_sym k \<le> v" "V2P v < PHYSTOP" using assms(2) by (auto simp: page_ok_def)
  have other: "?m x = mem k x" if "x < v \<or> v + PGSIZE \<le> x" for x
    using that by (auto simp: put32_eq memset_eq PGSIZE_def)
  have "get32 ?m p = get32 (mem k) p" if "p \<in> set ps" for p
  proof (rule get32_cong, rule other)
    fix x assume x: "p \<le> x" "x < p + 4"
    have "p mod PGSIZE = 0" "p \<noteq> v" using that assms(1,3) by (auto simp: kmem_ok_def page_ok_def)
    from pages_apart [OF this(1) v(1) this(2)] x show "x < v \<or> v + PGSIZE \<le> x" by (auto simp: PGSIZE_def)
  qed
  then have "chain ?m (freelist k) ps" using assms(1) chain_cong [of ps ?m "mem k"] by (simp add: kmem_ok_def)
  moreover have "freelist k < 2 ^ 32"
    using assms(1) by (cases ps) (auto simp: kmem_ok_def page_ok_def)
  ultimately have "kmem_ok (k\<lparr>mem := ?m, freelist := v\<rparr>) (v # ps)"
    using assms by (simp add: kmem_ok_def unat_of_nat take_bit_eq_mod)
  moreover have "kfree v k = Some (k\<lparr>mem := ?m, freelist := v\<rparr>)" using v by (simp add: kfree_def Let_def)
  ultimately show ?thesis using other by simp
qed

section \<open>What a client relies on\<close>

text \<open>
  The contract of a pool of pages: \<open>ok s ps\<close> says that \<open>ps\<close> are the free pages. A client that gives
  back only what it got is served forever, and never holds a page twice.
\<close>

datatype page_req = Get_page | Put_page nat

fun pool_run :: "('s \<Rightarrow> nat \<times> 's) \<Rightarrow> (nat \<Rightarrow> 's \<Rightarrow> 's option) \<Rightarrow> page_req list \<Rightarrow> nat list \<Rightarrow> 's \<Rightarrow>
    (nat list \<times> 's) option" where
  "pool_run get put [] held s = Some (held, s)"
| "pool_run get put (Get_page # rs) held s =
     (let (p, s1) = get s in pool_run get put rs (if p = 0 then held else p # held) s1)"
| "pool_run get put (Put_page i # rs) held s =
     (if i < length held then
        (case put (held ! i) s of None \<Rightarrow> None
         | Some s1 \<Rightarrow> pool_run get put rs (take i held @ drop (Suc i) held) s1)
      else pool_run get put rs held s)"

locale page_pool =
  fixes ok :: "'s \<Rightarrow> nat list \<Rightarrow> bool"
    and page :: "'s \<Rightarrow> nat \<Rightarrow> bool"
    and get :: "'s \<Rightarrow> nat \<times> 's"
    and put :: "nat \<Rightarrow> 's \<Rightarrow> 's option"
  assumes get_empty: "ok s [] \<Longrightarrow> get s = (0, s)"
    and get_page: "ok s (p # ps) \<Longrightarrow>
      \<exists>s'. get s = (p, s') \<and> ok s' ps \<and> page s p \<and> p \<notin> set ps \<and> p \<noteq> 0 \<and> page s' = page s"
    and put_page: "ok s ps \<Longrightarrow> page s v \<Longrightarrow> v \<notin> set ps \<Longrightarrow>
      \<exists>s'. put v s = Some s' \<and> ok s' (v # ps) \<and> page s' = page s"
begin

lemma pool_run_ok:
  assumes "ok s ps" "distinct (held @ ps)" "\<forall>p\<in>set held. page s p"
  shows "\<exists>held' s' ps'. pool_run get put rs held s = Some (held', s') \<and> ok s' ps' \<and>
    distinct (held' @ ps') \<and> set (held' @ ps') = set (held @ ps) \<and> (\<forall>p\<in>set held'. page s' p)"
  using assms
proof (induction rs arbitrary: held s ps)
  case (Cons r rs)
  show ?case
  proof (cases r)
    case Get_page
    show ?thesis
    proof (cases ps)
      case Nil
      with Cons.prems Get_page get_empty [of s] Cons.IH [of s ps held] show ?thesis by simp
    next
      case (Cons p ps1)
      with Cons.prems(1) get_page [of s p ps1] obtain s1 where
        g: "get s = (p, s1)" "ok s1 ps1" "page s p" "p \<notin> set ps1" "p \<noteq> 0" "page s1 = page s" by auto
      have "set (held @ ps) = set ((p # held) @ ps1)" using Cons by auto
      with Cons.IH [OF g(2), of "p # held"] Cons.prems(2,3) Cons g Get_page show ?thesis by simp
    qed
  next
    case (Put_page i)
    show ?thesis
    proof (cases "i < length held")
      case True
      then obtain xs v ys where h: "held = xs @ v # ys" "i = length xs"
        by (metis id_take_nth_drop length_take min.absorb4)
      with Cons.prems put_page [of s ps v] obtain s1 where
        f: "put v s = Some s1" "ok s1 (v # ps)" "page s1 = page s" by auto
      have "distinct ((xs @ ys) @ v # ps)" "set (held @ ps) = set ((xs @ ys) @ v # ps)"
        "\<forall>p\<in>set (xs @ ys). page s1 p" using Cons.prems(2,3) h f(3) by auto
      with Cons.IH [OF f(2), of "xs @ ys"] h f(1) Put_page show ?thesis by simp
    next
      case False
      with Cons.prems Put_page Cons.IH [of s ps held] show ?thesis by simp
    qed
  qed
qed auto

end

interpretation kpool: page_pool kmem_ok "\<lambda>k. page_ok (end_sym k)" kalloc kfree
proof (unfold_locales, goal_cases)
  case (1 s)
  then show ?case by (rule kalloc_Nil)
next
  case (2 s p ps)
  from kalloc_Cons [OF this] show ?case by auto
next
  case (3 s ps v)
  from kfree_Some [OF this] show ?case by auto
qed

section \<open>Filling the pool\<close>

lemma free_pages_ok:
  assumes "kmem_ok k ps" "p mod PGSIZE = 0" "end_sym k \<le> p" "vend \<le> KERNBASE + PHYSTOP"
    "\<forall>q\<in>set ps. q < p"
  shows "\<exists>k' qs. free_pages p vend k = Some k' \<and> kmem_ok k' (qs @ ps) \<and> end_sym k' = end_sym k \<and>
    use_lock k' = use_lock k \<and>
    set qs = {q. q mod PGSIZE = 0 \<and> p \<le> q \<and> q + PGSIZE \<le> vend}"
  using assms
proof (induction p vend k arbitrary: ps rule: free_pages.induct)
  case (1 p vend k)
  show ?case
  proof (cases "p + PGSIZE \<le> vend")
    case True
    have "KERNBASE < end_sym k" using "1.prems"(1) by (simp add: kmem_ok_def)
    then have "KERNBASE < p" "p < KERNBASE + PHYSTOP" using "1.prems"(3,4) True by (auto simp: PGSIZE_def)
    then have "page_ok (end_sym k) p"
      using "1.prems"(2,3) by (auto simp: page_ok_def V2P_def KERNBASE_def PHYSTOP_def mod_if)
    with kfree_Some [OF "1.prems"(1) this] "1.prems"(5) obtain k1 where
      k1: "kfree p k = Some k1" "kmem_ok k1 (p # ps)" "end_sym k1 = end_sym k" "use_lock k1 = use_lock k" by blast
    from "1.IH" [OF True k1(1,2)] "1.prems" k1(3,4) obtain k' qs where
      r: "free_pages (p + PGSIZE) vend k1 = Some k'" "kmem_ok k' (qs @ p # ps)" "end_sym k' = end_sym k" "use_lock k' = use_lock k"
        "set qs = {q. q mod PGSIZE = 0 \<and> p + PGSIZE \<le> q \<and> q + PGSIZE \<le> vend}"
      by (fastforce simp: PGSIZE_def)
    have "p + PGSIZE \<le> q" if "q mod PGSIZE = 0" "p \<le> q" "q \<noteq> p" for q
      using pages_apart [of p q] that "1.prems"(2) by (auto simp: PGSIZE_def)
    then have "set (qs @ [p]) = {q. q mod PGSIZE = 0 \<and> p \<le> q \<and> q + PGSIZE \<le> vend}"
      using r(5) True "1.prems"(2) by auto
    moreover have "free_pages p vend k = Some k'" using True k1(1) r(1) by (simp add: free_pages.simps [of p])
    ultimately show ?thesis using r(2-4) by (intro exI [of _ k'] exI [of _ "qs @ [p]"]) simp
  next
    case False
    with "1.prems"(1) show ?thesis
      by (intro exI [of _ k] exI [of _ "[]"]) (auto simp: free_pages.simps [of p])
  qed
qed

lemma PGROUNDUP_props: "PGROUNDUP a mod PGSIZE = 0" "a \<le> PGROUNDUP a" "PGROUNDUP a < a + PGSIZE"
proof -
  have "(a + PGSIZE - 1) mod PGSIZE \<le> PGSIZE - 1" by (simp add: PGSIZE_def)
  moreover have "(a + PGSIZE - 1) div PGSIZE * PGSIZE + (a + PGSIZE - 1) mod PGSIZE = a + PGSIZE - 1" by simp
  ultimately show "PGROUNDUP a mod PGSIZE = 0" "a \<le> PGROUNDUP a" "PGROUNDUP a < a + PGSIZE"
    unfolding PGROUNDUP_def by (simp_all add: PGSIZE_def)
qed

lemma PGROUNDUP_least:
  assumes "q mod PGSIZE = 0" "a \<le> q"
  shows "PGROUNDUP a \<le> q"
proof (rule ccontr)
  assume "\<not> PGROUNDUP a \<le> q"
  with pages_apart [OF PGROUNDUP_props(1) assms(1), of a] PGROUNDUP_props(3) [of a] assms(2) show False by auto
qed

section \<open>Properties\<close>

text \<open>C11. The page allocator never hands out a page that is in use: whatever a client asks for, as long as
  it gives back only pages it holds, no call panics, the pages it holds are pairwise different and
  different from the free ones, and none is ever lost.\<close>

theorem kalloc_pages_conserved:
  assumes "kmem_ok k ps"
  shows "\<exists>held k' ps'. pool_run kalloc kfree rs [] k = Some (held, k') \<and> kmem_ok k' ps' \<and>
    distinct (held @ ps') \<and> set (held @ ps') = set ps"
  using kpool.pool_run_ok [of k ps "[]" rs] assms by (fastforce simp: kmem_ok_def)

text \<open>\<^verbatim>\<open>kinit1\<close> on an empty list puts exactly the whole pages between its arguments on it.\<close>

theorem kinit1_pages:
  assumes "kmem_ok k []" "end_sym k \<le> vstart" "vend \<le> KERNBASE + PHYSTOP"
  shows "\<exists>k' ps. kinit1 vstart vend k = Some k' \<and> kmem_ok k' ps \<and> \<not> use_lock k' \<and>
    set ps = {q. q mod PGSIZE = 0 \<and> vstart \<le> q \<and> q + PGSIZE \<le> vend}"
proof -
  let ?p = "PGROUNDUP vstart" and ?k = "k\<lparr>use_lock := False\<rparr>"
  have "kmem_ok ?k []" "end_sym ?k \<le> ?p"
    using assms(1,2) PGROUNDUP_props(2) [of vstart] by (auto simp: kmem_ok_def)
  from free_pages_ok [OF this(1) PGROUNDUP_props(1) this(2) assms(3)] obtain k' qs where
    "free_pages ?p vend ?k = Some k'" "kmem_ok k' qs" "\<not> use_lock k'"
    "set qs = {q. q mod PGSIZE = 0 \<and> ?p \<le> q \<and> q + PGSIZE \<le> vend}" by auto
  moreover have "?p \<le> q \<longleftrightarrow> vstart \<le> q" if "q mod PGSIZE = 0" for q
    using PGROUNDUP_least [OF that] PGROUNDUP_props(2) [of vstart] by (meson le_trans)
  moreover have "{q. q mod PGSIZE = 0 \<and> ?p \<le> q \<and> q + PGSIZE \<le> vend} =
      {q. q mod PGSIZE = 0 \<and> vstart \<le> q \<and> q + PGSIZE \<le> vend}"
    using calculation(5) by (intro Collect_cong) auto
  ultimately show ?thesis by (auto simp: kinit1_def freerange_def)
qed

section \<open>Witnesses\<close>

definition boot_kmem :: kmem where
  "boot_kmem = \<lparr>mem = \<lambda>a. 0, freelist = 0, use_lock = False, end_sym = 0x80115000, data_sym = 0x80108000\<rparr>"

lemma boot_kmem_ok: "kmem_ok boot_kmem []"
  by (simp add: kmem_ok_def boot_kmem_def KERNBASE_def)

theorem kinit1_pages_witness:
  "\<exists>k' ps. kinit1 0x80115000 0x80118000 boot_kmem = Some k' \<and> kmem_ok k' ps \<and>
    0x80116000 \<in> set ps"
proof -
  have "end_sym boot_kmem \<le> 0x80115000" "0x80118000 \<le> KERNBASE + PHYSTOP"
    by (simp_all add: boot_kmem_def KERNBASE_def PHYSTOP_def)
  from kinit1_pages [OF boot_kmem_ok this] show ?thesis by (fastforce simp: PGSIZE_def)
qed

theorem kalloc_pages_conserved_witness:
  "\<exists>k held k'. kmem_ok k [0x80116000] \<and>
    pool_run kalloc kfree [Get_page, Get_page, Put_page 0] [] k = Some (held, k')"
proof -
  have v: "page_ok (end_sym boot_kmem) 0x80116000"
    by (simp add: page_ok_def boot_kmem_def V2P_def PGSIZE_def KERNBASE_def PHYSTOP_def)
  from kfree_Some [OF boot_kmem_ok v] obtain k where k: "kmem_ok k [0x80116000]" by auto
  from kalloc_pages_conserved [OF k, of "[Get_page, Get_page, Put_page 0]"] k show ?thesis by metis
qed

end
