(* ===== verification/Xv6_Vm.thy ===== *)
theory Xv6_Vm
  imports Xv6_Kalloc "HOL-Library.Monad_Syntax"
begin

text \<open>
  Page tables, \<^verbatim>\<open>hw3/xv6/vm.c\<close> with the macros of \<^verbatim>\<open>mmu.h\<close>. A page directory and its page
  tables are pages of the kernel's memory, read and written word by word; the result \<open>None\<close> is a
  panic, or a read through the NULL pointer. The loops that the C code ends by comparing addresses are
  partial functions, whose value is \<open>None\<close> when they do not end.
\<close>

section \<open>Directory and table entries\<close>

definition EXTMEM :: nat where "EXTMEM = 0x100000"
definition DEVSPACE :: nat where "DEVSPACE = 0xFE000000"
definition KERNLINK :: nat where "KERNLINK = KERNBASE + EXTMEM"
definition NPDENTRIES :: nat where "NPDENTRIES = 1024"

definition PDX :: "nat \<Rightarrow> nat" where "PDX va = va div 2 ^ 22 mod 1024"
definition PTX :: "nat \<Rightarrow> nat" where "PTX va = va div 2 ^ 12 mod 1024"
definition PGADDR :: "nat \<Rightarrow> nat \<Rightarrow> nat \<Rightarrow> nat" where
  "PGADDR d t off = (push_bit 22 d OR push_bit 12 t OR off) mod 0x100000000"

definition PTE_P :: u32 where "PTE_P = 0x001"
definition PTE_W :: u32 where "PTE_W = 0x002"
definition PTE_U :: u32 where "PTE_U = 0x004"
definition PTE_ADDR :: "u32 \<Rightarrow> u32" where "PTE_ADDR pte = pte AND NOT 0xFFF"
definition PTE_FLAGS :: "u32 \<Rightarrow> u32" where "PTE_FLAGS pte = pte AND 0xFFF"

abbreviation present :: "u32 \<Rightarrow> bool" where "present pte \<equiv> pte AND PTE_P \<noteq> 0"

text \<open>The kernel address of the page an entry points to.\<close>

abbreviation frame :: "u32 \<Rightarrow> nat" where "frame pte \<equiv> P2V (unat (PTE_ADDR pte))"

abbreviation set_word :: "nat \<Rightarrow> u32 \<Rightarrow> kmem \<Rightarrow> kmem" where
  "set_word a w k \<equiv> k\<lparr>mem := put32 a w (mem k)\<rparr>"

text \<open>\<^verbatim>\<open>memmove\<close> from a buffer outside the modelled memory.\<close>

definition put_bytes :: "nat \<Rightarrow> bytes \<Rightarrow> memory \<Rightarrow> memory" where
  "put_bytes a bs m = (\<lambda>x. if a \<le> x \<and> x < a + length bs then bs ! (x - a) else m x)"

section \<open>The operations\<close>

definition walkpgdir :: "nat \<Rightarrow> nat \<Rightarrow> bool \<Rightarrow> kmem \<Rightarrow> nat \<times> kmem" where
  "walkpgdir pgdir va al k =
     (let pde = pgdir + 4 * PDX va in
      if present (get32 (mem k) pde) then (frame (get32 (mem k) pde) + 4 * PTX va, k)
      else if \<not> al then (0, k)
      else
        let (pgtab, k) = kalloc k in
        if pgtab = 0 then (0, k)
        else
          let k = k\<lparr>mem := memset pgtab 0 PGSIZE (mem k)\<rparr>;
              k = set_word pde (word_of_nat (V2P pgtab) OR PTE_P OR PTE_W OR PTE_U) k
          in (pgtab + 4 * PTX va, k))"

partial_function (option) mappages_loop ::
    "nat \<Rightarrow> nat \<Rightarrow> nat \<Rightarrow> u32 \<Rightarrow> u32 \<Rightarrow> kmem \<Rightarrow> (int \<times> kmem) option" where
  "mappages_loop pgdir a last_pg pa perm k =
     (let (pte, k) = walkpgdir pgdir a True k in
      if pte = 0 then Some (-1, k)
      else if present (get32 (mem k) pte) then None
      else
        let k = set_word pte (pa OR perm OR PTE_P) k in
        if a = last_pg then Some (0, k)
        else mappages_loop pgdir ((a + PGSIZE) mod 0x100000000) last_pg (pa + word_of_nat PGSIZE) perm k)"

definition mappages :: "nat \<Rightarrow> nat \<Rightarrow> u32 \<Rightarrow> u32 \<Rightarrow> u32 \<Rightarrow> kmem \<Rightarrow> (int \<times> kmem) option" where
  "mappages pgdir va sz pa perm k =
     (let a = PGROUNDDOWN va;
          last_pg = PGROUNDDOWN (unat (word_of_nat va + sz - 1))
      in mappages_loop pgdir a last_pg pa perm k)"

partial_function (option) deallocuvm_loop :: "nat \<Rightarrow> nat \<Rightarrow> nat \<Rightarrow> kmem \<Rightarrow> kmem option" where
  "deallocuvm_loop pgdir a oldsz k =
     (if a < oldsz then
        let (pte, k) = walkpgdir pgdir a False k in
        if pte = 0 then
          (let a = (PGADDR (PDX a + 1) 0 0 + 0x100000000 - PGSIZE) mod 0x100000000
           in deallocuvm_loop pgdir ((a + PGSIZE) mod 0x100000000) oldsz k)
        else if present (get32 (mem k) pte) then
          (let pa = unat (PTE_ADDR (get32 (mem k) pte)) in
           if pa = 0 then None
           else do {
             k \<leftarrow> kfree (P2V pa) k;
             deallocuvm_loop pgdir ((a + PGSIZE) mod 0x100000000) oldsz (set_word pte 0 k)
           })
        else deallocuvm_loop pgdir ((a + PGSIZE) mod 0x100000000) oldsz k
      else Some k)"

definition deallocuvm :: "nat \<Rightarrow> nat \<Rightarrow> nat \<Rightarrow> kmem \<Rightarrow> (nat \<times> kmem) option" where
  "deallocuvm pgdir oldsz newsz k =
     (if newsz \<ge> oldsz then Some (oldsz, k)
      else do { k \<leftarrow> deallocuvm_loop pgdir (PGROUNDUP newsz mod 0x100000000) oldsz k; Some (newsz, k) })"

partial_function (option) allocuvm_loop :: "nat \<Rightarrow> nat \<Rightarrow> nat \<Rightarrow> nat \<Rightarrow> kmem \<Rightarrow> (nat \<times> kmem) option" where
  "allocuvm_loop pgdir a oldsz newsz k =
     (if a < newsz then
        let (pg, k) = kalloc k in
        if pg = 0 then
          do { (_, k) \<leftarrow> deallocuvm pgdir newsz oldsz k; Some (0, k) }
        else do {
          (r, k) \<leftarrow> mappages pgdir a (word_of_nat PGSIZE) (word_of_nat (V2P pg)) (PTE_W OR PTE_U)
             (k\<lparr>mem := memset pg 0 PGSIZE (mem k)\<rparr>);
          if r < 0 then
            do { (_, k) \<leftarrow> deallocuvm pgdir newsz oldsz k; k \<leftarrow> kfree pg k; Some (0, k) }
          else allocuvm_loop pgdir ((a + PGSIZE) mod 0x100000000) oldsz newsz k
        }
      else Some (newsz, k))"

definition allocuvm :: "nat \<Rightarrow> nat \<Rightarrow> nat \<Rightarrow> kmem \<Rightarrow> (nat \<times> kmem) option" where
  "allocuvm pgdir oldsz newsz k =
     (if newsz \<ge> KERNBASE then Some (0, k)
      else if newsz < oldsz then Some (oldsz, k)
      else allocuvm_loop pgdir (PGROUNDUP oldsz mod 0x100000000) oldsz newsz k)"

primrec free_tables :: "nat \<Rightarrow> nat list \<Rightarrow> kmem \<Rightarrow> kmem option" where
  "free_tables pgdir [] k = Some k"
| "free_tables pgdir (i # is) k =
     (let pde = get32 (mem k) (pgdir + 4 * i) in
      if present pde then do { k \<leftarrow> kfree (frame pde) k; free_tables pgdir is k } else free_tables pgdir is k)"

definition freevm :: "nat \<Rightarrow> kmem \<Rightarrow> kmem option" where
  "freevm pgdir k =
     (if pgdir = 0 then None
      else do {
        (_, k) \<leftarrow> deallocuvm pgdir KERNBASE 0 k;
        k \<leftarrow> free_tables pgdir [0..<NPDENTRIES] k;
        kfree pgdir k
      })"

text \<open>The rows of the table \<^verbatim>\<open>kmap\<close>: virtual address, physical start, physical end, permissions.\<close>

definition kmap :: "nat \<Rightarrow> (nat \<times> u32 \<times> u32 \<times> u32) list" where
  "kmap data =
     [(KERNBASE, 0, word_of_nat EXTMEM, PTE_W),
      (KERNLINK, word_of_nat (V2P KERNLINK), word_of_nat (V2P data), 0),
      (data, word_of_nat (V2P data), word_of_nat PHYSTOP, PTE_W),
      (DEVSPACE, word_of_nat DEVSPACE, 0, PTE_W)]"

primrec map_kernel :: "nat \<Rightarrow> (nat \<times> u32 \<times> u32 \<times> u32) list \<Rightarrow> kmem \<Rightarrow> (nat \<times> kmem) option" where
  "map_kernel pgdir [] k = Some (pgdir, k)"
| "map_kernel pgdir (row # rows) k =
     (let (virt, phys_start, phys_end, perm) = row in
      do {
        (r, k) \<leftarrow> mappages pgdir virt (phys_end - phys_start) phys_start perm k;
        if r < 0 then do { k \<leftarrow> freevm pgdir k; Some (0, k) } else map_kernel pgdir rows k
      })"

definition setupkvm :: "kmem \<Rightarrow> (nat \<times> kmem) option" where
  "setupkvm k =
     (let (pgdir, k) = kalloc k in
      if pgdir = 0 then Some (0, k)
      else
        let k = k\<lparr>mem := memset pgdir 0 PGSIZE (mem k)\<rparr> in
        if P2V PHYSTOP > DEVSPACE then None else map_kernel pgdir (kmap (data_sym k)) k)"

definition inituvm :: "nat \<Rightarrow> bytes \<Rightarrow> kmem \<Rightarrow> kmem option" where
  "inituvm pgdir init k =
     (if length init \<ge> PGSIZE then None
      else
        let (pg, k) = kalloc k in
        if pg = 0 then None
        else do {
          (_, k) \<leftarrow> mappages pgdir 0 (word_of_nat PGSIZE) (word_of_nat (V2P pg)) (PTE_W OR PTE_U)
             (k\<lparr>mem := memset pg 0 PGSIZE (mem k)\<rparr>);
          Some (k\<lparr>mem := put_bytes pg init (mem k)\<rparr>)
        })"

definition clearpteu :: "nat \<Rightarrow> nat \<Rightarrow> kmem \<Rightarrow> kmem option" where
  "clearpteu pgdir uva k =
     (let (pte, k) = walkpgdir pgdir uva False k in
      if pte = 0 then None else Some (set_word pte (get32 (mem k) pte AND NOT PTE_U) k))"

partial_function (option) copyuvm_loop :: "nat \<Rightarrow> nat \<Rightarrow> nat \<Rightarrow> nat \<Rightarrow> kmem \<Rightarrow> (nat \<times> kmem) option" where
  "copyuvm_loop pgdir d i sz k =
     (if i < sz then
        let (pte, k) = walkpgdir pgdir i False k in
        if pte = 0 then None
        else if \<not> present (get32 (mem k) pte) then None
        else
          let pa = unat (PTE_ADDR (get32 (mem k) pte)); flags = PTE_FLAGS (get32 (mem k) pte);
              (pg, k) = kalloc k
          in
          if pg = 0 then do { k \<leftarrow> freevm d k; Some (0, k) }
          else do {
            (r, k) \<leftarrow> mappages d i (word_of_nat PGSIZE) (word_of_nat (V2P pg)) flags
               (k\<lparr>mem := memmove pg (P2V pa) PGSIZE (mem k)\<rparr>);
            if r < 0 then do { k \<leftarrow> kfree pg k; k \<leftarrow> freevm d k; Some (0, k) }
            else copyuvm_loop pgdir d ((i + PGSIZE) mod 0x100000000) sz k
          }
      else Some (d, k))"

definition copyuvm :: "nat \<Rightarrow> nat \<Rightarrow> kmem \<Rightarrow> (nat \<times> kmem) option" where
  "copyuvm pgdir sz k =
     do { (d, k) \<leftarrow> setupkvm k; if d = 0 then Some (0, k) else copyuvm_loop pgdir d 0 sz k }"

definition uva2ka :: "nat \<Rightarrow> nat \<Rightarrow> kmem \<Rightarrow> nat option" where
  "uva2ka pgdir uva k =
     (let (pte, k) = walkpgdir pgdir uva False k in
      if pte = 0 then None
      else if \<not> present (get32 (mem k) pte) then Some 0
      else if get32 (mem k) pte AND PTE_U = 0 then Some 0
      else Some (frame (get32 (mem k) pte)))"

text \<open>The bytes still to be copied are the list.\<close>

partial_function (option) copyout :: "nat \<Rightarrow> nat \<Rightarrow> bytes \<Rightarrow> kmem \<Rightarrow> (int \<times> kmem) option" where
  "copyout pgdir va buf k =
     (if length buf > 0 then
        let va0 = PGROUNDDOWN va in
        do {
          pa0 \<leftarrow> uva2ka pgdir va0 k;
          if pa0 = 0 then Some (-1, k)
          else
            let n = PGSIZE - (va - va0); n = (if n > length buf then length buf else n) in
            copyout pgdir ((va0 + PGSIZE) mod 0x100000000) (drop n buf)
              (k\<lparr>mem := put_bytes (pa0 + (va - va0)) (take n buf) (mem k)\<rparr>)
        }
      else Some (0, k))"

end
