(* ===== verification/Xv6_Paging.thy ===== *)
theory Xv6_Paging
  imports Xv6_Vm
begin

text \<open>
  The structure of a page directory in memory: the pages it consists of, the entry a virtual address
  selects, and what storing an entry and walking the directory do to them. Everything that is not in
  the pages of the directory and not in a free page stays as it is.
\<close>

named_theorems paging_simps \<open>facts about entries of page tables\<close>

section \<open>Entries\<close>

lemma bit_PTE_ADDR: "bit (PTE_ADDR w) n \<longleftrightarrow> bit w n \<and> 12 \<le> n"
proof -
  have e: "PTE_ADDR w = w AND NOT (mask 12)" by (simp add: PTE_ADDR_def mask_eq_exp_minus_1)
  show ?thesis unfolding e
    by (cases "n < 32") (auto simp only: bit_and_iff bit_not_iff bit_mask_iff not_less, auto dest: bit_imp_le_length)
qed

lemma bit_PTE_FLAGS: "bit (PTE_FLAGS w) n \<longleftrightarrow> bit w n \<and> n < 12"
proof -
  have e: "PTE_FLAGS w = w AND mask 12" by (simp add: PTE_FLAGS_def mask_eq_exp_minus_1)
  show ?thesis unfolding e by (auto simp only: bit_and_iff bit_mask_iff, auto)
qed

lemma bit_aligned:
  assumes "bit (word_of_nat a :: u32) n" "a mod PGSIZE = 0"
  shows "12 \<le> n"
proof (rule ccontr)
  assume n: "\<not> 12 \<le> n"
  from assms(2) obtain q where q: "a = 2 ^ 12 * q" by (auto simp: PGSIZE_def mod_eq_0_iff_dvd dvd_def)
  from assms(1) have "bit a n" by (simp add: bit_simps)
  then have "odd (a div 2 ^ n)" by (simp add: bit_iff_odd)
  moreover have "(2::nat) ^ 12 = 2 ^ n * 2 ^ (12 - n)" using n by (simp flip: power_add)
  then have "a = 2 ^ n * (2 ^ (12 - n) * q)" by (simp only: q mult.assoc)
  then have "a div 2 ^ n = 2 ^ (12 - n) * q" by simp
  ultimately show False using n by simp
qed

lemma PTE_ADDR_make:
  assumes "a mod PGSIZE = 0" "PTE_ADDR f = 0"
  shows "PTE_ADDR (word_of_nat a OR f) = word_of_nat a"
proof (rule bit_word_eqI)
  fix n assume "n < LENGTH(32)"
  have "\<not> (bit f n \<and> 12 \<le> n)" using bit_PTE_ADDR [of f n] assms(2) by simp
  then show "bit (PTE_ADDR (word_of_nat a OR f)) n = bit (word_of_nat a :: u32) n"
    using bit_aligned [OF _ assms(1)] by (auto simp: bit_PTE_ADDR bit_or_iff)
qed

lemma PTE_FLAGS_make:
  assumes "a mod PGSIZE = 0" "PTE_ADDR f = 0"
  shows "PTE_FLAGS (word_of_nat a OR f) = f"
proof (rule bit_word_eqI)
  fix n assume "n < LENGTH(32)"
  have "\<not> (bit f n \<and> 12 \<le> n)" using bit_PTE_ADDR [of f n] assms(2) by simp
  then show "bit (PTE_FLAGS (word_of_nat a OR f)) n = bit f n"
    using bit_aligned [OF _ assms(1)] by (fastforce simp: bit_PTE_FLAGS bit_or_iff)
qed

lemma PTE_ADDR_or: "PTE_ADDR (a OR b) = PTE_ADDR a OR PTE_ADDR b"
  by (rule bit_word_eqI) (auto simp: bit_PTE_ADDR bit_or_iff)

lemma PTE_ADDR_FLAGS [simp]: "PTE_ADDR (PTE_FLAGS w) = 0"
  by (rule bit_word_eqI) (auto simp: bit_PTE_ADDR bit_PTE_FLAGS)

lemma PTE_ADDR_bits [simp]: "PTE_ADDR PTE_P = 0" "PTE_ADDR PTE_W = 0" "PTE_ADDR PTE_U = 0" "PTE_ADDR 0 = 0"
  by (simp_all add: PTE_ADDR_def PTE_P_def PTE_W_def PTE_U_def)

lemma PTE_ADDR_aligned: "unat (PTE_ADDR w) mod PGSIZE = 0"
proof -
  have "take_bit 12 (PTE_ADDR w) = 0"
    by (rule bit_word_eqI) (auto simp: bit_take_bit_iff bit_PTE_ADDR)
  then have "unat (take_bit 12 (PTE_ADDR w)) = 0" by simp
  then show ?thesis by (simp add: take_bit_eq_mod PGSIZE_def unat_mod)
qed

lemma present_iff_bit: "present w \<longleftrightarrow> bit w 0"
proof
  assume "present w"
  then show "bit w 0" by (simp add: PTE_P_def and_one_eq bit_0 odd_iff_mod_2_eq_one)
next
  assume "bit w 0"
  then have "bit (w AND PTE_P) 0" by (simp add: bit_and_iff PTE_P_def)
  then show "present w" by auto
qed

lemma present_make [simp]: "present (w OR PTE_P)" "present (w OR PTE_P OR v)" "\<not> present 0"
  unfolding present_iff_bit by (auto simp: bit_or_iff PTE_P_def)

lemma present_flags [simp]: "present (PTE_FLAGS w) \<longleftrightarrow> present w"
  by (simp add: present_iff_bit bit_PTE_FLAGS)

lemma V2P_aligned:
  assumes "page_ok e p" "KERNBASE < e"
  shows "V2P p mod PGSIZE = 0"
  using assms(1) page_range [OF assms] by (auto simp: page_ok_def KERNBASE_def PGSIZE_def)

lemma frame_make:
  assumes "page_ok e p" "KERNBASE < e" "PTE_ADDR f = 0"
  shows "frame (word_of_nat (V2P p) OR f) = p"
proof -
  note r = page_range [OF assms(1,2)]
  have "V2P p mod PGSIZE = 0" by (rule V2P_aligned [OF assms(1,2)])
  moreover have "V2P p < 2 ^ 32" using assms(1) by (simp add: page_ok_def PHYSTOP_def)
  ultimately show ?thesis using r(4) assms(3) by (simp add: PTE_ADDR_make unat_of_nat take_bit_eq_mod)
qed

section \<open>Virtual addresses\<close>

lemma PDX_less [simp]: "PDX va < 1024" and PTX_less [simp]: "PTX va < 1024"
  by (simp_all add: PDX_def PTX_def)

lemma same_page_iff:
  assumes "va < 0x100000000" "vb < 0x100000000"
  shows "PDX va = PDX vb \<and> PTX va = PTX vb \<longleftrightarrow> va div PGSIZE = vb div PGSIZE"
proof -
  have "x div 2 ^ 22 = x div PGSIZE div 1024" for x :: nat by (simp add: PGSIZE_def div_mult2_eq [symmetric])
  moreover have "x div PGSIZE div 1024 < 1024" if "x < 0x100000000" for x :: nat
    using that by (simp add: PGSIZE_def div_mult2_eq [symmetric] less_mult_imp_div_less)
  ultimately have "PDX x = x div PGSIZE div 1024" "PTX x = x div PGSIZE mod 1024" if "x < 0x100000000" for x
    using that by (auto simp: PDX_def PTX_def PGSIZE_def)
  with assms show ?thesis by (metis div_mult_mod_eq)
qed

lemma same_page_aligned:
  assumes "a mod PGSIZE = 0"
  shows "va div PGSIZE = a div PGSIZE \<longleftrightarrow> a \<le> va \<and> va < a + PGSIZE"
proof -
  from assms obtain q where "a = PGSIZE * q" by (auto simp: mod_eq_0_iff_dvd dvd_def)
  then show ?thesis using div_nat_eqI [of PGSIZE q va] by (auto simp: PGSIZE_def)
qed

section \<open>Words at aligned addresses\<close>

lemma get32_put32_ne: "a mod 4 = 0 \<Longrightarrow> b mod 4 = 0 \<Longrightarrow> a \<noteq> b \<Longrightarrow> get32 (put32 a w m) b = get32 m b"
  by (rule get32_put32_other) presburger

lemma slot_aligned: "p mod PGSIZE = 0 \<Longrightarrow> (p + 4 * i) mod 4 = 0"
  by (auto simp: PGSIZE_def)

lemma slot_inj:
  assumes "p mod PGSIZE = 0" "q mod PGSIZE = 0" "i < 1024" "j < 1024"
  shows "p + 4 * i = q + 4 * j \<longleftrightarrow> p = q \<and> i = j"
proof (cases "p = q")
  case False
  from pages_apart [OF assms(1,2) this] assms(3,4) False show ?thesis by (auto simp: PGSIZE_def)
qed simp

text \<open>The two memories agree outside the pages \<open>P\<close>.\<close>

definition same_outside :: "nat set \<Rightarrow> memory \<Rightarrow> memory \<Rightarrow> bool" where
  "same_outside P m m' \<longleftrightarrow> (\<forall>x. (\<forall>p\<in>P. x < p \<or> p + PGSIZE \<le> x) \<longrightarrow> m' x = m x)"

lemma same_outside_refl [simp, intro]: "same_outside P m m"
  by (simp add: same_outside_def)

lemma same_outside_trans: "same_outside P m m' \<Longrightarrow> same_outside P m' m'' \<Longrightarrow> same_outside P m m''"
  by (auto simp: same_outside_def)

lemma same_outside_mono: "same_outside P m m' \<Longrightarrow> P \<subseteq> Q \<Longrightarrow> same_outside Q m m'"
  by (auto simp: same_outside_def)

lemma same_outside_word:
  assumes "same_outside P m m'" "\<forall>p\<in>P. p mod PGSIZE = 0" "q mod PGSIZE = 0" "q \<notin> P" "i < 1024"
  shows "get32 m' (q + 4 * i) = get32 m (q + 4 * i)"
proof (rule get32_cong)
  fix x assume x: "q + 4 * i \<le> x" "x < q + 4 * i + 4"
  have "x < p \<or> p + PGSIZE \<le> x" if "p \<in> P" for p
  proof -
    have "p mod PGSIZE = 0" "q \<noteq> p" using assms(2,4) that by auto
    from pages_apart [OF assms(3) this] assms(5) x show ?thesis by (auto simp: PGSIZE_def)
  qed
  with assms(1) show "m' x = m x" by (auto simp: same_outside_def)
qed

lemma same_outside_byte:
  assumes "same_outside P m m'" "\<forall>p\<in>P. p mod PGSIZE = 0" "q mod PGSIZE = 0" "q \<notin> P" "i < PGSIZE"
  shows "m' (q + i) = m (q + i)"
proof -
  have "q + i < p \<or> p + PGSIZE \<le> q + i" if "p \<in> P" for p
  proof -
    have "p mod PGSIZE = 0" "q \<noteq> p" using assms(2,4) that by auto
    from pages_apart [OF assms(3) this] assms(5) show ?thesis by auto
  qed
  with assms(1) show ?thesis by (auto simp: same_outside_def)
qed

lemma same_outside_put32: "i < 1024 \<Longrightarrow> same_outside {p} m (put32 (p + 4 * i) w m)"
  by (auto simp: same_outside_def put32_eq PGSIZE_def)

lemma same_outside_memset: "same_outside {p} m (memset p c PGSIZE m)"
  by (auto simp: same_outside_def memset_eq)

lemma kmem_ok_same:
  assumes "kmem_ok k ps" "same_outside P (mem k) m'" "\<forall>p\<in>P. p mod PGSIZE = 0" "P \<inter> set ps = {}"
  shows "kmem_ok (k\<lparr>mem := m'\<rparr>) ps"
proof -
  have "get32 m' p = get32 (mem k) p" if "p \<in> set ps" for p
    using same_outside_word [OF assms(2,3), of p 0] that assms(1,4) by (auto simp: kmem_ok_def page_ok_def)
  then have "chain m' h ps = chain (mem k) h ps" for h by (rule chain_cong)
  with assms(1) show ?thesis by (simp add: kmem_ok_def)
qed

section \<open>A page directory\<close>

definition has_table :: "memory \<Rightarrow> nat \<Rightarrow> nat \<Rightarrow> bool" where
  "has_table m d i \<longleftrightarrow> present (get32 m (d + 4 * i))"

definition table :: "memory \<Rightarrow> nat \<Rightarrow> nat \<Rightarrow> nat" where
  "table m d i = frame (get32 m (d + 4 * i))"

definition tabs :: "memory \<Rightarrow> nat \<Rightarrow> nat set" where
  "tabs m d = insert d (table m d ` {i. i < 1024 \<and> has_table m d i})"

text \<open>The entry a virtual address selects; a missing table counts as an empty one.\<close>

definition pte :: "memory \<Rightarrow> nat \<Rightarrow> nat \<Rightarrow> u32" where
  "pte m d va = (if has_table m d (PDX va) then get32 m (table m d (PDX va) + 4 * PTX va) else 0)"

text \<open>With the free pages \<open>ps\<close>, the pages of the directory at \<open>d\<close> are proper pages in use.\<close>

definition dir_ok :: "nat \<Rightarrow> nat list \<Rightarrow> memory \<Rightarrow> nat \<Rightarrow> bool" where
  "dir_ok e ps m d \<longleftrightarrow> page_ok e d \<and> d \<notin> set ps \<and>
     (\<forall>i<1024. has_table m d i \<longrightarrow> page_ok e (table m d i) \<and> table m d i \<notin> set ps \<and> table m d i \<noteq> d) \<and>
     (\<forall>i<1024. \<forall>j<1024. has_table m d i \<longrightarrow> has_table m d j \<longrightarrow> table m d i = table m d j \<longrightarrow> i = j)"

lemma tabs_ok: "dir_ok e ps m d \<Longrightarrow> p \<in> tabs m d \<Longrightarrow> page_ok e p \<and> p \<notin> set ps \<and> p mod PGSIZE = 0"
  by (auto simp: dir_ok_def tabs_def page_ok_def)

lemma dir_cong:
  assumes "\<And>i. i < 1024 \<Longrightarrow> get32 m' (d + 4 * i) = get32 m (d + 4 * i)"
  shows "i < 1024 \<Longrightarrow> has_table m' d i = has_table m d i" "i < 1024 \<Longrightarrow> table m' d i = table m d i"
    "tabs m' d = tabs m d" "dir_ok e ps m' d = dir_ok e ps m d"
proof -
  show h: "has_table m' d i = has_table m d i" if "i < 1024" for i using assms that by (simp add: has_table_def)
  show t: "table m' d i = table m d i" if "i < 1024" for i using assms that by (simp add: table_def)
  show "tabs m' d = tabs m d" unfolding tabs_def using h t by (intro arg_cong [where f = "insert d"] image_cong) auto
  show "dir_ok e ps m' d = dir_ok e ps m d" using h t by (auto simp: dir_ok_def)
qed

text \<open>A directory whose pages are not touched keeps all its entries.\<close>

lemma dir_frame:
  assumes "same_outside P m m'" "\<forall>p\<in>P. p mod PGSIZE = 0" "dir_ok e ps m d" "P \<inter> tabs m d = {}"
  shows "tabs m' d = tabs m d" "dir_ok e ps m' d" "pte m' d va = pte m d va"
proof -
  have d: "get32 m' (d + 4 * i) = get32 m (d + 4 * i)" if "i < 1024" for i
    using same_outside_word [OF assms(1,2), of d i] assms(3,4) that by (auto simp: dir_ok_def page_ok_def tabs_def)
  note c = dir_cong [of m' d m, OF this]
  show "tabs m' d = tabs m d" by (rule c(3))
  show "dir_ok e ps m' d" using c(4) assms(3) by simp
  show "pte m' d va = pte m d va"
  proof (cases "has_table m d (PDX va)")
    case True
    let ?t = "table m d (PDX va)"
    have "?t \<in> tabs m d" using True by (auto simp: tabs_def)
    with tabs_ok [OF assms(3) this] assms(4) have "?t mod PGSIZE = 0" "?t \<notin> P" by auto
    then show ?thesis using same_outside_word [OF assms(1,2), of ?t "PTX va"] c(1,2) True by (simp add: pte_def)
  next
    case False
    with c(1) show ?thesis by (simp add: pte_def)
  qed
qed

section \<open>Storing an entry\<close>

lemma set_pte:
  fixes w :: u32
  assumes "dir_ok e ps m d" "has_table m d (PDX va)"
  defines "m' \<equiv> put32 (table m d (PDX va) + 4 * PTX va) w m"
  shows "same_outside {table m d (PDX va)} m m'" "tabs m' d = tabs m d" "dir_ok e ps m' d"
    "va < 0x100000000 \<Longrightarrow> vb < 0x100000000 \<Longrightarrow>
      pte m' d vb = (if vb div PGSIZE = va div PGSIZE then w else pte m d vb)"
proof -
  let ?t = "table m d (PDX va)"
  have t: "?t mod PGSIZE = 0" "?t \<noteq> d" and d: "d mod PGSIZE = 0"
    using assms(1,2) by (auto simp: dir_ok_def page_ok_def)
  have w: "get32 m' (q + 4 * j) = (if q = ?t \<and> j = PTX va then w else get32 m (q + 4 * j))"
    if "q mod PGSIZE = 0" "j < 1024" for q j
  proof (cases "q = ?t \<and> j = PTX va")
    case False
    then have "?t + 4 * PTX va \<noteq> q + 4 * j" using slot_inj [OF t(1) that(1) PTX_less that(2)] by auto
    then show ?thesis using False unfolding m'_def by (auto intro!: get32_put32_ne slot_aligned t that)
  qed (simp add: m'_def)
  have dd: "get32 m' (d + 4 * i) = get32 m (d + 4 * i)" if "i < 1024" for i using w [OF d that] t(2) by simp
  note c = dir_cong [of m' d m, OF dd]
  show "same_outside {?t} m m'" unfolding m'_def by (rule same_outside_put32) simp
  show "tabs m' d = tabs m d" by (rule c(3))
  show "dir_ok e ps m' d" using c(4) assms(1) by simp
  assume r: "va < 0x100000000" "vb < 0x100000000"
  show "pte m' d vb = (if vb div PGSIZE = va div PGSIZE then w else pte m d vb)"
  proof (cases "has_table m d (PDX vb)")
    case True
    then have b: "table m d (PDX vb) mod PGSIZE = 0" using assms(1) by (simp add: dir_ok_def page_ok_def)
    have "table m d (PDX vb) = ?t \<longleftrightarrow> PDX vb = PDX va" using assms(1,2) True by (auto simp: dir_ok_def)
    with w [OF b PTX_less, of vb] True c(1,2) same_page_iff [OF r(2,1)] show ?thesis by (auto simp: pte_def)
  next
    case False
    with assms(2) same_page_iff [OF r(2,1)] have "vb div PGSIZE \<noteq> va div PGSIZE" by auto
    with False c(1) show ?thesis by (simp add: pte_def)
  qed
qed

section \<open>Walking the directory\<close>

lemma walk_present:
  "has_table (mem k) d (PDX va) \<Longrightarrow> walkpgdir d va al k = (table (mem k) d (PDX va) + 4 * PTX va, k)"
  by (simp add: walkpgdir_def has_table_def table_def Let_def)

lemma walk_absent: "\<not> has_table (mem k) d (PDX va) \<Longrightarrow> walkpgdir d va False k = (0, k)"
  by (simp add: walkpgdir_def has_table_def)

text \<open>A directory with its memory: \<open>ps\<close> are the free pages.\<close>

definition vm_ok :: "kmem \<Rightarrow> nat list \<Rightarrow> nat \<Rightarrow> bool" where
  "vm_ok k ps d \<longleftrightarrow> kmem_ok k ps \<and> dir_ok (end_sym k) ps (mem k) d"

text \<open>Free pages have become tables of the directory; the rest of the memory is as it was.\<close>

definition grows :: "nat \<Rightarrow> kmem \<Rightarrow> nat list \<Rightarrow> kmem \<Rightarrow> nat list \<Rightarrow> bool" where
  "grows d k ps k' ps' \<longleftrightarrow> vm_ok k' ps' d \<and> end_sym k' = end_sym k \<and> data_sym k' = data_sym k \<and>
     (\<exists>qs. ps = qs @ ps' \<and> tabs (mem k') d = tabs (mem k) d \<union> set qs) \<and>
     same_outside (tabs (mem k) d \<union> set ps) (mem k) (mem k')"

lemma grows_refl: "vm_ok k ps d \<Longrightarrow> grows d k ps k ps"
  by (simp add: grows_def)

lemma grows_trans:
  assumes "grows d k ps k1 ps1" "grows d k1 ps1 k2 ps2"
  shows "grows d k ps k2 ps2"
proof -
  from assms obtain qs1 qs2 where q: "ps = qs1 @ ps1" "tabs (mem k1) d = tabs (mem k) d \<union> set qs1"
    "ps1 = qs2 @ ps2" "tabs (mem k2) d = tabs (mem k1) d \<union> set qs2" by (auto simp: grows_def)
  then have "ps = (qs1 @ qs2) @ ps2" "tabs (mem k2) d = tabs (mem k) d \<union> set (qs1 @ qs2)" by auto
  moreover have "tabs (mem k1) d \<union> set ps1 \<subseteq> tabs (mem k) d \<union> set ps" using q by auto
  then have "same_outside (tabs (mem k) d \<union> set ps) (mem k) (mem k2)"
    using assms by (meson grows_def same_outside_mono same_outside_trans)
  ultimately show ?thesis using assms unfolding grows_def by metis
qed

text \<open>A zeroed free page is entered into the directory as the table for slot \<open>i\<close>.\<close>

definition new_table :: "nat \<Rightarrow> nat \<Rightarrow> nat \<Rightarrow> memory \<Rightarrow> memory" where
  "new_table d i p m = put32 (d + 4 * i) (word_of_nat (V2P p) OR PTE_P OR PTE_W OR PTE_U) (memset p 0 PGSIZE m)"

lemma new_table_out: "i < 1024 \<Longrightarrow> same_outside {d, p} m (new_table d i p m)"
  unfolding new_table_def using same_outside_memset same_outside_put32
  by (blast intro: same_outside_trans same_outside_mono)

lemma new_table_dir:
  assumes "page_ok e p" "KERNBASE < e" "d mod PGSIZE = 0" "p \<noteq> d" "i < 1024" "j < 1024"
  shows "has_table (new_table d i p m) d j \<longleftrightarrow> j = i \<or> has_table m d j"
    "table (new_table d i p m) d j = (if j = i then p else table m d j)"
proof -
  have p: "p mod PGSIZE = 0" using assms(1) by (simp add: page_ok_def)
  have fr: "frame (word_of_nat (V2P p) OR PTE_P OR PTE_W OR PTE_U) = p"
    using frame_make [OF assms(1,2), of "PTE_P OR PTE_W OR PTE_U"] by (simp add: PTE_ADDR_or)
  have "get32 (new_table d i p m) (d + 4 * j) = get32 m (d + 4 * j)" if "j \<noteq> i"
  proof -
    have "get32 (new_table d i p m) (d + 4 * j) = get32 (memset p 0 PGSIZE m) (d + 4 * j)"
      unfolding new_table_def using that by (intro get32_put32_ne slot_aligned assms) simp
    also have "\<dots> = get32 m (d + 4 * j)"
      using assms p by (intro same_outside_word [OF same_outside_memset]) auto
    finally show ?thesis .
  qed
  moreover have "get32 (new_table d i p m) (d + 4 * i) = word_of_nat (V2P p) OR PTE_P OR PTE_W OR PTE_U"
    by (simp add: new_table_def)
  ultimately show "has_table (new_table d i p m) d j \<longleftrightarrow> j = i \<or> has_table m d j"
    "table (new_table d i p m) d j = (if j = i then p else table m d j)"
    using fr by (cases "j = i"; simp add: has_table_def table_def)+
qed

lemma new_table_ok:
  assumes "dir_ok e (p # ps) m d" "page_ok e p" "KERNBASE < e" "i < 1024" "\<not> has_table m d i"
    "p \<notin> set ps"
  shows "dir_ok e ps (new_table d i p m) d" "tabs (new_table d i p m) d = tabs m d \<union> {p}"
proof -
  let ?m = "new_table d i p m"
  have d: "d mod PGSIZE = 0" "p \<noteq> d" using assms(1) by (auto simp: dir_ok_def page_ok_def)
  note nt = new_table_dir [OF assms(2,3) d assms(4)]
  have "table m d j \<noteq> p" if "j < 1024" "has_table m d j" for j using assms(1) that by (auto simp: dir_ok_def)
  then show "dir_ok e ps ?m d" using assms(1,2,6) d nt unfolding dir_ok_def by auto
  have "{j. j < 1024 \<and> has_table ?m d j} = insert i {j. j < 1024 \<and> has_table m d j}" using nt(1) assms(4) by auto
  moreover have "table ?m d ` {j. j < 1024 \<and> has_table m d j} = table m d ` {j. j < 1024 \<and> has_table m d j}"
    using nt(2) assms(5) by (intro image_cong) auto
  ultimately show "tabs ?m d = tabs m d \<union> {p}" using nt(2) [OF assms(4)] by (simp add: tabs_def insert_commute)
qed

lemma new_table_pte:
  assumes "dir_ok e (p # ps) m d" "page_ok e p" "KERNBASE < e" "i < 1024" "\<not> has_table m d i"
  shows "pte (new_table d i p m) d vb = pte m d vb"
proof -
  let ?m = "new_table d i p m"
  have d: "d mod PGSIZE = 0" "p \<noteq> d" "p mod PGSIZE = 0" using assms(1,2) by (auto simp: dir_ok_def page_ok_def)
  note nt = new_table_dir [OF assms(2,3) d(1,2) assms(4) PDX_less]
  show ?thesis
  proof (cases "PDX vb = i")
    case True
    have "p + 4 * PTX vb \<noteq> d + 4 * i" using slot_inj [OF d(3,1) PTX_less assms(4)] d(2) by simp
    then have "get32 ?m (p + 4 * PTX vb) = get32 (memset p 0 PGSIZE m) (p + 4 * PTX vb)"
      unfolding new_table_def by (intro get32_put32_ne slot_aligned d) simp
    also have "PTX vb \<le> 1023" using PTX_less [of vb] by linarith
    then have "get32 (memset p 0 PGSIZE m) (p + 4 * PTX vb) = 0" by (intro get32_memset_zero) (simp_all add: PGSIZE_def)
    finally show ?thesis using True assms(5) nt [of m vb] by (simp add: pte_def)
  next
    case False
    have "get32 ?m (table m d (PDX vb) + 4 * PTX vb) = get32 m (table m d (PDX vb) + 4 * PTX vb)"
      if "has_table m d (PDX vb)"
      using assms(1) that d by (intro same_outside_word [OF new_table_out [OF assms(4)]]) (auto simp: dir_ok_def page_ok_def)
    with False nt show ?thesis by (simp add: pte_def)
  qed
qed

lemma walk_alloc:
  assumes "\<not> has_table (mem k) d (PDX va)" "vm_ok k (p # ps) d"
  shows "\<exists>k'. walkpgdir d va True k = (p + 4 * PTX va, k') \<and> grows d k (p # ps) k' ps \<and>
    has_table (mem k') d (PDX va) \<and> table (mem k') d (PDX va) = p \<and> (\<forall>vb. pte (mem k') d vb = pte (mem k) d vb)"
proof -
  let ?k1 = "k\<lparr>freelist := unat (get32 (mem k) p)\<rparr>" and ?m = "new_table d (PDX va) p (mem k)"
  have ok: "kmem_ok k (p # ps)" "dir_ok (end_sym k) (p # ps) (mem k) d" using assms(2) by (auto simp: vm_ok_def)
  note al = kalloc_Cons [OF ok(1)]
  have e: "KERNBASE < end_sym k" using ok(1) by (simp add: kmem_ok_def)
  have pd: "p mod PGSIZE = 0" "d mod PGSIZE = 0" "p \<noteq> d" using al(3) ok(2) by (auto simp: dir_ok_def page_ok_def)
  have out: "same_outside {d, p} (mem k) ?m" by (rule new_table_out) simp
  note nt = new_table_ok [OF ok(2) al(3) e PDX_less assms(1) al(4)]
  have "kmem_ok (?k1\<lparr>mem := ?m\<rparr>) ps"
    using kmem_ok_same [OF al(2), of "{d, p}" ?m] out pd al(4) ok(2) by (simp add: dir_ok_def)
  moreover have "same_outside (tabs (mem k) d \<union> set (p # ps)) (mem k) ?m"
    by (rule same_outside_mono [OF out]) (auto simp: tabs_def)
  ultimately have "grows d k (p # ps) (?k1\<lparr>mem := ?m\<rparr>) ps" using nt by (simp add: grows_def vm_ok_def)
  moreover have "walkpgdir d va True k = (p + 4 * PTX va, ?k1\<lparr>mem := ?m\<rparr>)"
    using assms(1) al(1,5) by (simp add: walkpgdir_def has_table_def Let_def new_table_def)
  ultimately show ?thesis
    using new_table_dir [OF al(3) e pd(2,3) PDX_less PDX_less, of va "mem k" va]
      new_table_pte [OF ok(2) al(3) e PDX_less assms(1)]
    by (intro exI [of _ "?k1\<lparr>mem := ?m\<rparr>"]) simp
qed

lemma table_pos:
  assumes "vm_ok k ps d" "has_table (mem k) d i" "i < 1024"
  shows "0 < table (mem k) d i"
proof -
  have "KERNBASE < end_sym k" "end_sym k \<le> table (mem k) d i"
    using assms by (auto simp: vm_ok_def kmem_ok_def dir_ok_def page_ok_def)
  then show ?thesis by simp
qed

text \<open>All that a caller of \<^verbatim>\<open>walkpgdir(pgdir, va, 1)\<close> needs to know.\<close>

lemma walk_slot:
  assumes "vm_ok k ps d"
  obtains (full) "ps = []" "walkpgdir d va True k = (0, k)"
  | (slot) k' ps' where "walkpgdir d va True k = (table (mem k') d (PDX va) + 4 * PTX va, k')"
      "grows d k ps k' ps'" "has_table (mem k') d (PDX va)" "\<forall>vb. pte (mem k') d vb = pte (mem k) d vb"
      "table (mem k') d (PDX va) \<noteq> 0"
proof (cases "has_table (mem k) d (PDX va)")
  case True
  have "table (mem k) d (PDX va) \<noteq> 0" using table_pos [OF assms True] by simp
  then show ?thesis using slot [of k ps] walk_present [OF True] grows_refl [OF assms] True by simp
next
  case False
  show ?thesis
  proof (cases ps)
    case Nil
    then have "kalloc k = (0, k)" using assms by (auto simp: vm_ok_def intro: kalloc_Nil)
    then have "walkpgdir d va True k = (0, k)" using False by (simp add: walkpgdir_def has_table_def Let_def)
    with Nil full show ?thesis by simp
  next
    case (Cons p ps1)
    from walk_alloc [OF False] assms Cons obtain k' where
      "walkpgdir d va True k = (p + 4 * PTX va, k')" "grows d k (p # ps1) k' ps1"
      "has_table (mem k') d (PDX va)" "table (mem k') d (PDX va) = p" "\<forall>vb. pte (mem k') d vb = pte (mem k) d vb"
      by blast
    moreover have "p \<noteq> 0" using assms Cons kalloc_Cons(5) [of k p ps1] by (simp add: vm_ok_def)
    ultimately show ?thesis using slot [of k' ps1] Cons by simp
  qed
qed

end
