(* ===== verification/Xv6_Uvm.thy ===== *)
theory Xv6_Uvm
  imports Xv6_Paging
begin

text \<open>
  Address spaces: what the operations of \<^verbatim>\<open>vm.c\<close> do to the user memory that a page directory
  shows, seen as a partial map from virtual addresses to bytes, and to the set of free pages.
\<close>

section \<open>Mapping a range of pages\<close>

definition mapped :: "nat \<Rightarrow> memory \<Rightarrow> memory \<Rightarrow> nat \<Rightarrow> nat \<Rightarrow> u32 \<Rightarrow> u32 \<Rightarrow> bool" where
  "mapped d m m' a n pa perm \<longleftrightarrow> (\<forall>va<0x100000000. pte m' d va =
     (if a \<le> va \<and> va < a + n * PGSIZE then (pa + word_of_nat (va div PGSIZE * PGSIZE - a)) OR perm OR PTE_P
      else pte m d va))"

lemma page_base: "a mod PGSIZE = 0 \<Longrightarrow> a \<le> va \<Longrightarrow> va < a + PGSIZE \<Longrightarrow> va div PGSIZE * PGSIZE = a"
  using same_page_aligned [of a va] by (auto simp: PGSIZE_def)

lemma grows_set_pte:
  assumes "vm_ok k ps d" "has_table (mem k) d (PDX va)"
  shows "grows d k ps (set_word (table (mem k) d (PDX va) + 4 * PTX va) w k) ps"
proof -
  have ok: "kmem_ok k ps" "dir_ok (end_sym k) ps (mem k) d" using assms(1) by (auto simp: vm_ok_def)
  note s = set_pte [OF ok(2) assms(2), where w = w]
  have t: "table (mem k) d (PDX va) \<in> tabs (mem k) d" using assms(2) by (auto simp: tabs_def)
  with tabs_ok [OF ok(2) this] have "kmem_ok (set_word (table (mem k) d (PDX va) + 4 * PTX va) w k) ps"
    by (intro kmem_ok_same [OF ok(1) s(1)]) auto
  then show ?thesis using s(2,3) same_outside_mono [OF s(1)] t by (simp add: grows_def vm_ok_def)
qed

text \<open>One turn of the loop of \<^verbatim>\<open>mappages\<close>.\<close>

lemma mappages_turn:
  assumes "vm_ok k ps d" "a mod PGSIZE = 0" "a < 0x100000000" "\<not> present (pte (mem k) d a)"
  obtains (full) "ps = []" "mappages_loop d a z pa perm k = Some (-1, k)"
  | (one) k' ps' where "grows d k ps k' ps'" "mapped d (mem k) (mem k') a 1 pa perm"
      "mappages_loop d a z pa perm k = (if a = z then Some (0, k')
         else mappages_loop d ((a + PGSIZE) mod 0x100000000) z (pa + word_of_nat PGSIZE) perm k')"
proof (cases rule: walk_slot [OF assms(1), of a])
  case 1
  then show ?thesis by (intro full) (simp_all add: mappages_loop.simps [of d a])
next
  case (2 k1 ps1)
  let ?a = "table (mem k1) d (PDX a) + 4 * PTX a"
  let ?k' = "set_word ?a (pa OR perm OR PTE_P) k1"
  have ok1: "vm_ok k1 ps1 d" using 2(2) by (simp add: grows_def)
  then have "dir_ok (end_sym k1) ps1 (mem k1) d" by (simp add: vm_ok_def)
  note s = set_pte(4) [OF this 2(3), of _ "pa OR perm OR PTE_P", OF assms(3)]
  have "grows d k ps ?k' ps1" by (rule grows_trans [OF 2(2) grows_set_pte [OF ok1 2(3)]])
  moreover have "mapped d (mem k) (mem ?k') a 1 pa perm"
    unfolding mapped_def using s 2(4) page_base [OF assms(2)] same_page_aligned [OF assms(2)] by simp
  moreover have "get32 (mem k1) ?a = pte (mem k) d a" using 2(3,4) by (metis pte_def)
  ultimately show ?thesis using one [of ?k' ps1] 2(1,5) assms(4)
    by (simp add: mappages_loop.simps [of d a] Let_def)
qed

lemma mapped_Suc:
  assumes "mapped d m m1 a 1 pa perm" "mapped d m1 m2 (a + PGSIZE) n (pa + word_of_nat PGSIZE) perm" "a mod PGSIZE = 0"
  shows "mapped d m m2 a (Suc n) pa perm"
  unfolding mapped_def
proof (intro allI impI)
  fix va :: nat assume va: "va < 0x100000000"
  consider "a + PGSIZE \<le> va" "va < a + Suc n * PGSIZE" | "va < a + PGSIZE \<or> a + Suc n * PGSIZE \<le> va" by linarith
  then show "pte m2 d va = (if a \<le> va \<and> va < a + Suc n * PGSIZE
      then (pa + word_of_nat (va div PGSIZE * PGSIZE - a)) OR perm OR PTE_P else pte m d va)"
  proof cases
    case 1
    have "(a + PGSIZE) div PGSIZE * PGSIZE \<le> va div PGSIZE * PGSIZE" using 1(1) by (intro mult_le_mono1 div_le_mono)
    then have "a + PGSIZE \<le> va div PGSIZE * PGSIZE" using assms(3) by (auto simp: PGSIZE_def)
    then have "pa + word_of_nat PGSIZE + word_of_nat (va div PGSIZE * PGSIZE - (a + PGSIZE)) =
        pa + word_of_nat (va div PGSIZE * PGSIZE - a)" by (simp add: of_nat_diff)
    moreover have "pte m2 d va = (pa + word_of_nat PGSIZE + word_of_nat (va div PGSIZE * PGSIZE - (a + PGSIZE))) OR perm OR PTE_P"
      using assms(2) va 1 by (simp add: mapped_def)
    ultimately show ?thesis using 1 by (simp only:) simp
  next
    case 2
    then have "pte m2 d va = pte m1 d va" using assms(2) va by (auto simp: mapped_def)
    with assms(1) va 2 show ?thesis by (auto simp: mapped_def)
  qed
qed

lemma mapped_0 [simp]: "mapped d m m a 0 pa perm"
  by (auto simp: mapped_def)

lemma mappages_loop_ok:
  assumes "vm_ok k ps d" "a mod PGSIZE = 0" "a + Suc n * PGSIZE \<le> 0x100000000"
    "\<And>va. a \<le> va \<Longrightarrow> va < a + Suc n * PGSIZE \<Longrightarrow> \<not> present (pte (mem k) d va)"
  shows "\<exists>r k' ps' j. mappages_loop d a (a + n * PGSIZE) pa perm k = Some (r, k') \<and> grows d k ps k' ps' \<and>
    mapped d (mem k) (mem k') a j pa perm \<and> (r = 0 \<and> j = Suc n \<or> r = -1 \<and> j \<le> n \<and> ps' = [])"
  using assms
proof (induction n arbitrary: a pa k ps)
  case 0
  have "a < 0x100000000" "\<not> present (pte (mem k) d a)" using "0.prems"(3,4) by (auto simp: PGSIZE_def)
  from "0.prems"(1,2) this show ?case
  proof (cases rule: mappages_turn [where z = "a + 0 * PGSIZE" and pa = pa and perm = perm])
    case full
    then show ?thesis using grows_refl [OF "0.prems"(1)] mapped_0 by blast
  next
    case (one k' ps')
    then have "mappages_loop d a (a + 0 * PGSIZE) pa perm k = Some (0, k')" by simp
    with one show ?thesis by (metis One_nat_def)
  qed
next
  case (Suc n)
  have "a < 0x100000000" "\<not> present (pte (mem k) d a)" using Suc.prems(3,4) by (auto simp: PGSIZE_def)
  from Suc.prems(1,2) this show ?case
  proof (cases rule: mappages_turn [where z = "a + Suc n * PGSIZE" and pa = pa and perm = perm])
    case full
    then show ?thesis using grows_refl [OF Suc.prems(1)] mapped_0 by blast
  next
    case (one k1 ps1)
    have m1: "pte (mem k1) d va = pte (mem k) d va" if "a + PGSIZE \<le> va" "va < 0x100000000" for va
      using one(2) that by (auto simp: mapped_def)
    have ok1: "vm_ok k1 ps1 d" using one(1) by (simp add: grows_def)
    have a: "(a + PGSIZE) mod PGSIZE = 0" "a + PGSIZE + Suc n * PGSIZE \<le> 0x100000000"
      using Suc.prems(2,3) by auto
    have "\<not> present (pte (mem k1) d va)" if "a + PGSIZE \<le> va" "va < a + PGSIZE + Suc n * PGSIZE" for va
      using that m1 [of va] Suc.prems(3) Suc.prems(4) [of va] by simp
    from Suc.IH [OF ok1 a this] obtain r k' ps' j where r: "mappages_loop d (a + PGSIZE) (a + PGSIZE + n * PGSIZE) (pa + word_of_nat PGSIZE) perm k1 = Some (r, k')"
      "grows d k1 ps1 k' ps'" "mapped d (mem k1) (mem k') (a + PGSIZE) j (pa + word_of_nat PGSIZE) perm"
      "r = 0 \<and> j = Suc n \<or> r = -1 \<and> j \<le> n \<and> ps' = []" by blast
    have "a + PGSIZE < 0x100000000" using Suc.prems(3) by (simp add: PGSIZE_def)
    then have "mappages_loop d a (a + Suc n * PGSIZE) pa perm k = Some (r, k')"
      using one(3) r(1) by (simp add: PGSIZE_def ac_simps)
    moreover have "mapped d (mem k) (mem k') a (Suc j) pa perm" by (rule mapped_Suc [OF one(2) r(3) Suc.prems(2)])
    ultimately show ?thesis using grows_trans [OF one(1) r(2)] r(4) by (metis Suc_le_mono)
  qed
qed

lemma mappages_eq:
  assumes "va mod PGSIZE = 0" "va + Suc n * PGSIZE \<le> 0x100000000"
  shows "mappages d va (word_of_nat (Suc n * PGSIZE)) pa perm k = mappages_loop d va (va + n * PGSIZE) pa perm k"
proof -
  have "word_of_nat va + word_of_nat (Suc n * PGSIZE) - 1 = (word_of_nat (va + Suc n * PGSIZE - 1) :: u32)"
    by (simp add: PGSIZE_def of_nat_diff)
  moreover have "unat (word_of_nat (va + Suc n * PGSIZE - 1) :: u32) = va + Suc n * PGSIZE - 1"
    using assms(2) by (intro unat_u32) (simp add: PGSIZE_def)
  moreover have "PGROUNDDOWN va = va" using assms(1) by (auto simp: PGROUNDDOWN_def)
  moreover have "PGROUNDDOWN (va + Suc n * PGSIZE - 1) = va + n * PGSIZE"
  proof -
    from assms(1) obtain q where q: "va = PGSIZE * q" by (auto simp: mod_eq_0_iff_dvd dvd_def)
    have "(va + Suc n * PGSIZE - 1) div PGSIZE = q + n" unfolding q by (rule div_nat_eqI) (simp_all add: PGSIZE_def algebra_simps)
    then show ?thesis by (simp add: PGROUNDDOWN_def q algebra_simps)
  qed
  ultimately show ?thesis by (simp add: mappages_def Let_def)
qed

section \<open>User memory\<close>

text \<open>The byte a user process sees at an address, and the pages that hold user memory.\<close>

definition aspace :: "memory \<Rightarrow> nat \<Rightarrow> nat \<Rightarrow> byte option" where
  "aspace m d va =
     (if va < KERNBASE \<and> present (pte m d va) then Some (m (frame (pte m d va) + va mod PGSIZE)) else None)"

definition upages :: "memory \<Rightarrow> nat \<Rightarrow> nat set" where
  "upages m d = (\<lambda>va. frame (pte m d va)) ` {va. va < KERNBASE \<and> present (pte m d va)}"

definition uvm_ok :: "kmem \<Rightarrow> nat list \<Rightarrow> nat \<Rightarrow> bool" where
  "uvm_ok k ps d \<longleftrightarrow> vm_ok k ps d \<and>
     (\<forall>p\<in>upages (mem k) d. page_ok (end_sym k) p \<and> p \<notin> set ps \<and> p \<notin> tabs (mem k) d) \<and>
     (\<forall>va<KERNBASE. \<forall>vb<KERNBASE. present (pte (mem k) d va) \<longrightarrow> present (pte (mem k) d vb) \<longrightarrow>
        frame (pte (mem k) d va) = frame (pte (mem k) d vb) \<longrightarrow> va div PGSIZE = vb div PGSIZE)"

text \<open>All the pages a directory owns.\<close>

definition owned :: "memory \<Rightarrow> nat \<Rightarrow> nat set" where
  "owned m d = tabs m d \<union> upages m d"

lemma KERNBASE_less [simp]: "va < KERNBASE \<Longrightarrow> va < 0x100000000"
  by (simp add: KERNBASE_def)

lemma uvm_okD:
  assumes "uvm_ok k ps d"
  shows "vm_ok k ps d" "kmem_ok k ps" "dir_ok (end_sym k) ps (mem k) d" "KERNBASE < end_sym k"
  using assms by (auto simp: uvm_ok_def vm_ok_def kmem_ok_def)

lemma uvm_okI:
  assumes "vm_ok k ps d"
    "\<And>p. p \<in> upages (mem k) d \<Longrightarrow> page_ok (end_sym k) p \<and> p \<notin> set ps \<and> p \<notin> tabs (mem k) d"
    "\<And>va vb. va < KERNBASE \<Longrightarrow> vb < KERNBASE \<Longrightarrow> present (pte (mem k) d va) \<Longrightarrow> present (pte (mem k) d vb) \<Longrightarrow>
        frame (pte (mem k) d va) = frame (pte (mem k) d vb) \<Longrightarrow> va div PGSIZE = vb div PGSIZE"
  shows "uvm_ok k ps d"
  using assms unfolding uvm_ok_def by blast

lemma uvm_inj:
  assumes "uvm_ok k ps d" "va < KERNBASE" "vb < KERNBASE" "present (pte (mem k) d va)" "present (pte (mem k) d vb)"
    "frame (pte (mem k) d va) = frame (pte (mem k) d vb)"
  shows "va div PGSIZE = vb div PGSIZE"
  using assms unfolding uvm_ok_def by blast

lemma owned_ok:
  assumes "uvm_ok k ps d" "p \<in> owned (mem k) d"
  shows "page_ok (end_sym k) p \<and> p \<notin> set ps \<and> p mod PGSIZE = 0"
  using assms tabs_ok [OF uvm_okD(3) [OF assms(1)]] by (auto simp: owned_def uvm_ok_def page_ok_def)

lemma dir_ok_free: "dir_ok e ps m d \<Longrightarrow> set ps' \<inter> tabs m d = {} \<Longrightarrow> dir_ok e ps' m d"
  by (auto simp: dir_ok_def tabs_def)

text \<open>What is not touched stays: the directory of another process is not changed.\<close>

lemma aspace_frame:
  assumes "same_outside P (mem k) m'" "\<forall>p\<in>P. p mod PGSIZE = 0" "uvm_ok k ps d" "P \<inter> owned (mem k) d = {}"
  shows "aspace m' d = aspace (mem k) d" "owned m' d = owned (mem k) d" "tabs m' d = tabs (mem k) d"
    "pte m' d va = pte (mem k) d va"
proof -
  have "P \<inter> tabs (mem k) d = {}" using assms(4) by (auto simp: owned_def)
  note f = dir_frame [OF assms(1,2) uvm_okD(3) [OF assms(3)] this]
  show "pte m' d va = pte (mem k) d va" "tabs m' d = tabs (mem k) d" by (rule f)+
  show "owned m' d = owned (mem k) d" by (simp add: owned_def upages_def f)
  show "aspace m' d = aspace (mem k) d"
  proof
    fix va
    let ?p = "frame (pte (mem k) d va)"
    have "m' (?p + va mod PGSIZE) = mem k (?p + va mod PGSIZE)" if "va < KERNBASE" "present (pte (mem k) d va)"
    proof (rule same_outside_byte [OF assms(1,2)])
      have "?p \<in> owned (mem k) d" using that by (auto simp: owned_def upages_def)
      with owned_ok [OF assms(3) this] assms(4) show "?p mod PGSIZE = 0" "?p \<notin> P" by auto
    qed (simp add: PGSIZE_def)
    then show "aspace m' d va = aspace (mem k) d va" by (simp add: aspace_def f)
  qed
qed

lemma uvm_frame:
  assumes "same_outside P (mem k) (mem k')" "\<forall>p\<in>P. p mod PGSIZE = 0" "uvm_ok k ps d" "P \<inter> owned (mem k) d = {}"
    "kmem_ok k' ps'" "end_sym k' = end_sym k" "set ps' \<inter> owned (mem k) d = {}"
  shows "uvm_ok k' ps' d"
proof -
  note f = aspace_frame [OF assms(1-4)]
  have tabs: "P \<inter> tabs (mem k) d = {}" using assms(4) by (auto simp: owned_def)
  have "dir_ok (end_sym k) ps (mem k') d"
    by (rule dir_frame(2) [OF assms(1,2) uvm_okD(3) [OF assms(3)] tabs])
  moreover have "set ps' \<inter> tabs (mem k') d = {}" using assms(7) f(3) by (auto simp: owned_def)
  ultimately have d: "dir_ok (end_sym k) ps' (mem k') d" by (rule dir_ok_free)
  have u: "upages (mem k') d = upages (mem k) d" by (simp add: upages_def f(4))
  show ?thesis
  proof (rule uvm_okI)
    show "vm_ok k' ps' d" using assms(5,6) d by (simp add: vm_ok_def)
    show "page_ok (end_sym k') p \<and> p \<notin> set ps' \<and> p \<notin> tabs (mem k') d" if "p \<in> upages (mem k') d" for p
      using that assms(3,6,7) u f(3) by (auto simp: uvm_ok_def owned_def)
  qed (unfold f(4), rule uvm_inj [OF assms(3)])
qed

section \<open>Giving a page to a process\<close>

lemma uvm_grows:
  assumes "uvm_ok k ps d" "grows d k ps k' ps'" "\<forall>va<0x100000000. pte (mem k') d va = pte (mem k) d va"
  shows "uvm_ok k' ps' d" "upages (mem k') d = upages (mem k) d"
proof -
  from assms(2) obtain qs where g: "vm_ok k' ps' d" "end_sym k' = end_sym k" "ps = qs @ ps'"
    "tabs (mem k') d = tabs (mem k) d \<union> set qs" by (auto simp: grows_def)
  have e: "pte (mem k') d va = pte (mem k) d va" if "va < KERNBASE" for va using assms(3) that by simp
  show u: "upages (mem k') d = upages (mem k) d"
    unfolding upages_def using e by (intro image_cong) auto
  show "uvm_ok k' ps' d"
  proof (rule uvm_okI [OF g(1)])
    show "page_ok (end_sym k') p \<and> p \<notin> set ps' \<and> p \<notin> tabs (mem k') d" if "p \<in> upages (mem k') d" for p
      using assms(1) that g u by (auto simp: uvm_ok_def)
    show "va div PGSIZE = vb div PGSIZE"
      if "va < KERNBASE" "vb < KERNBASE" "present (pte (mem k') d va)" "present (pte (mem k') d vb)"
        "frame (pte (mem k') d va) = frame (pte (mem k') d vb)" for va vb
      using uvm_inj [OF assms(1) that(1,2)] that(3-5) unfolding e [OF that(1)] e [OF that(2)] .
  qed
qed

text \<open>The directory now maps the page at \<open>a\<close> to \<open>p\<close>, with entry \<open>w\<close>, and is otherwise as before.\<close>

definition maps_page :: "nat \<Rightarrow> memory \<Rightarrow> memory \<Rightarrow> nat \<Rightarrow> u32 \<Rightarrow> bool" where
  "maps_page d m m' a w \<longleftrightarrow>
     (\<forall>va<0x100000000. pte m' d va = (if a \<le> va \<and> va < a + PGSIZE then w else pte m d va))"

lemma maps_page_upages:
  assumes "maps_page d m m' a w" "a mod PGSIZE = 0" "a < KERNBASE" "present w"
    "\<And>va. a \<le> va \<Longrightarrow> va < a + PGSIZE \<Longrightarrow> \<not> present (pte m d va)"
  shows "upages m' d = insert (frame w) (upages m d)"
proof -
  have e: "pte m' d va = (if a \<le> va \<and> va < a + PGSIZE then w else pte m d va)" if "va < KERNBASE" for va
    using assms(1) that by (simp add: maps_page_def)
  have "p \<in> upages m' d \<longleftrightarrow> p = frame w \<or> p \<in> upages m d" for p
  proof
    assume "p \<in> upages m' d"
    then show "p = frame w \<or> p \<in> upages m d" using e by (auto simp: upages_def split: if_splits)
  next
    assume "p = frame w \<or> p \<in> upages m d"
    then show "p \<in> upages m' d"
    proof
      assume "p = frame w"
      moreover have "pte m' d a = w" using e [OF assms(3)] by (simp add: PGSIZE_def)
      ultimately show ?thesis using assms(3,4) unfolding upages_def by (intro image_eqI [of _ _ a]) auto
    next
      assume "p \<in> upages m d"
      then obtain va where va: "va < KERNBASE" "present (pte m d va)" "p = frame (pte m d va)" by (auto simp: upages_def)
      then have "pte m' d va = pte m d va" using e [OF va(1)] assms(5) [of va] by auto
      with va show ?thesis unfolding upages_def by (intro image_eqI [of _ _ va]) auto
    qed
  qed
  then show ?thesis by blast
qed

lemma uvm_add_page:
  assumes "uvm_ok k ps d" "grows d k ps k' ps'" "maps_page d (mem k) (mem k') a w" "a mod PGSIZE = 0" "a < KERNBASE"
    "present w" "page_ok (end_sym k) (frame w)" "frame w \<notin> set ps" "frame w \<notin> owned (mem k) d"
    "\<And>va. a \<le> va \<Longrightarrow> va < a + PGSIZE \<Longrightarrow> \<not> present (pte (mem k) d va)"
  shows "uvm_ok k' ps' d"
proof -
  from assms(2) obtain qs where g: "vm_ok k' ps' d" "end_sym k' = end_sym k" "ps = qs @ ps'"
    "tabs (mem k') d = tabs (mem k) d \<union> set qs" by (auto simp: grows_def)
  have u: "upages (mem k') d = insert (frame w) (upages (mem k) d)"
    by (rule maps_page_upages [OF assms(3-6,10)])
  have pages: "page_ok (end_sym k') p \<and> p \<notin> set ps' \<and> p \<notin> tabs (mem k') d" if "p \<in> upages (mem k') d" for p
    using assms(1,7-9) that g u by (auto simp: uvm_ok_def owned_def)
  have e: "pte (mem k') d va = (if va div PGSIZE = a div PGSIZE then w else pte (mem k) d va)" if "va < KERNBASE" for va
    using assms(3) that same_page_aligned [OF assms(4), of va] by (simp add: maps_page_def)
  have nf: "frame (pte (mem k) d va) \<noteq> frame w" if "va < KERNBASE" "present (pte (mem k) d va)" for va
  proof -
    have "frame (pte (mem k) d va) \<in> upages (mem k) d" using that by (auto simp: upages_def)
    with assms(9) show ?thesis by (auto simp: owned_def)
  qed
  have "va div PGSIZE = vb div PGSIZE"
    if r: "va < KERNBASE" "vb < KERNBASE" "present (pte (mem k') d va)" "present (pte (mem k') d vb)"
      "frame (pte (mem k') d va) = frame (pte (mem k') d vb)" for va vb
  proof (cases "va div PGSIZE = a div PGSIZE"; cases "vb div PGSIZE = a div PGSIZE")
    assume "va div PGSIZE \<noteq> a div PGSIZE" "vb div PGSIZE \<noteq> a div PGSIZE"
    with r e have "present (pte (mem k) d va)" "present (pte (mem k) d vb)"
      "frame (pte (mem k) d va) = frame (pte (mem k) d vb)" by auto
    then show ?thesis by (rule uvm_inj [OF assms(1) r(1,2)])
  next
    assume "va div PGSIZE = a div PGSIZE" "vb div PGSIZE \<noteq> a div PGSIZE"
    with r(5) e [OF r(1)] e [OF r(2)] nf [OF r(2)] r(4) show ?thesis by auto
  next
    assume "va div PGSIZE \<noteq> a div PGSIZE" "vb div PGSIZE = a div PGSIZE"
    with r(5) e [OF r(1)] e [OF r(2)] nf [OF r(1)] r(3) show ?thesis by auto
  qed simp
  with g(1) pages show ?thesis by (intro uvm_okI) blast+
qed

lemma make_entry:
  assumes "page_ok e p" "KERNBASE < e" "PTE_ADDR perm = 0"
  shows "present (word_of_nat (V2P p) OR perm OR PTE_P)" "frame (word_of_nat (V2P p) OR perm OR PTE_P) = p"
proof -
  have "PTE_ADDR (perm OR PTE_P) = 0" using assms(3) by (simp add: PTE_ADDR_or)
  from frame_make [OF assms(1,2) this] show "frame (word_of_nat (V2P p) OR perm OR PTE_P) = p" .
  show "present (word_of_nat (V2P p) OR perm OR PTE_P)" unfolding or.assoc [symmetric] by (rule present_make(1))
qed

text \<open>
  The entry for a fresh page \<open>p\<close> is made at \<open>a\<close>. Nothing but the tables changes, and pages for tables
  may come from the free ones.
\<close>

lemma map_fresh:
  assumes "uvm_ok k ps d" "page_ok (end_sym k) p" "p \<notin> set ps" "p \<notin> owned (mem k) d"
    "a mod PGSIZE = 0" "a < KERNBASE" "\<And>va. a \<le> va \<Longrightarrow> va < a + PGSIZE \<Longrightarrow> \<not> present (pte (mem k) d va)"
    "PTE_ADDR perm = 0"
  defines "w \<equiv> word_of_nat (V2P p) OR perm OR PTE_P"
  shows "\<exists>r k' ps'. mappages d a (word_of_nat PGSIZE) (word_of_nat (V2P p)) perm k = Some (r, k') \<and>
    uvm_ok k' ps' d \<and> grows d k ps k' ps' \<and>
    (r = 0 \<and> maps_page d (mem k) (mem k') a w \<and> upages (mem k') d = insert p (upages (mem k) d) \<or>
     r = -1 \<and> ps' = [] \<and> upages (mem k') d = upages (mem k) d \<and> (\<forall>va<0x100000000. pte (mem k') d va = pte (mem k) d va))"
proof -
  have a: "a + Suc 0 * PGSIZE \<le> 0x100000000" using assms(5,6) by (simp add: PGSIZE_def KERNBASE_def)
  have w: "present w" "frame w = p"
    unfolding w_def by (rule make_entry [OF assms(2) uvm_okD(4) [OF assms(1)] assms(8)])+
  have np: "\<not> present (pte (mem k) d va)" if "a \<le> va" "va < a + Suc 0 * PGSIZE" for va using assms(7) that by simp
  from mappages_loop_ok [OF uvm_okD(1) [OF assms(1)] assms(5) a np] obtain r k' ps' j where
    r: "mappages_loop d a (a + 0 * PGSIZE) (word_of_nat (V2P p)) perm k = Some (r, k')" "grows d k ps k' ps'"
      "mapped d (mem k) (mem k') a j (word_of_nat (V2P p)) perm" "r = 0 \<and> j = Suc 0 \<or> r = -1 \<and> j \<le> 0 \<and> ps' = []"
    by blast
  have m: "mappages d a (word_of_nat PGSIZE) (word_of_nat (V2P p)) perm k = Some (r, k')"
    using mappages_eq [OF assms(5) a] r(1) by simp
  from r(4) show ?thesis
  proof
    assume j: "r = 0 \<and> j = Suc 0"
    then have mp: "maps_page d (mem k) (mem k') a w"
      using r(3) page_base [OF assms(5)] by (simp add: maps_page_def mapped_def w_def)
    with uvm_add_page [OF assms(1) r(2) mp assms(5,6) w(1)] maps_page_upages [OF mp assms(5,6) w(1)] w(2) assms(2-4,7)
    have "uvm_ok k' ps' d" "upages (mem k') d = insert p (upages (mem k) d)" by simp_all
    with m r(2) j mp show ?thesis by blast
  next
    assume j: "r = -1 \<and> j \<le> 0 \<and> ps' = []"
    then have same: "\<forall>va<0x100000000. pte (mem k') d va = pte (mem k) d va" using r(3) by (auto simp: mapped_def)
    from uvm_grows [OF assms(1) r(2) same] m r(2) j same show ?thesis by blast
  qed
qed

section \<open>Taking pages away\<close>

lemma present_table: "present (pte m d va) \<Longrightarrow> has_table m d (PDX va)"
  by (auto simp: pte_def split: if_splits)

lemma pte_page: "va < 0x100000000 \<Longrightarrow> vb < 0x100000000 \<Longrightarrow> va div PGSIZE = vb div PGSIZE \<Longrightarrow> pte m d va = pte m d vb"
  using same_page_iff [of va vb] by (simp add: pte_def)

text \<open>A page that is given back: first it goes to the free list, then its entry is cleared.\<close>

lemma kfree_uvm:
  assumes "uvm_ok k ps d" "p \<in> upages (mem k) d"
  obtains k1 where "kfree p k = Some k1" "vm_ok k1 (p # ps) d" "same_outside {p} (mem k) (mem k1)"
    "end_sym k1 = end_sym k" "data_sym k1 = data_sym k" "tabs (mem k1) d = tabs (mem k) d"
    "\<And>va. pte (mem k1) d va = pte (mem k) d va" "\<And>va. table (mem k1) d (PDX va) = table (mem k) d (PDX va)"
proof -
  have p: "page_ok (end_sym k) p" "p \<notin> set ps" "p \<notin> tabs (mem k) d" "p mod PGSIZE = 0"
    using assms by (auto simp: uvm_ok_def page_ok_def)
  from kfree_Some [OF uvm_okD(2) [OF assms(1)] p(1,2)] obtain k1 where
    k1: "kfree p k = Some k1" "kmem_ok k1 (p # ps)" "end_sym k1 = end_sym k" "data_sym k1 = data_sym k"
      "same_outside {p} (mem k) (mem k1)" by (auto simp: same_outside_def)
  have f: "tabs (mem k1) d = tabs (mem k) d" "dir_ok (end_sym k) ps (mem k1) d" "pte (mem k1) d va = pte (mem k) d va" for va
    using p by (auto intro!: dir_frame [OF k1(5) _ uvm_okD(3) [OF assms(1)]])
  have "set (p # ps) \<inter> tabs (mem k1) d = {}" using p(3) f(1) tabs_ok [OF uvm_okD(3) [OF assms(1)]] by auto
  note d = dir_ok_free [OF f(2) this]
  have "get32 (mem k1) (d + 4 * i) = get32 (mem k) (d + 4 * i)" if "i < 1024" for i
    using same_outside_word [OF k1(5), of d i] p(3,4) that uvm_okD(3) [OF assms(1)] by (auto simp: tabs_def dir_ok_def page_ok_def)
  then have "table (mem k1) d (PDX va) = table (mem k) d (PDX va)" for va by (simp add: table_def)
  with d k1 f(1,3) that show ?thesis by (simp add: vm_ok_def)
qed

lemma maps_zero_upages:
  assumes "uvm_ok k ps d" "maps_page d (mem k) m' a 0" "a mod PGSIZE = 0" "a < KERNBASE" "present (pte (mem k) d a)"
  shows "upages m' d = upages (mem k) d - {frame (pte (mem k) d a)}"
proof -
  have e: "pte m' d va = (if va div PGSIZE = a div PGSIZE then 0 else pte (mem k) d va)" if "va < KERNBASE" for va
    using assms(2) that same_page_aligned [OF assms(3), of va] by (simp add: maps_page_def)
  have f: "va div PGSIZE = a div PGSIZE \<longleftrightarrow> frame (pte (mem k) d va) = frame (pte (mem k) d a)"
    if "va < KERNBASE" "present (pte (mem k) d va)" for va
    using uvm_inj [OF assms(1) that(1) assms(4) that(2) assms(5)] pte_page [of va a] that(1) assms(4) by (metis KERNBASE_less)
  have "p \<in> upages m' d \<longleftrightarrow> p \<in> upages (mem k) d \<and> p \<noteq> frame (pte (mem k) d a)" for p
  proof
    assume "p \<in> upages m' d"
    then obtain va where va: "va < KERNBASE" "present (pte m' d va)" "p = frame (pte m' d va)" by (auto simp: upages_def)
    with e [OF va(1)] have n: "va div PGSIZE \<noteq> a div PGSIZE" "pte m' d va = pte (mem k) d va" by (auto split: if_splits)
    with va f [OF va(1)] show "p \<in> upages (mem k) d \<and> p \<noteq> frame (pte (mem k) d a)" by (auto simp: upages_def)
  next
    assume p: "p \<in> upages (mem k) d \<and> p \<noteq> frame (pte (mem k) d a)"
    then obtain va where va: "va < KERNBASE" "present (pte (mem k) d va)" "p = frame (pte (mem k) d va)" by (auto simp: upages_def)
    with f p e [OF va(1)] have "pte m' d va = pte (mem k) d va" by auto
    with va show "p \<in> upages m' d" unfolding upages_def by (intro image_eqI [of _ _ va]) auto
  qed
  then show ?thesis by blast
qed

lemma free_user_page:
  assumes "uvm_ok k ps d" "a mod PGSIZE = 0" "a < KERNBASE" "present (pte (mem k) d a)"
  obtains k1 where "kfree (frame (pte (mem k) d a)) k = Some k1"
    "uvm_ok (set_word (table (mem k) d (PDX a) + 4 * PTX a) 0 k1) (frame (pte (mem k) d a) # ps) d"
    "maps_page d (mem k) (mem (set_word (table (mem k) d (PDX a) + 4 * PTX a) 0 k1)) a 0"
    "tabs (mem (set_word (table (mem k) d (PDX a) + 4 * PTX a) 0 k1)) d = tabs (mem k) d"
    "end_sym k1 = end_sym k" "data_sym k1 = data_sym k"
    "same_outside (tabs (mem k) d \<union> {frame (pte (mem k) d a)}) (mem k) (mem (set_word (table (mem k) d (PDX a) + 4 * PTX a) 0 k1))"
proof -
  let ?p = "frame (pte (mem k) d a)" and ?s = "table (mem k) d (PDX a) + 4 * PTX a"
  have p: "?p \<in> upages (mem k) d" using assms(3,4) by (auto simp: upages_def)
  from kfree_uvm [OF assms(1) p] obtain k1 where
    k1: "kfree ?p k = Some k1" "vm_ok k1 (?p # ps) d" "same_outside {?p} (mem k) (mem k1)" "end_sym k1 = end_sym k"
      "data_sym k1 = data_sym k" "tabs (mem k1) d = tabs (mem k) d" "\<And>va. pte (mem k1) d va = pte (mem k) d va"
      "\<And>va. table (mem k1) d (PDX va) = table (mem k) d (PDX va)" by metis
  let ?k = "set_word ?s 0 k1"
  have h: "has_table (mem k1) d (PDX a)" using assms(4) k1(7) present_table by metis
  note g = grows_set_pte [OF k1(2) h, of 0, unfolded k1(8)]
  have dk: "dir_ok (end_sym k1) (?p # ps) (mem k1) d" using k1(2) by (simp add: vm_ok_def)
  note sp = set_pte [OF dk h, where w = 0, unfolded k1(8)]
  have mp: "maps_page d (mem k) (mem ?k) a 0"
    using sp(4) assms(3) k1(7) same_page_aligned [OF assms(2)] by (simp add: maps_page_def)
  have u: "upages (mem ?k) d = upages (mem k) d - {?p}" by (rule maps_zero_upages [OF assms(1) mp assms(2-4)])
  have tb: "tabs (mem ?k) d = tabs (mem k) d" using sp(2) k1(6) by simp
  have "uvm_ok ?k (?p # ps) d"
  proof (rule uvm_okI)
    show "vm_ok ?k (?p # ps) d" using g by (simp add: grows_def)
    show "page_ok (end_sym ?k) q \<and> q \<notin> set (?p # ps) \<and> q \<notin> tabs (mem ?k) d" if "q \<in> upages (mem ?k) d" for q
      using that assms(1) u tb k1(4) by (simp add: uvm_ok_def)
    show "va div PGSIZE = vb div PGSIZE"
      if r: "va < KERNBASE" "vb < KERNBASE" "present (pte (mem ?k) d va)" "present (pte (mem ?k) d vb)"
        "frame (pte (mem ?k) d va) = frame (pte (mem ?k) d vb)" for va vb
    proof -
      have "pte (mem ?k) d x = pte (mem k) d x" if "x < KERNBASE" "present (pte (mem ?k) d x)" for x
        using mp that unfolding maps_page_def by (metis KERNBASE_less present_make(3))
      with r show ?thesis using uvm_inj [OF assms(1) r(1,2)] by metis
    qed
  qed
  moreover have "same_outside (tabs (mem k) d \<union> {?p}) (mem k) (mem ?k)"
  proof (rule same_outside_trans)
    show "same_outside (tabs (mem k) d \<union> {?p}) (mem k) (mem k1)" by (rule same_outside_mono [OF k1(3)]) simp
    show "same_outside (tabs (mem k) d \<union> {?p}) (mem k1) (mem ?k)"
      using same_outside_mono [OF sp(1)] present_table [OF assms(4)] by (simp add: tabs_def)
  qed
  ultimately show ?thesis using that [OF k1(1)] mp tb k1(4,5) by simp
qed

end
