(* ===== verification/Xv6_Aspace.thy ===== *)
theory Xv6_Aspace
  imports Xv6_Uvm
begin

text \<open>
  What \<^verbatim>\<open>deallocuvm\<close>, \<^verbatim>\<open>allocuvm\<close>, \<^verbatim>\<open>freevm\<close>, \<^verbatim>\<open>setupkvm\<close> and \<^verbatim>\<open>copyuvm\<close> do to address
  spaces and to the free pages, on every path through them, the failing ones included.
\<close>

section \<open>Shrinking\<close>

text \<open>The pages of \<open>d\<close> from \<open>a\<close> up to \<open>z\<close> have been given back, and nothing else has happened.\<close>

definition unmapped :: "nat \<Rightarrow> nat \<Rightarrow> nat \<Rightarrow> kmem \<Rightarrow> nat list \<Rightarrow> kmem \<Rightarrow> nat list \<Rightarrow> bool" where
  "unmapped d a z k ps k' ps' \<longleftrightarrow> uvm_ok k' ps' d \<and> end_sym k' = end_sym k \<and> data_sym k' = data_sym k \<and>
     tabs (mem k') d = tabs (mem k) d \<and> set ps \<subseteq> set ps' \<and>
     set ps' \<union> upages (mem k') d = set ps \<union> upages (mem k) d \<and>
     same_outside (tabs (mem k) d \<union> set ps') (mem k) (mem k') \<and>
     (\<forall>va<KERNBASE. if a \<le> va \<and> va < z then \<not> present (pte (mem k') d va) else pte (mem k') d va = pte (mem k) d va)"

lemma unmappedD:
  assumes "unmapped d a z k ps k' ps'"
  shows "uvm_ok k' ps' d" "end_sym k' = end_sym k" "data_sym k' = data_sym k" "tabs (mem k') d = tabs (mem k) d"
    "set ps \<subseteq> set ps'" "set ps' \<union> upages (mem k') d = set ps \<union> upages (mem k) d"
    "same_outside (tabs (mem k) d \<union> set ps') (mem k) (mem k')"
    "va < KERNBASE \<Longrightarrow> \<not> (a \<le> va \<and> va < z) \<Longrightarrow> pte (mem k') d va = pte (mem k) d va"
    "va < KERNBASE \<Longrightarrow> a \<le> va \<Longrightarrow> va < z \<Longrightarrow> \<not> present (pte (mem k') d va)"
  using assms unfolding unmapped_def by (blast, blast, blast, blast, blast, blast, blast, meson, meson)

lemma unmapped_refl:
  assumes "uvm_ok k ps d" "\<And>va. a \<le> va \<Longrightarrow> va < z \<Longrightarrow> va < KERNBASE \<Longrightarrow> \<not> present (pte (mem k) d va)"
  shows "unmapped d a z k ps k ps"
  using assms by (simp add: unmapped_def)

lemma unmapped_trans:
  assumes "unmapped d a b k ps k1 ps1" "unmapped d b z k1 ps1 k2 ps2" "a \<le> b" "b \<le> z"
  shows "unmapped d a z k ps k2 ps2"
proof -
  have s: "set ps1 \<subseteq> set ps2" "tabs (mem k1) d = tabs (mem k) d" using assms by (auto simp: unmapped_def)
  have "same_outside (tabs (mem k) d \<union> set ps2) (mem k) (mem k2)"
  proof (rule same_outside_trans)
    show "same_outside (tabs (mem k) d \<union> set ps2) (mem k) (mem k1)"
      using assms(1) s(1) by (auto simp: unmapped_def elim!: same_outside_mono)
    show "same_outside (tabs (mem k) d \<union> set ps2) (mem k1) (mem k2)" using assms(2) s(2) by (auto simp: unmapped_def)
  qed
  moreover have "if a \<le> va \<and> va < z then \<not> present (pte (mem k2) d va) else pte (mem k2) d va = pte (mem k) d va"
    if "va < KERNBASE" for va
  proof -
    have "if a \<le> va \<and> va < b then \<not> present (pte (mem k1) d va) else pte (mem k1) d va = pte (mem k) d va"
      "if b \<le> va \<and> va < z then \<not> present (pte (mem k2) d va) else pte (mem k2) d va = pte (mem k1) d va"
      using assms(1,2) that by (auto simp only: unmapped_def)
    with assms(3,4) show ?thesis by (auto split: if_splits)
  qed
  ultimately show ?thesis using assms(1,2) unfolding unmapped_def by auto
qed

text \<open>Each turn of the loop that finds a page present gives it back.\<close>

lemma deallocuvm_turn:
  assumes "uvm_ok k ps d" "a mod PGSIZE = 0" "a < KERNBASE" "a < oldsz" "present (pte (mem k) d a)"
  obtains k1 ps1 where "deallocuvm_loop d a oldsz k = deallocuvm_loop d (a + PGSIZE) oldsz k1"
    "unmapped d a (a + PGSIZE) k ps k1 ps1"
proof -
  let ?p = "frame (pte (mem k) d a)" and ?s = "table (mem k) d (PDX a) + 4 * PTX a"
  from free_user_page [OF assms(1-3,5)] obtain k1 where
    k1: "kfree ?p k = Some k1" "uvm_ok (set_word ?s 0 k1) (?p # ps) d" "maps_page d (mem k) (mem (set_word ?s 0 k1)) a 0"
      "tabs (mem (set_word ?s 0 k1)) d = tabs (mem k) d" "end_sym k1 = end_sym k" "data_sym k1 = data_sym k"
      "same_outside (tabs (mem k) d \<union> {?p}) (mem k) (mem (set_word ?s 0 k1))" by metis
  have h: "has_table (mem k) d (PDX a)" by (rule present_table [OF assms(5)])
  have pte: "get32 (mem k) ?s = pte (mem k) d a" using h by (simp add: pte_def)
  have up: "?p \<in> upages (mem k) d" using assms(3,5) by (auto simp: upages_def)
  then have "page_ok (end_sym k) ?p" using assms(1) by (simp add: uvm_ok_def)
  from page_range(1) [OF this uvm_okD(4) [OF assms(1)]] have pa: "unat (PTE_ADDR (pte (mem k) d a)) \<noteq> 0"
    by (auto simp: P2V_def KERNBASE_def)
  have "0 < table (mem k) d (PDX a)" using table_pos [OF uvm_okD(1) [OF assms(1)] h] by simp
  moreover have "(a + PGSIZE) mod 0x100000000 = a + PGSIZE" using assms(2,3) by (simp add: PGSIZE_def KERNBASE_def)
  ultimately have l: "deallocuvm_loop d a oldsz k = deallocuvm_loop d (a + PGSIZE) oldsz (set_word ?s 0 k1)"
    using assms(4,5) pa k1(1) walk_present [OF h] pte by (simp add: deallocuvm_loop.simps [of d a] Let_def)
  have "upages (mem (set_word ?s 0 k1)) d = upages (mem k) d - {?p}"
    by (rule maps_zero_upages [OF assms(1) k1(3) assms(2,3,5)])
  then have "set (?p # ps) \<union> upages (mem (set_word ?s 0 k1)) d = set ps \<union> upages (mem k) d" using up by auto
  moreover have "same_outside (tabs (mem k) d \<union> set (?p # ps)) (mem k) (mem (set_word ?s 0 k1))"
    by (rule same_outside_mono [OF k1(7)]) auto
  moreover have "\<forall>va<KERNBASE. if a \<le> va \<and> va < a + PGSIZE then \<not> present (pte (mem (set_word ?s 0 k1)) d va)
      else pte (mem (set_word ?s 0 k1)) d va = pte (mem k) d va"
    using k1(3) by (simp add: maps_page_def)
  ultimately have "unmapped d a (a + PGSIZE) k ps (set_word ?s 0 k1) (?p # ps)"
    using k1 unfolding unmapped_def by (intro conjI) (assumption | auto)+
  with l show ?thesis by (rule that)
qed

lemma next_table:
  assumes "a < KERNBASE" "b = (PDX a + 1) * 0x400000"
  shows "((PGADDR (PDX a + 1) 0 0 + 0x100000000 - PGSIZE) mod 0x100000000 + PGSIZE) mod 0x100000000 = b"
    "a < b" "b mod PGSIZE = 0" "\<And>va. a \<le> va \<Longrightarrow> va < b \<Longrightarrow> PDX va = PDX a"
proof -
  have q: "a div 0x400000 < 512" using assms(1) by (simp add: KERNBASE_def less_mult_imp_div_less)
  then have P: "PDX a = a div 0x400000" by (simp add: PDX_def)
  have b: "b = (a div 0x400000 + 1) * 0x400000" "b \<le> 512 * 0x400000" using assms(2) P q by auto
  show "b mod PGSIZE = 0" by (simp add: assms(2) PGSIZE_def)
  show ab: "a < b" unfolding b(1) using dividend_less_div_times [of "0x400000" a] by simp
  have "PGADDR (PDX a + 1) 0 0 = b" using b(2) assms(2) by (simp add: PGADDR_def push_bit_eq_mult)
  moreover have "PGSIZE \<le> b" using assms(2) by (simp add: PGSIZE_def)
  ultimately show "((PGADDR (PDX a + 1) 0 0 + 0x100000000 - PGSIZE) mod 0x100000000 + PGSIZE) mod 0x100000000 = b"
    using b(2) by (auto simp: PGSIZE_def mod_if)
  fix va assume va: "a \<le> va" "va < b"
  then have "va div 0x400000 = a div 0x400000" unfolding b(1)
    by (intro div_nat_eqI) (use div_mult_mod_eq [of a "0x400000"] in simp_all)
  then show "PDX va = PDX a" by (simp add: PDX_def)
qed

lemma deallocuvm_loop_ok:
  assumes "uvm_ok k ps d" "a mod PGSIZE = 0" "oldsz \<le> KERNBASE"
  shows "\<exists>k' ps'. deallocuvm_loop d a oldsz k = Some k' \<and> unmapped d a (PGROUNDUP oldsz) k ps k' ps'"
  using assms(1,2)
proof (induction "oldsz - a" arbitrary: a k ps rule: less_induct)
  case less
  let ?z = "PGROUNDUP oldsz"
  show ?case
  proof (cases "a < oldsz")
    case False
    then have "?z \<le> a" using PGROUNDUP_least [OF less.prems(2), of oldsz] by simp
    then have "unmapped d a ?z k ps k ps" by (intro unmapped_refl less.prems) auto
    with False show ?thesis by (auto simp: deallocuvm_loop.simps [of d a])
  next
    case True
    then have a: "a < KERNBASE" using assms(3) by simp
    have az: "a + PGSIZE \<le> ?z"
      using pages_apart [OF less.prems(2) PGROUNDUP_props(1)] PGROUNDUP_props(2) [of oldsz] True by (metis leD le_trans linorder_le_cases not_less_iff_gr_or_eq le_add1)
    consider "present (pte (mem k) d a)" | "\<not> present (pte (mem k) d a)" "has_table (mem k) d (PDX a)"
      | "\<not> has_table (mem k) d (PDX a)" by blast
    then show ?thesis
    proof cases
      case 1
      from deallocuvm_turn [OF less.prems a True 1] obtain k1 ps1 where
        k1: "deallocuvm_loop d a oldsz k = deallocuvm_loop d (a + PGSIZE) oldsz k1" "unmapped d a (a + PGSIZE) k ps k1 ps1" .
      have "uvm_ok k1 ps1 d" "(a + PGSIZE) mod PGSIZE = 0" "oldsz - (a + PGSIZE) < oldsz - a"
        using k1(2) less.prems(2) True by (auto simp: unmapped_def PGSIZE_def)
      from less.hyps [OF this(3,1,2)] k1 unmapped_trans [OF k1(2)] az show ?thesis by fastforce
    next
      case 2
      have s: "0 < table (mem k) d (PDX a)" using table_pos [OF uvm_okD(1) [OF less.prems(1)] 2(2)] by simp
      have "(a + PGSIZE) mod 0x100000000 = a + PGSIZE" using less.prems(2) a by (simp add: PGSIZE_def KERNBASE_def)
      then have l: "deallocuvm_loop d a oldsz k = deallocuvm_loop d (a + PGSIZE) oldsz k"
        using 2 s True walk_present [OF 2(2)] by (simp add: deallocuvm_loop.simps [of d a] Let_def pte_def)
      have "\<not> present (pte (mem k) d va)" if "a \<le> va" "va < a + PGSIZE" "va < KERNBASE" for va
        using pte_page [of va a] 2(1) that a same_page_aligned [OF less.prems(2)] by simp
      then have u: "unmapped d a (a + PGSIZE) k ps k ps" by (intro unmapped_refl less.prems)
      have "(a + PGSIZE) mod PGSIZE = 0" "oldsz - (a + PGSIZE) < oldsz - a" using less.prems(2) True by (auto simp: PGSIZE_def)
      from less.hyps [OF this(2) less.prems(1) this(1)] l unmapped_trans [OF u] az show ?thesis by fastforce
    next
      case 3
      define b where "b = (PDX a + 1) * 0x400000"
      note nt = next_table [OF a b_def]
      have l: "deallocuvm_loop d a oldsz k = deallocuvm_loop d b oldsz k"
        using True walk_absent [OF 3] nt(1) by (simp add: deallocuvm_loop.simps [of d a] Let_def)
      have np: "\<not> present (pte (mem k) d va)" if "a \<le> va" "va < b" for va using nt(4) [OF that] 3 by (simp add: pte_def)
      show ?thesis
      proof (cases "b \<le> ?z")
        case True
        have u: "unmapped d a b k ps k ps" using np by (intro unmapped_refl less.prems) auto
        have "oldsz - b < oldsz - a" using nt(2) \<open>a < oldsz\<close> by simp
        from less.hyps [OF this less.prems(1) nt(3)] l unmapped_trans [OF u] nt(2) True show ?thesis by fastforce
      next
        case False
        then have "oldsz \<le> b" using PGROUNDUP_props(2) [of oldsz] by simp
        then have "deallocuvm_loop d b oldsz k = Some k" by (simp add: deallocuvm_loop.simps [of d b])
        moreover have "unmapped d a ?z k ps k ps" using np False by (intro unmapped_refl less.prems) auto
        ultimately show ?thesis using l by auto
      qed
    qed
  qed
qed

lemma upage_byte:
  assumes "uvm_ok k ps d" "same_outside P m (mem k)" "\<forall>p\<in>P. p mod PGSIZE = 0" "P \<inter> upages (mem k) d = {}"
    "va < KERNBASE" "present (pte (mem k) d va)"
  shows "mem k (frame (pte (mem k) d va) + va mod PGSIZE) = m (frame (pte (mem k) d va) + va mod PGSIZE)"
proof (rule same_outside_byte [OF assms(2,3)])
  have "frame (pte (mem k) d va) \<in> upages (mem k) d" using assms(5,6) by (auto simp: upages_def)
  with assms(1,4) show "frame (pte (mem k) d va) mod PGSIZE = 0" "frame (pte (mem k) d va) \<notin> P"
    by (auto simp: uvm_ok_def page_ok_def)
qed (simp add: PGSIZE_def)

lemma pages_aligned:
  assumes "uvm_ok k ps d"
  shows "\<forall>p\<in>tabs (mem k) d \<union> set ps. p mod PGSIZE = 0"
  using tabs_ok [OF uvm_okD(3) [OF assms]] uvm_okD(2) [OF assms] by (auto simp: kmem_ok_def page_ok_def)

lemma unmapped_aspace:
  assumes "unmapped d a z k ps k' ps'"
  shows "aspace (mem k') d va = (if a \<le> va \<and> va < z then None else aspace (mem k) d va)"
proof (cases "va < KERNBASE")
  case True
  then have e: "if a \<le> va \<and> va < z then \<not> present (pte (mem k') d va) else pte (mem k') d va = pte (mem k) d va"
    using assms unfolding unmapped_def by blast
  have u: "uvm_ok k' ps' d" "tabs (mem k') d = tabs (mem k) d" "same_outside (tabs (mem k) d \<union> set ps') (mem k) (mem k')"
    using assms by (auto simp: unmapped_def)
  have "(tabs (mem k) d \<union> set ps') \<inter> upages (mem k') d = {}" using u(1,2) by (auto simp: uvm_ok_def)
  from upage_byte [OF u(1,3) _ this True] pages_aligned [OF u(1)] u(2) e True
  show ?thesis by (auto simp: aspace_def split: if_splits)
qed (simp add: aspace_def)

lemma deallocuvm_ok:
  assumes "uvm_ok k ps d" "newsz < oldsz" "oldsz \<le> KERNBASE"
  shows "\<exists>k' ps'. deallocuvm d oldsz newsz k = Some (newsz, k') \<and>
    unmapped d (PGROUNDUP newsz) (PGROUNDUP oldsz) k ps k' ps'"
proof -
  have "PGROUNDUP newsz < 0x100000000" using PGROUNDUP_props(3) [of newsz] assms(2,3) by (simp add: PGSIZE_def KERNBASE_def)
  with deallocuvm_loop_ok [OF assms(1) PGROUNDUP_props(1) assms(3), of newsz] assms(2) show ?thesis
    by (auto simp: deallocuvm_def)
qed

section \<open>Growing\<close>

text \<open>
  A free page \<open>p\<close> is filled, which gives the memory \<open>m1\<close>, and entered into the directory at \<open>a\<close>.
\<close>

definition entered :: "nat \<Rightarrow> nat \<Rightarrow> u32 \<Rightarrow> nat \<Rightarrow> memory \<Rightarrow> kmem \<Rightarrow> nat list \<Rightarrow> kmem \<Rightarrow> nat list \<Rightarrow> bool" where
  "entered d a perm p m1 k ps k' ps' \<longleftrightarrow>
     maps_page d (mem k) (mem k') a (word_of_nat (V2P p) OR perm OR PTE_P) \<and>
     set ps' \<union> owned (mem k') d = insert p (set ps \<union> owned (mem k) d) \<and>
     (\<forall>va<KERNBASE. aspace (mem k') d va =
        (if a \<le> va \<and> va < a + PGSIZE then Some (m1 (p + va mod PGSIZE)) else aspace (mem k) d va))"

definition map_refused :: "nat \<Rightarrow> nat \<Rightarrow> kmem \<Rightarrow> nat list \<Rightarrow> kmem \<Rightarrow> nat list \<Rightarrow> bool" where
  "map_refused d p k ps k' ps' \<longleftrightarrow> (\<forall>va<0x100000000. pte (mem k') d va = pte (mem k) d va) \<and> ps' = [] \<and>
     owned (mem k') d = set ps \<union> owned (mem k) d \<and> aspace (mem k') d = aspace (mem k) d"

lemma grown_byte:
  assumes "uvm_ok k ps d" "uvm_ok k' ps' d" "grows d k ps k' ps'" "va < KERNBASE" "present (pte (mem k') d va)"
  shows "mem k' (frame (pte (mem k') d va) + va mod PGSIZE) = mem k (frame (pte (mem k') d va) + va mod PGSIZE)"
proof (rule upage_byte [OF assms(2) _ pages_aligned [OF assms(1)] _ assms(4,5)])
  from assms(3) obtain qs where g: "ps = qs @ ps'" "tabs (mem k') d = tabs (mem k) d \<union> set qs"
    "same_outside (tabs (mem k) d \<union> set ps) (mem k) (mem k')" by (auto simp: grows_def)
  then show "(tabs (mem k) d \<union> set ps) \<inter> upages (mem k') d = {}" using assms(2) by (auto simp: uvm_ok_def)
  show "same_outside (tabs (mem k) d \<union> set ps) (mem k) (mem k')" by (rule g(3))
qed

lemma grown_owned:
  assumes "grows d k ps k' ps'"
  shows "set ps' \<subseteq> set ps" "set ps' \<union> owned (mem k') d = set ps \<union> tabs (mem k) d \<union> upages (mem k') d"
proof -
  from assms obtain qs where g: "ps = qs @ ps'" "tabs (mem k') d = tabs (mem k) d \<union> set qs"
    unfolding grows_def by blast
  then show "set ps' \<subseteq> set ps" "set ps' \<union> owned (mem k') d = set ps \<union> tabs (mem k) d \<union> upages (mem k') d"
    by (auto simp only: owned_def set_append)
qed

lemma entered_aspace:
  assumes "uvm_ok k ps d" "uvm_ok k' ps' d" "grows d k ps k' ps'" "maps_page d (mem k) (mem k') a w" "present w"
    "va < KERNBASE"
  shows "aspace (mem k') d va =
    (if a \<le> va \<and> va < a + PGSIZE then Some (mem k (frame w + va mod PGSIZE)) else aspace (mem k) d va)"
proof -
  have "pte (mem k') d va = (if a \<le> va \<and> va < a + PGSIZE then w else pte (mem k) d va)"
    using assms(4,6) by (simp add: maps_page_def)
  with grown_byte [OF assms(1-3,6)] assms(5,6) show ?thesis by (auto simp: aspace_def)
qed

lemma give_page:
  assumes "uvm_ok k (p # ps) d" "same_outside {p} (mem k) m1" "a mod PGSIZE = 0" "a < KERNBASE" "PTE_ADDR perm = 0"
    "\<And>va. a \<le> va \<Longrightarrow> va < a + PGSIZE \<Longrightarrow> \<not> present (pte (mem k) d va)"
  defines "k1 \<equiv> k\<lparr>freelist := unat (get32 (mem k) p), mem := m1\<rparr>"
  shows "\<exists>r k' ps'. mappages d a (word_of_nat PGSIZE) (word_of_nat (V2P p)) perm k1 = Some (r, k') \<and>
    uvm_ok k' ps' d \<and> end_sym k' = end_sym k \<and> data_sym k' = data_sym k \<and> set ps' \<subseteq> set ps \<and>
    same_outside (tabs (mem k) d \<union> set (p # ps)) (mem k) (mem k') \<and>
    (r = 0 \<and> entered d a perm p m1 k ps k' ps' \<or> r = -1 \<and> map_refused d p k ps k' ps')"
proof -
  have al: "kmem_ok (k\<lparr>freelist := unat (get32 (mem k) p)\<rparr>) ps" "page_ok (end_sym k) p" "p \<notin> set ps"
    using kalloc_Cons [OF uvm_okD(2) [OF assms(1)]] by auto
  have p: "p \<notin> owned (mem k) d" "set ps \<inter> owned (mem k) d = {}" "p mod PGSIZE = 0"
    using owned_ok [OF assms(1)] al(2) by (auto simp: page_ok_def)
  have "kmem_ok k1 ps" using kmem_ok_same [OF al(1), of "{p}" m1] assms(2) p(3) al(3) by (simp add: k1_def)
  then have u1: "uvm_ok k1 ps d"
    using p assms(2) by (intro uvm_frame [OF _ _ assms(1), of "{p}"]) (auto simp: k1_def)
  have f: "aspace m1 d = aspace (mem k) d" "owned m1 d = owned (mem k) d" "tabs m1 d = tabs (mem k) d"
    "pte m1 d va = pte (mem k) d va" for va
    using p assms(2) by (auto intro!: aspace_frame [OF assms(2) _ assms(1)])
  have m1: "mem k1 = m1" "end_sym k1 = end_sym k" "data_sym k1 = data_sym k" by (simp_all add: k1_def)
  from map_fresh [OF u1 _ al(3) _ assms(3,4) _ assms(5), unfolded m1 f] al(2) p(1) assms(6) obtain r k' ps' where
    r: "mappages d a (word_of_nat PGSIZE) (word_of_nat (V2P p)) perm k1 = Some (r, k')" "uvm_ok k' ps' d" "grows d k1 ps k' ps'"
      "r = 0 \<and> maps_page d m1 (mem k') a (word_of_nat (V2P p) OR perm OR PTE_P) \<and> upages (mem k') d = insert p (upages m1 d) \<or>
       r = -1 \<and> ps' = [] \<and> upages (mem k') d = upages m1 d \<and> (\<forall>va<0x100000000. pte (mem k') d va = pte (mem k) d va)"
    by metis
  have g: "tabs m1 d \<union> set ps \<subseteq> tabs (mem k) d \<union> set (p # ps)" "same_outside (tabs m1 d \<union> set ps) m1 (mem k')"
    "end_sym k' = end_sym k" "data_sym k' = data_sym k" using r(3) f(3) by (auto simp: grows_def m1)
  have "same_outside (tabs (mem k) d \<union> set (p # ps)) (mem k) (mem k')"
    by (rule same_outside_trans [OF same_outside_mono [OF assms(2)] same_outside_mono [OF g(2,1)]]) simp
  moreover have "r = 0 \<and> entered d a perm p m1 k ps k' ps' \<or> r = -1 \<and> map_refused d p k ps k' ps'"
    using r(4)
  proof
    assume z: "r = 0 \<and> maps_page d m1 (mem k') a (word_of_nat (V2P p) OR perm OR PTE_P) \<and>
      upages (mem k') d = insert p (upages m1 d)"
    have w: "present (word_of_nat (V2P p) OR perm OR PTE_P)" "frame (word_of_nat (V2P p) OR perm OR PTE_P) = p"
      using make_entry [OF al(2) uvm_okD(4) [OF assms(1)] assms(5)] by auto
    have mp: "maps_page d (mem k) (mem k') a (word_of_nat (V2P p) OR perm OR PTE_P)"
      using z f(4) by (simp add: maps_page_def)
    have "set ps' \<union> owned (mem k') d = insert p (set ps \<union> owned (mem k) d)"
      using grown_owned(2) [OF r(3)] z f(2) by (auto simp: m1 owned_def)
    with mp entered_aspace [OF u1 r(2,3) _ w(1), unfolded m1 w(2), of a] z f(1) show ?thesis by (simp add: entered_def)
  next
    assume z: "r = -1 \<and> ps' = [] \<and> upages (mem k') d = upages m1 d \<and> (\<forall>va<0x100000000. pte (mem k') d va = pte (mem k) d va)"
    have "owned (mem k') d = set ps \<union> owned (mem k) d"
      using grown_owned(2) [OF r(3)] z f(2) by (auto simp: m1 owned_def)
    moreover have "aspace (mem k') d va = aspace m1 d va" for va
      using grown_byte [OF u1 r(2,3)] z f(4) by (auto simp: aspace_def m1)
    ultimately show ?thesis using z f(1) by (auto simp: map_refused_def fun_eq_iff)
  qed
  ultimately show ?thesis using r(1,2) g(3,4) grown_owned(1) [OF r(3)] by blast
qed

text \<open>
  From \<open>k0\<close> to \<open>k\<close> the directory has kept its user pages, pages have moved only between the directory
  and the free list, and nothing else has changed.
\<close>

definition keeps :: "nat \<Rightarrow> kmem \<Rightarrow> nat list \<Rightarrow> kmem \<Rightarrow> nat list \<Rightarrow> bool" where
  "keeps d k0 ps0 k ps \<longleftrightarrow> uvm_ok k ps d \<and> end_sym k = end_sym k0 \<and> data_sym k = data_sym k0 \<and>
     set ps \<union> owned (mem k) d = set ps0 \<union> owned (mem k0) d \<and>
     same_outside (tabs (mem k0) d \<union> set ps0) (mem k0) (mem k) \<and>
     (\<forall>va<KERNBASE. present (pte (mem k0) d va) \<longrightarrow> pte (mem k) d va = pte (mem k0) d va)"

lemma keeps_refl: "uvm_ok k ps d \<Longrightarrow> keeps d k ps k ps"
  by (simp add: keeps_def)

lemma keeps_pages:
  assumes "uvm_ok k ps d" "set ps \<union> owned (mem k) d = set ps0 \<union> owned (mem k0) d"
    "\<forall>va<KERNBASE. present (pte (mem k0) d va) \<longrightarrow> pte (mem k) d va = pte (mem k0) d va"
  shows "tabs (mem k) d \<union> set ps \<subseteq> tabs (mem k0) d \<union> set ps0"
proof
  fix q assume q: "q \<in> tabs (mem k) d \<union> set ps"
  have "upages (mem k0) d \<subseteq> upages (mem k) d"
  proof
    fix q assume "q \<in> upages (mem k0) d"
    then obtain va where va: "va < KERNBASE" "present (pte (mem k0) d va)" "q = frame (pte (mem k0) d va)"
      by (auto simp: upages_def)
    then have "pte (mem k) d va = pte (mem k0) d va" using assms(3) by simp
    with va show "q \<in> upages (mem k) d" unfolding upages_def by (intro image_eqI [of _ _ va]) auto
  qed
  then have "q \<notin> upages (mem k0) d" using q assms(1) by (auto simp: uvm_ok_def)
  moreover have "q \<in> set ps0 \<union> owned (mem k0) d" using q assms(2) by (auto simp: owned_def)
  ultimately show "q \<in> tabs (mem k0) d \<union> set ps0" by (auto simp: owned_def)
qed

lemma keeps_step:
  assumes "keeps d k0 ps0 k ps" "uvm_ok k' ps' d" "end_sym k' = end_sym k" "data_sym k' = data_sym k"
    "set ps' \<union> owned (mem k') d = set ps \<union> owned (mem k) d"
    "\<forall>va<KERNBASE. present (pte (mem k0) d va) \<longrightarrow> pte (mem k') d va = pte (mem k0) d va"
    "same_outside (tabs (mem k) d \<union> set ps \<union> (tabs (mem k') d \<union> set ps')) (mem k) (mem k')"
  shows "keeps d k0 ps0 k' ps'"
proof -
  have k': "set ps' \<union> owned (mem k') d = set ps0 \<union> owned (mem k0) d" using assms(1,5) by (simp add: keeps_def)
  have "tabs (mem k) d \<union> set ps \<union> (tabs (mem k') d \<union> set ps') \<subseteq> tabs (mem k0) d \<union> set ps0"
    using keeps_pages [of k ps d ps0 k0] keeps_pages [OF assms(2) k' assms(6)] assms(1) by (simp add: keeps_def)
  from same_outside_mono [OF assms(7) this] have "same_outside (tabs (mem k0) d \<union> set ps0) (mem k0) (mem k')"
    using assms(1) same_outside_trans by (auto simp: keeps_def)
  then show ?thesis using assms k' by (simp add: keeps_def)
qed

lemma keeps_unmapped:
  assumes "keeps d k0 ps0 k ps" "unmapped d a z k ps k' ps'"
    "\<And>va. a \<le> va \<Longrightarrow> va < KERNBASE \<Longrightarrow> \<not> present (pte (mem k0) d va)"
  shows "keeps d k0 ps0 k' ps'"
proof (rule keeps_step [OF assms(1)])
  note u = unmappedD [OF assms(2)]
  show "same_outside (tabs (mem k) d \<union> set ps \<union> (tabs (mem k') d \<union> set ps')) (mem k) (mem k')"
    by (rule same_outside_mono [OF u(7)]) blast
  show "\<forall>va<KERNBASE. present (pte (mem k0) d va) \<longrightarrow> pte (mem k') d va = pte (mem k0) d va"
  proof (intro allI impI)
    fix va assume va: "va < KERNBASE" "present (pte (mem k0) d va)"
    with assms(3) have "\<not> a \<le> va" by blast
    with u(8) [OF va(1)] assms(1) va show "pte (mem k') d va = pte (mem k0) d va" by (simp add: keeps_def)
  qed
  show "set ps' \<union> owned (mem k') d = set ps \<union> owned (mem k) d" using u(4,6) unfolding owned_def by blast
qed (rule unmappedD [OF assms(2)])+

text \<open>The pages from \<open>A\<close> up to \<open>a\<close> are new: zeroed, and open to the user.\<close>

definition zeroed :: "nat \<Rightarrow> nat \<Rightarrow> nat \<Rightarrow> kmem \<Rightarrow> kmem \<Rightarrow> bool" where
  "zeroed d A a k0 k \<longleftrightarrow> (\<forall>va<KERNBASE.
     if A \<le> va \<and> va < a then PTE_FLAGS (pte (mem k) d va) = PTE_W OR PTE_U OR PTE_P \<and> aspace (mem k) d va = Some 0
     else pte (mem k) d va = pte (mem k0) d va \<and> aspace (mem k) d va = aspace (mem k0) d va)"

lemma allocuvm_turn:
  assumes "keeps d k0 ps0 k (p # ps)" "zeroed d A a k0 k" "a mod PGSIZE = 0" "A \<le> a" "a < KERNBASE"
    "\<And>va. A \<le> va \<Longrightarrow> va < KERNBASE \<Longrightarrow> \<not> present (pte (mem k0) d va)"
  defines "k1 \<equiv> k\<lparr>freelist := unat (get32 (mem k) p), mem := memset p 0 PGSIZE (mem k)\<rparr>"
  obtains (ok) k' ps' where "mappages d a (word_of_nat PGSIZE) (word_of_nat (V2P p)) (PTE_W OR PTE_U) k1 = Some (0, k')"
      "keeps d k0 ps0 k' ps'" "zeroed d A (a + PGSIZE) k0 k'"
  | (full) k' where "mappages d a (word_of_nat PGSIZE) (word_of_nat (V2P p)) (PTE_W OR PTE_U) k1 = Some (-1, k')"
      "uvm_ok k' [] d" "map_refused d p k ps k' []" "same_outside (tabs (mem k) d \<union> set (p # ps)) (mem k) (mem k')"
      "end_sym k' = end_sym k" "data_sym k' = data_sym k"
proof -
  have u: "uvm_ok k (p # ps) d" using assms(1) by (simp add: keeps_def)
  have np: "\<not> present (pte (mem k) d va)" if "a \<le> va" "va < a + PGSIZE" for va
  proof -
    have "va < KERNBASE" using that assms(3,5) by (auto simp: KERNBASE_def PGSIZE_def)
    with assms(2,4,6) that show ?thesis by (auto simp: zeroed_def)
  qed
  from give_page [OF u same_outside_memset assms(3,5) _ np, of "PTE_W OR PTE_U" 0] obtain r k' ps' where
    r: "mappages d a (word_of_nat PGSIZE) (word_of_nat (V2P p)) (PTE_W OR PTE_U) k1 = Some (r, k')" "uvm_ok k' ps' d"
    "end_sym k' = end_sym k" "data_sym k' = data_sym k" "set ps' \<subseteq> set ps"
    "same_outside (tabs (mem k) d \<union> set (p # ps)) (mem k) (mem k')"
    "r = 0 \<and> entered d a (PTE_W OR PTE_U) p (memset p 0 PGSIZE (mem k)) k ps k' ps' \<or> r = -1 \<and> map_refused d p k ps k' ps'"
    unfolding k1_def by (auto simp: PTE_ADDR_or)
  from r(7) show ?thesis
  proof
    assume z: "r = 0 \<and> entered d a (PTE_W OR PTE_U) p (memset p 0 PGSIZE (mem k)) k ps k' ps'"
    note e = entered_def [of d a "PTE_W OR PTE_U" p "memset p 0 PGSIZE (mem k)" k ps k' ps', THEN iffD1, OF conjunct2 [OF z]]
    let ?w = "word_of_nat (V2P p) OR (PTE_W OR PTE_U) OR PTE_P"
    have pte: "pte (mem k') d va = (if a \<le> va \<and> va < a + PGSIZE then ?w else pte (mem k) d va)" if "va < KERNBASE" for va
      using e that by (simp add: maps_page_def)
    have p: "page_ok (end_sym k) p" using kalloc_Cons(3) [OF uvm_okD(2) [OF u]] .
    have "PTE_FLAGS ?w = PTE_W OR PTE_U OR PTE_P"
      using PTE_FLAGS_make [OF V2P_aligned [OF p uvm_okD(4) [OF u]], of "PTE_W OR PTE_U OR PTE_P"]
      by (simp add: PTE_ADDR_or or.assoc)
    moreover have "memset p 0 PGSIZE (mem k) (p + va mod PGSIZE) = 0" for va by (simp add: memset_eq PGSIZE_def)
    ultimately have "zeroed d A (a + PGSIZE) k0 k'"
      using e assms(2,4) pte unfolding zeroed_def by auto
    moreover have "keeps d k0 ps0 k' ps'"
    proof (rule keeps_step [OF assms(1) r(2-4)])
      show "set ps' \<union> owned (mem k') d = set (p # ps) \<union> owned (mem k) d" using e by auto
      show "\<forall>va<KERNBASE. present (pte (mem k0) d va) \<longrightarrow> pte (mem k') d va = pte (mem k0) d va"
        using pte assms(1,4,6) by (force simp: keeps_def)
      show "same_outside (tabs (mem k) d \<union> set (p # ps) \<union> (tabs (mem k') d \<union> set ps')) (mem k) (mem k')"
        by (rule same_outside_mono [OF r(6)]) blast
    qed
    ultimately show ?thesis using ok r(1) z by blast
  next
    assume z: "r = -1 \<and> map_refused d p k ps k' ps'"
    then have "ps' = []" by (simp add: map_refused_def)
    with z show ?thesis using full r by blast
  qed
qed

lemma free_unowned:
  assumes "uvm_ok k ps d" "page_ok (end_sym k) p" "p \<notin> set ps" "p \<notin> owned (mem k) d"
  obtains k' where "kfree p k = Some k'" "uvm_ok k' (p # ps) d" "end_sym k' = end_sym k" "data_sym k' = data_sym k"
    "same_outside {p} (mem k) (mem k')" "aspace (mem k') d = aspace (mem k) d" "owned (mem k') d = owned (mem k) d"
    "tabs (mem k') d = tabs (mem k) d" "\<And>va. pte (mem k') d va = pte (mem k) d va"
proof -
  from kfree_Some [OF uvm_okD(2) [OF assms(1)] assms(2,3)] obtain k' where
    k: "kfree p k = Some k'" "kmem_ok k' (p # ps)" "end_sym k' = end_sym k" "data_sym k' = data_sym k"
      "same_outside {p} (mem k) (mem k')" by (auto simp: same_outside_def)
  have p: "\<forall>q\<in>{p}. q mod PGSIZE = 0" "{p} \<inter> owned (mem k) d = {}" using assms(2,4) by (auto simp: page_ok_def)
  have "set (p # ps) \<inter> owned (mem k) d = {}" using owned_ok [OF assms(1)] assms(4) by auto
  from uvm_frame [OF k(5) p(1) assms(1) p(2) k(2,3) this] aspace_frame [OF k(5) p(1) assms(1) p(2)] k that
  show ?thesis by metis
qed

text \<open>Both ways in which \<^verbatim>\<open>allocuvm\<close> fails leave the address space as it was.\<close>

lemma allocuvm_undo:
  assumes "uvm_ok k ps d" "zeroed d (PGROUNDUP oldsz) a k0 k" "a \<le> PGROUNDUP newsz" "oldsz < newsz" "newsz < KERNBASE"
    "\<And>va. PGROUNDUP oldsz \<le> va \<Longrightarrow> va < KERNBASE \<Longrightarrow> \<not> present (pte (mem k0) d va)"
  obtains k' ps' where "deallocuvm d newsz oldsz k = Some (oldsz, k')"
    "aspace (mem k') d = aspace (mem k0) d" "unmapped d (PGROUNDUP oldsz) (PGROUNDUP newsz) k ps k' ps'"
proof -
  from deallocuvm_ok [OF assms(1,4)] assms(5) obtain k' ps' where
    k': "deallocuvm d newsz oldsz k = Some (oldsz, k')" "unmapped d (PGROUNDUP oldsz) (PGROUNDUP newsz) k ps k' ps'" by auto
  have "aspace (mem k') d va = aspace (mem k0) d va" for va
  proof (cases "va < KERNBASE")
    case True
    then have "if PGROUNDUP oldsz \<le> va \<and> va < a then True else aspace (mem k) d va = aspace (mem k0) d va"
      using assms(2) unfolding zeroed_def by meson
    moreover have "PGROUNDUP oldsz \<le> va \<Longrightarrow> aspace (mem k0) d va = None" using assms(6) True by (simp add: aspace_def)
    ultimately show ?thesis using unmapped_aspace [OF k'(2), of va] assms(3) by (auto split: if_splits)
  qed (simp add: aspace_def)
  with that [OF k'(1)] k'(2) show ?thesis by blast
qed

lemma allocuvm_full:
  assumes "keeps d k0 ps0 k (p # ps)" "zeroed d (PGROUNDUP oldsz) a k0 k" "a \<le> PGROUNDUP newsz" "oldsz < newsz"
    "newsz < KERNBASE" "\<And>va. PGROUNDUP oldsz \<le> va \<Longrightarrow> va < KERNBASE \<Longrightarrow> \<not> present (pte (mem k0) d va)"
    "uvm_ok k' [] d" "map_refused d p k ps k' []" "same_outside (tabs (mem k) d \<union> set (p # ps)) (mem k) (mem k')"
    "end_sym k' = end_sym k" "data_sym k' = data_sym k"
  obtains k2 k3 ps3 where "deallocuvm d newsz oldsz k' = Some (oldsz, k2)" "kfree p k2 = Some k3"
    "keeps d k0 ps0 k3 ps3" "aspace (mem k3) d = aspace (mem k0) d"
proof -
  have u: "uvm_ok k (p # ps) d" using assms(1) by (simp add: keeps_def)
  have r: "pte (mem k') d va = pte (mem k) d va" if "va < KERNBASE" for va using assms(8) that by (simp add: map_refused_def)
  have r2: "owned (mem k') d = set ps \<union> owned (mem k) d" "aspace (mem k') d = aspace (mem k) d"
    using assms(8) by (simp_all add: map_refused_def)
  have z: "zeroed d (PGROUNDUP oldsz) a k0 k'" using assms(2) r r2(2) by (simp add: zeroed_def)
  from allocuvm_undo [OF assms(7) z assms(3-6)] obtain k2 ps2 where
    k2: "deallocuvm d newsz oldsz k' = Some (oldsz, k2)" "aspace (mem k2) d = aspace (mem k0) d"
      "unmapped d (PGROUNDUP oldsz) (PGROUNDUP newsz) k' [] k2 ps2" by metis
  note un = unmappedD [OF k2(3)]
  have p: "page_ok (end_sym k) p" "p \<notin> set ps" using kalloc_Cons(3,4) [OF uvm_okD(2) [OF u]] .
  have cons: "set ps2 \<union> owned (mem k2) d = set ps \<union> owned (mem k) d" using un(4,6) r2(1) by (auto simp: owned_def)
  have "p \<notin> set ps2" "p \<notin> owned (mem k2) d" using cons p(2) owned_ok [OF u, of p] by auto
  from free_unowned [OF un(1) _ this] p(1) un(2) assms(10) obtain k3 where
    k3: "kfree p k2 = Some k3" "uvm_ok k3 (p # ps2) d" "end_sym k3 = end_sym k2" "data_sym k3 = data_sym k2"
      "same_outside {p} (mem k2) (mem k3)" "aspace (mem k3) d = aspace (mem k2) d" "owned (mem k3) d = owned (mem k2) d"
      "tabs (mem k3) d = tabs (mem k2) d" "\<And>va. pte (mem k3) d va = pte (mem k2) d va" by metis
  have "keeps d k0 ps0 k3 (p # ps2)"
  proof (rule keeps_step [OF assms(1) k3(2)])
    let ?P = "tabs (mem k) d \<union> set (p # ps) \<union> (tabs (mem k3) d \<union> set (p # ps2))"
    show "end_sym k3 = end_sym k" "data_sym k3 = data_sym k" using k3(3,4) un(2,3) assms(10,11) by simp_all
    show "set (p # ps2) \<union> owned (mem k3) d = set (p # ps) \<union> owned (mem k) d" using cons k3(7) by auto
    show "\<forall>va<KERNBASE. present (pte (mem k0) d va) \<longrightarrow> pte (mem k3) d va = pte (mem k0) d va"
    proof (intro allI impI)
      fix va assume va: "va < KERNBASE" "present (pte (mem k0) d va)"
      then have "\<not> PGROUNDUP oldsz \<le> va" using assms(6) by blast
      with un(8) [OF va(1)] k3(9) r [OF va(1)] assms(1) va show "pte (mem k3) d va = pte (mem k0) d va" by (simp add: keeps_def)
    qed
    have "same_outside ?P (mem k) (mem k')" by (rule same_outside_mono [OF assms(9)]) blast
    moreover have "same_outside ?P (mem k') (mem k2)" by (rule same_outside_mono [OF un(7)]) (use un(4) k3(8) in auto)
    moreover have "same_outside ?P (mem k2) (mem k3)" by (rule same_outside_mono [OF k3(5)]) simp
    ultimately show "same_outside ?P (mem k) (mem k3)" by (blast intro: same_outside_trans)
  qed
  with that [OF k2(1) k3(1)] k3(6) k2(2) show ?thesis by simp
qed

lemma allocuvm_loop_ok:
  assumes "keeps d k0 ps0 k ps" "zeroed d (PGROUNDUP oldsz) a k0 k" "a mod PGSIZE = 0" "PGROUNDUP oldsz \<le> a"
    "a \<le> PGROUNDUP newsz" "newsz < KERNBASE"
    "\<And>va. PGROUNDUP oldsz \<le> va \<Longrightarrow> va < KERNBASE \<Longrightarrow> \<not> present (pte (mem k0) d va)"
  shows "\<exists>r k' ps'. allocuvm_loop d a oldsz newsz k = Some (r, k') \<and> keeps d k0 ps0 k' ps' \<and>
    (r = newsz \<and> zeroed d (PGROUNDUP oldsz) (PGROUNDUP newsz) k0 k' \<or> r = 0 \<and> aspace (mem k') d = aspace (mem k0) d)"
  using assms(1-5)
proof (induction "newsz - a" arbitrary: a k ps rule: less_induct)
  case less
  show ?case
  proof (cases "a < newsz")
    case False
    then have "PGROUNDUP newsz = a" using PGROUNDUP_least [OF less.prems(3), of newsz] less.prems(5) by simp
    with less.prems(1,2) False show ?thesis by (auto simp: allocuvm_loop.simps [of d a])
  next
    case True
    then have sz: "oldsz < newsz" and a: "a < KERNBASE" using PGROUNDUP_props(2) [of oldsz] less.prems(4) assms(6) by auto
    have u: "uvm_ok k ps d" using less.prems(1) by (simp add: keeps_def)
    show ?thesis
    proof (cases ps)
      case Nil
      then have "kalloc k = (0, k)" using kalloc_Nil uvm_okD(2) [OF u] by simp
      moreover from allocuvm_undo [OF u less.prems(2,5) sz assms(6,7)] obtain k' ps' where
        "deallocuvm d newsz oldsz k = Some (oldsz, k')" "aspace (mem k') d = aspace (mem k0) d"
        "unmapped d (PGROUNDUP oldsz) (PGROUNDUP newsz) k ps k' ps'" by metis
      ultimately show ?thesis using True keeps_unmapped [OF less.prems(1) _ assms(7)]
        by (fastforce simp: allocuvm_loop.simps [of d a])
    next
      case (Cons p ps1)
      have kp: "keeps d k0 ps0 k (p # ps1)" using less.prems(1) Cons by simp
      note al = kalloc_Cons [OF uvm_okD(2) [OF u [unfolded Cons]]]
      show ?thesis
      proof (rule allocuvm_turn [OF kp less.prems(2-4) a assms(7)])
        fix k' ps'
        assume ok: "mappages d a (word_of_nat PGSIZE) (word_of_nat (V2P p)) (PTE_W OR PTE_U)
            (k\<lparr>freelist := unat (get32 (mem k) p), mem := memset p 0 PGSIZE (mem k)\<rparr>) = Some (0, k')"
          "keeps d k0 ps0 k' ps'" "zeroed d (PGROUNDUP oldsz) (a + PGSIZE) k0 k'"
        have "a + PGSIZE \<le> PGROUNDUP newsz"
          using pages_apart [OF less.prems(3) PGROUNDUP_props(1), of newsz] PGROUNDUP_props(2) [of newsz] True by auto
        moreover have "(a + PGSIZE) mod 0x100000000 = a + PGSIZE" "(a + PGSIZE) mod PGSIZE = 0" "newsz - (a + PGSIZE) < newsz - a"
          using less.prems(3) a True by (auto simp: PGSIZE_def KERNBASE_def)
        ultimately show ?thesis
          using less.hyps [OF _ ok(2,3)] less.prems(4) ok(1) al(1,5) True by (simp add: allocuvm_loop.simps [of d a])
      next
        fix k'
        assume full: "mappages d a (word_of_nat PGSIZE) (word_of_nat (V2P p)) (PTE_W OR PTE_U)
            (k\<lparr>freelist := unat (get32 (mem k) p), mem := memset p 0 PGSIZE (mem k)\<rparr>) = Some (-1, k')"
          "uvm_ok k' [] d" "map_refused d p k ps1 k' []" "same_outside (tabs (mem k) d \<union> set (p # ps1)) (mem k) (mem k')"
          "end_sym k' = end_sym k" "data_sym k' = data_sym k"
        from allocuvm_full [OF kp less.prems(2,5) sz assms(6,7) full(2-6)] obtain k2 k3 ps3 where
          "deallocuvm d newsz oldsz k' = Some (oldsz, k2)" "kfree p k2 = Some k3" "keeps d k0 ps0 k3 ps3"
          "aspace (mem k3) d = aspace (mem k0) d" by metis
        then show ?thesis using full(1) al(1,5) True by (fastforce simp: allocuvm_loop.simps [of d a])
      qed
    qed
  qed
qed

end
