(* ===== verification/Xv6_Copy.thy ===== *)
theory Xv6_Copy
  imports Xv6_Aspace
begin

text \<open>
  Making, copying and freeing whole address spaces: \<^verbatim>\<open>freevm\<close>, \<^verbatim>\<open>setupkvm\<close> and \<^verbatim>\<open>copyuvm\<close>, and
  the properties of \<^verbatim>\<open>vm.c\<close>.
\<close>

section \<open>Freeing an address space\<close>

lemma free_tables_ok:
  assumes "kmem_ok k ps" "d mod PGSIZE = 0"
    "\<forall>i\<in>set is. i < 1024 \<and> (has_table (mem k) d i \<longleftrightarrow> H i) \<and> (H i \<longrightarrow> table (mem k) d i = T i)"
    "distinct (map T (filter H is))" "\<forall>t\<in>set (map T (filter H is)). page_ok (end_sym k) t \<and> t \<notin> set ps \<and> t \<noteq> d"
  shows "\<exists>k' ps'. free_tables d is k = Some k' \<and> kmem_ok k' ps' \<and> end_sym k' = end_sym k \<and> data_sym k' = data_sym k \<and>
    set ps' = set ps \<union> set (map T (filter H is)) \<and> same_outside (set (map T (filter H is))) (mem k) (mem k')"
  using assms
proof (induction "is" arbitrary: k ps)
  case (Cons i "is")
  show ?case
  proof (cases "H i")
    case False
    then have "free_tables d (i # is) k = free_tables d is k" using Cons.prems(3) by (simp add: has_table_def)
    with False Cons.IH [of k ps] Cons.prems show ?thesis by simp
  next
    case True
    have t: "page_ok (end_sym k) (T i)" "T i \<notin> set ps" "T i \<noteq> d" "T i mod PGSIZE = 0"
      using Cons.prems(5) True by (auto simp: page_ok_def)
    from kfree_Some [OF Cons.prems(1) t(1,2)] obtain k1 where
      k1: "kfree (T i) k = Some k1" "kmem_ok k1 (T i # ps)" "end_sym k1 = end_sym k" "data_sym k1 = data_sym k"
        "same_outside {T i} (mem k) (mem k1)" by (auto simp: same_outside_def)
    have w: "get32 (mem k1) (d + 4 * j) = get32 (mem k) (d + 4 * j)" if "j < 1024" for j
      using t that Cons.prems(2) by (intro same_outside_word [OF k1(5)]) auto
    have "\<forall>j\<in>set is. j < 1024 \<and> (has_table (mem k1) d j \<longleftrightarrow> H j) \<and> (H j \<longrightarrow> table (mem k1) d j = T j)"
      using Cons.prems(3) w by (simp add: has_table_def table_def)
    moreover have "T i \<notin> set (map T (filter H is))" and "distinct (map T (filter H is))"
      "\<forall>t\<in>set (map T (filter H is)). page_ok (end_sym k1) t \<and> t \<notin> set ps \<and> t \<noteq> d"
      using Cons.prems(4,5) True k1(3) by simp_all
    moreover from this have "\<forall>t\<in>set (map T (filter H is)). page_ok (end_sym k1) t \<and> t \<notin> set (T i # ps) \<and> t \<noteq> d"
      by (metis set_ConsD)
    ultimately obtain k' ps' where
      r: "free_tables d is k1 = Some k'" "kmem_ok k' ps'" "end_sym k' = end_sym k1" "data_sym k' = data_sym k1"
      "set ps' = set (T i # ps) \<union> set (map T (filter H is))" "same_outside (set (map T (filter H is))) (mem k1) (mem k')"
      using Cons.IH [OF k1(2) Cons.prems(2)] by blast
    have "free_tables d (i # is) k = Some k'"
      using Cons.prems(3) True k1(1) r(1) by (simp add: has_table_def table_def Let_def)
    moreover have "same_outside (set (map T (filter H (i # is)))) (mem k) (mem k')"
      by (rule same_outside_trans [OF same_outside_mono [OF k1(5)] same_outside_mono [OF r(6)]]) (use True in auto)
    ultimately show ?thesis using r(2-5) k1(3,4) True by (intro exI [of _ k'] exI [of _ ps']) auto
  qed
qed auto

lemma tabs_filter: "tabs m d = insert d (set (map (table m d) (filter (has_table m d) [0..<1024])))"
  by (auto simp: tabs_def)

lemma freevm_ok:
  assumes "uvm_ok k ps d"
  shows "\<exists>k' ps'. freevm d k = Some k' \<and> kmem_ok k' ps' \<and> end_sym k' = end_sym k \<and> data_sym k' = data_sym k \<and>
    set ps' = set ps \<union> owned (mem k) d \<and> same_outside (set ps \<union> owned (mem k) d) (mem k) (mem k')"
proof -
  from deallocuvm_ok [OF assms, of 0 KERNBASE] obtain k1 ps1 where
    k1: "deallocuvm d KERNBASE 0 k = Some (0, k1)" "unmapped d (PGROUNDUP 0) (PGROUNDUP KERNBASE) k ps k1 ps1"
    by (auto simp: KERNBASE_def)
  note u = unmappedD [OF k1(2)]
  have "PGROUNDUP 0 = 0" "PGROUNDUP KERNBASE = KERNBASE" by (simp_all add: PGROUNDUP_def PGSIZE_def KERNBASE_def)
  then have e: "upages (mem k1) d = {}" using u(9) by (auto simp: upages_def)
  let ?ts = "map (table (mem k1) d) (filter (has_table (mem k1) d) [0..<1024])"
  note dir = uvm_okD(3) [OF u(1)]
  have d: "page_ok (end_sym k1) d" "d mod PGSIZE = 0" "d \<notin> set ps1" "d \<noteq> 0"
    using tabs_ok [OF dir, of d] page_range(1) [of "end_sym k1" d] uvm_okD(4) [OF u(1)] by (auto simp: tabs_def)
  have "distinct ?ts" using dir by (auto simp: distinct_map inj_on_def dir_ok_def)
  moreover have "\<forall>t\<in>set ?ts. page_ok (end_sym k1) t \<and> t \<notin> set ps1 \<and> t \<noteq> d" using dir by (auto simp: dir_ok_def)
  ultimately obtain k2 ps2 where
    k2: "free_tables d [0..<1024] k1 = Some k2" "kmem_ok k2 ps2" "end_sym k2 = end_sym k1" "data_sym k2 = data_sym k1"
      "set ps2 = set ps1 \<union> set ?ts" "same_outside (set ?ts) (mem k1) (mem k2)"
    using free_tables_ok [OF uvm_okD(2) [OF u(1)] d(2), of "[0..<1024]" "has_table (mem k1) d" "table (mem k1) d"] by auto
  have "d \<notin> set ps2" using d(3) k2(5) dir by (auto simp: dir_ok_def)
  with kfree_Some [OF k2(2)] d(1) k2(3) obtain k3 where
    k3: "kfree d k2 = Some k3" "kmem_ok k3 (d # ps2)" "end_sym k3 = end_sym k2" "data_sym k3 = data_sym k2"
      "same_outside {d} (mem k2) (mem k3)" by (force simp: same_outside_def)
  have tabs: "tabs (mem k) d = insert d (set ?ts)" using u(4) tabs_filter [of "mem k1" d] by simp
  have "set (d # ps2) = set ps \<union> owned (mem k) d" using k2(5) u(6) e tabs by (auto simp: owned_def)
  moreover have "same_outside (set ps \<union> owned (mem k) d) (mem k) (mem k3)"
  proof (rule same_outside_trans [OF same_outside_trans])
    show "same_outside (set ps \<union> owned (mem k) d) (mem k) (mem k1)"
      by (rule same_outside_mono [OF u(7)]) (use u(6) in \<open>auto simp: owned_def\<close>)
    show "same_outside (set ps \<union> owned (mem k) d) (mem k1) (mem k2)"
      by (rule same_outside_mono [OF k2(6)]) (use tabs in \<open>auto simp: owned_def\<close>)
    show "same_outside (set ps \<union> owned (mem k) d) (mem k2) (mem k3)"
      by (rule same_outside_mono [OF k3(5)]) (simp add: owned_def tabs)
  qed
  moreover have "freevm d k = Some k3" using k1(1) k2(1) k3(1) d(4) by (simp add: freevm_def NPDENTRIES_def)
  ultimately show ?thesis using k3(2-4) k2(3,4) u(2,3) by (intro exI [of _ k3] exI [of _ "d # ps2"]) simp
qed

section \<open>The kernel part of an address space\<close>

text \<open>
  Rows of \<^verbatim>\<open>kmap\<close> that lie one above the other, from \<open>b\<close> on, and consist of whole pages.
\<close>

primrec rows_ok :: "nat \<Rightarrow> (nat \<times> u32 \<times> u32 \<times> u32) list \<Rightarrow> bool" where
  "rows_ok b [] \<longleftrightarrow> True"
| "rows_ok b (row # rows) \<longleftrightarrow>
     (let (virt, phys_start, phys_end, perm) = row in
      \<exists>n. phys_end - phys_start = word_of_nat (Suc n * PGSIZE) \<and> b \<le> virt \<and> virt mod PGSIZE = 0 \<and>
        virt + Suc n * PGSIZE \<le> 0x100000000 \<and> rows_ok (virt + Suc n * PGSIZE) rows)"

definition no_user :: "memory \<Rightarrow> nat \<Rightarrow> bool" where
  "no_user m d \<longleftrightarrow> (\<forall>va<KERNBASE. \<not> present (pte m d va))"

lemma no_user_uvm: "vm_ok k ps d \<Longrightarrow> no_user (mem k) d \<Longrightarrow> uvm_ok k ps d \<and> owned (mem k) d = tabs (mem k) d"
  by (auto simp: uvm_ok_def no_user_def upages_def owned_def)

lemma no_user_owned: "no_user m d \<Longrightarrow> owned m d = tabs m d"
  by (auto simp: no_user_def upages_def owned_def)

lemma map_kernel_ok:
  assumes "vm_ok k ps d" "no_user (mem k) d" "KERNBASE \<le> b" "rows_ok b rows"
    "\<And>va. b \<le> va \<Longrightarrow> va < 0x100000000 \<Longrightarrow> \<not> present (pte (mem k) d va)"
  shows "\<exists>r k' ps'. map_kernel d rows k = Some (r, k') \<and> end_sym k' = end_sym k \<and> data_sym k' = data_sym k \<and>
    kmem_ok k' ps' \<and> same_outside (set ps \<union> tabs (mem k) d) (mem k) (mem k') \<and>
    (r = d \<and> vm_ok k' ps' d \<and> no_user (mem k') d \<and> set ps' \<union> tabs (mem k') d = set ps \<union> tabs (mem k) d \<or>
     r = 0 \<and> set ps' = set ps \<union> tabs (mem k) d)"
  using assms
proof (induction rows arbitrary: k ps b)
  case Nil
  then show ?case by (auto simp: vm_ok_def)
next
  case (Cons row rows)
  obtain v s e perm where row: "row = (v, s, e, perm)" by (cases row)
  with Cons.prems(4) obtain n where n: "e - s = word_of_nat (Suc n * PGSIZE)" "b \<le> v" "v mod PGSIZE = 0"
    "v + Suc n * PGSIZE \<le> 0x100000000" "rows_ok (v + Suc n * PGSIZE) rows" by (auto simp: Let_def)
  have np: "\<not> present (pte (mem k) d va)" if "v \<le> va" "va < v + Suc n * PGSIZE" for va
    using Cons.prems(5) [of va] that n(2,4) by simp
  from mappages_loop_ok [OF Cons.prems(1) n(3,4) np] obtain r k1 ps1 j where
    r: "mappages d v (e - s) s perm k = Some (r, k1)" "grows d k ps k1 ps1" "mapped d (mem k) (mem k1) v j s perm"
      "r = 0 \<and> j = Suc n \<or> r = -1 \<and> j \<le> n \<and> ps1 = []"
    unfolding n(1) mappages_eq [OF n(3,4)] by blast
  have g: "vm_ok k1 ps1 d" "end_sym k1 = end_sym k" "data_sym k1 = data_sym k"
    "same_outside (set ps \<union> tabs (mem k) d) (mem k) (mem k1)" using r(2) by (auto simp: grows_def Un_commute)
  have j: "j \<le> Suc n" using r(4) by auto
  have le: "v + j * PGSIZE \<le> v + Suc n * PGSIZE" using j by (intro add_left_mono mult_le_mono1)
  have nu: "no_user (mem k1) d"
    using Cons.prems(2,3) n(2) r(3) by (auto simp: no_user_def mapped_def)
  have cons: "set ps1 \<union> tabs (mem k1) d = set ps \<union> tabs (mem k) d"
    using grown_owned(2) [OF r(2)] no_user_owned [OF nu] nu by (auto simp: no_user_def upages_def)
  show ?case
  proof (cases "r = 0")
    case True
    then have "\<not> present (pte (mem k1) d va)" if "v + Suc n * PGSIZE \<le> va" "va < 0x100000000" for va
      using r(3,4) Cons.prems(5) [of va] that n(2) by (auto simp: mapped_def)
    with Cons.IH [OF g(1) nu _ n(5)] Cons.prems(3) n(2) obtain r2 k' ps' where
      i: "map_kernel d rows k1 = Some (r2, k')" "end_sym k' = end_sym k1" "data_sym k' = data_sym k1" "kmem_ok k' ps'"
        "same_outside (set ps1 \<union> tabs (mem k1) d) (mem k1) (mem k')"
        "r2 = d \<and> vm_ok k' ps' d \<and> no_user (mem k') d \<and> set ps' \<union> tabs (mem k') d = set ps1 \<union> tabs (mem k1) d \<or>
         r2 = 0 \<and> set ps' = set ps1 \<union> tabs (mem k1) d" by fastforce
    have "map_kernel d (row # rows) k = Some (r2, k')" using r(1) True i(1) row by simp
    with i(2-6) g(2,3) same_outside_trans [OF g(4)] cons show ?thesis by metis
  next
    case False
    from no_user_uvm [OF g(1) nu] have uv: "uvm_ok k1 ps1 d" by simp
    from freevm_ok [OF uv, unfolded no_user_owned [OF nu]] obtain k' ps' where
      f: "freevm d k1 = Some k'" "kmem_ok k' ps'" "end_sym k' = end_sym k1" "data_sym k' = data_sym k1"
        "set ps' = set ps1 \<union> tabs (mem k1) d" "same_outside (set ps1 \<union> tabs (mem k1) d) (mem k1) (mem k')" by blast
    have "map_kernel d (row # rows) k = Some (0, k')" using r(1,4) False f(1) row by auto
    with f(2-6) g(2,3) same_outside_trans [OF g(4)] cons show ?thesis by metis
  qed
qed

text \<open>What the linker script promises of the symbol \<^verbatim>\<open>data\<close>.\<close>

definition link_ok :: "kmem \<Rightarrow> bool" where
  "link_ok k \<longleftrightarrow> data_sym k mod PGSIZE = 0 \<and> KERNLINK < data_sym k \<and> data_sym k < KERNBASE + PHYSTOP"

lemma rows_ok_Cons:
  assumes "phys_end - phys_start = word_of_nat (Suc n * PGSIZE)" "b \<le> virt" "virt mod PGSIZE = 0"
    "virt + Suc n * PGSIZE = c" "c \<le> 0x100000000" "rows_ok c rows"
  shows "rows_ok b ((virt, phys_start, phys_end, perm) # rows)"
  using assms by (auto simp: Let_def intro!: exI [of _ n])

lemma kmap_rows_ok:
  assumes "data mod PGSIZE = 0" "KERNLINK < data" "data < KERNBASE + PHYSTOP"
  shows "rows_ok KERNBASE (kmap data)"
proof -
  from assms(1) obtain q where q: "data = PGSIZE * q" by (auto simp: mod_eq_0_iff_dvd dvd_def)
  have r: "0x80100 < q" "q < 0x8E000"
    using assms(2,3) by (auto simp: q PGSIZE_def KERNLINK_def KERNBASE_def EXTMEM_def PHYSTOP_def)
  have v: "V2P data = data - KERNBASE" "V2P KERNLINK = EXTMEM"
    using assms(2,3) by (auto simp: V2P_def KERNLINK_def KERNBASE_def EXTMEM_def PHYSTOP_def mod_if)
  have n: "V2P data = V2P KERNLINK + Suc (q - 0x80101) * PGSIZE" "PHYSTOP = V2P data + Suc (0x8DFFF - q) * PGSIZE"
    using r unfolding v by (auto simp: q PGSIZE_def KERNBASE_def EXTMEM_def PHYSTOP_def)
  have w: "word_of_nat (V2P data) - word_of_nat (V2P KERNLINK) = (word_of_nat (Suc (q - 0x80101) * PGSIZE) :: u32)"
    "word_of_nat PHYSTOP - word_of_nat (V2P data) = (word_of_nat (Suc (0x8DFFF - q) * PGSIZE) :: u32)"
    unfolding n(2) by (simp_all add: n(1))
  have lim: "KERNBASE + PHYSTOP \<le> 0x100000000" "data \<le> 0x100000000" "KERNLINK mod PGSIZE = 0"
    using assms(3) by (simp_all add: KERNBASE_def PHYSTOP_def KERNLINK_def EXTMEM_def PGSIZE_def)
  have k: "KERNLINK + Suc (q - 0x80101) * PGSIZE = data" "data + Suc (0x8DFFF - q) * PGSIZE = KERNBASE + PHYSTOP"
    using r by (auto simp: q PGSIZE_def KERNLINK_def KERNBASE_def EXTMEM_def PHYSTOP_def)
  have "rows_ok (KERNBASE + PHYSTOP) [(DEVSPACE, word_of_nat DEVSPACE, 0, PTE_W)]"
    by (rule rows_ok_Cons [where n = 8191 and c = "0x100000000"]) (simp_all add: DEVSPACE_def PGSIZE_def KERNBASE_def PHYSTOP_def)
  then have "rows_ok data [(data, word_of_nat (V2P data), word_of_nat PHYSTOP, PTE_W), (DEVSPACE, word_of_nat DEVSPACE, 0, PTE_W)]"
    by (rule rows_ok_Cons [OF w(2) order_refl assms(1) k(2) lim(1)])
  then have "rows_ok KERNLINK ((KERNLINK, word_of_nat (V2P KERNLINK), word_of_nat (V2P data), 0) # [(data, word_of_nat (V2P data),
      word_of_nat PHYSTOP, PTE_W), (DEVSPACE, word_of_nat DEVSPACE, 0, PTE_W)])"
    by (rule rows_ok_Cons [OF w(1) order_refl lim(3) k(1) lim(2)])
  then show ?thesis unfolding kmap_def
    by (rule rows_ok_Cons [where n = 255, rotated 5]) (simp_all add: KERNLINK_def KERNBASE_def EXTMEM_def PGSIZE_def)
qed

lemma zero_dir:
  assumes "kmem_ok k ps" "page_ok (end_sym k) d" "d \<notin> set ps" "\<And>i. i < 1024 \<Longrightarrow> get32 (mem k) (d + 4 * i) = 0"
  shows "vm_ok k ps d" "pte (mem k) d va = 0" "tabs (mem k) d = {d}"
  using assms by (auto simp: vm_ok_def dir_ok_def has_table_def pte_def tabs_def)

lemma setupkvm_ok:
  assumes "kmem_ok k ps" "link_ok k"
  shows "\<exists>r k' ps'. setupkvm k = Some (r, k') \<and> end_sym k' = end_sym k \<and> data_sym k' = data_sym k \<and> kmem_ok k' ps' \<and>
    same_outside (set ps) (mem k) (mem k') \<and>
    (r \<noteq> 0 \<and> uvm_ok k' ps' r \<and> no_user (mem k') r \<and> set ps' \<union> owned (mem k') r = set ps \<or> r = 0 \<and> set ps' = set ps)"
proof (cases ps)
  case Nil
  with assms(1) kalloc_Nil have "setupkvm k = Some (0, k)" by (simp add: setupkvm_def)
  with assms(1) show ?thesis by auto
next
  case (Cons d ps1)
  note al = kalloc_Cons [OF assms(1) [unfolded Cons]]
  let ?m = "memset d 0 PGSIZE (mem k)"
  let ?k = "k\<lparr>freelist := unat (get32 (mem k) d), mem := ?m\<rparr>"
  have "kmem_ok ?k ps1"
    using kmem_ok_same [OF al(2), of "{d}" ?m] same_outside_memset [of d "mem k" 0] al(3,4) by (simp add: page_ok_def)
  moreover have "get32 ?m (d + 4 * i) = 0" if "i < 1024" for i using that by (intro get32_memset_zero) (auto simp: PGSIZE_def)
  ultimately have z: "vm_ok ?k ps1 d" "pte ?m d va = 0" "tabs ?m d = {d}" for va
    using zero_dir [of ?k ps1 d] al(3,4) by auto
  have rows: "rows_ok KERNBASE (kmap (data_sym k))" using assms(2) kmap_rows_ok by (simp add: link_ok_def)
  from map_kernel_ok [OF z(1) _ order_refl rows] z(2,3) obtain r k' ps' where
    m: "map_kernel d (kmap (data_sym k)) ?k = Some (r, k')" "end_sym k' = end_sym k" "data_sym k' = data_sym k" "kmem_ok k' ps'"
      "same_outside (set ps1 \<union> {d}) ?m (mem k')"
      "r = d \<and> vm_ok k' ps' d \<and> no_user (mem k') d \<and> set ps' \<union> tabs (mem k') d = set ps1 \<union> {d} \<or> r = 0 \<and> set ps' = set ps1 \<union> {d}"
    by (auto simp: no_user_def)
  have "\<not> P2V PHYSTOP > DEVSPACE" by (simp add: P2V_def PHYSTOP_def KERNBASE_def DEVSPACE_def)
  then have "setupkvm k = Some (r, k')" using m(1) al(1,5) by (simp add: setupkvm_def Let_def)
  moreover have "same_outside (set ps) (mem k) (mem k')"
    by (rule same_outside_trans [OF same_outside_mono [OF same_outside_memset] same_outside_mono [OF m(5)]]) (use Cons in auto)
  ultimately show ?thesis using m(2-4,6) al(5) no_user_uvm [of k' ps' d] Cons by auto
qed

section \<open>Copying an address space\<close>

text \<open>
  The child \<open>d\<close> has got a copy of the pages of \<open>d0\<close> below \<open>i\<close>. All pages that were used for it come
  from \<open>Q\<close>, the pages that were free at the beginning; \<open>k0\<close> is the state then.
\<close>

definition copying :: "nat \<Rightarrow> kmem \<Rightarrow> nat set \<Rightarrow> nat \<Rightarrow> nat \<Rightarrow> kmem \<Rightarrow> nat list \<Rightarrow> bool" where
  "copying d0 k0 Q d i k ps \<longleftrightarrow> uvm_ok k ps d \<and> end_sym k = end_sym k0 \<and> data_sym k = data_sym k0 \<and>
     set ps \<union> owned (mem k) d = Q \<and> same_outside Q (mem k0) (mem k) \<and>
     (\<forall>va<KERNBASE. aspace (mem k) d va = (if va < i then aspace (mem k0) d0 va else None)) \<and>
     (\<forall>va<KERNBASE. va < i \<longrightarrow> PTE_FLAGS (pte (mem k) d va) = PTE_FLAGS (pte (mem k0) d0 va))"

text \<open>What only uses free pages does not touch the parent.\<close>

lemma uses_free_pages:
  assumes "uvm_ok k ps d" "same_outside (set ps) (mem k) (mem k')"
  shows "aspace (mem k') d = aspace (mem k) d" "pte (mem k') d va = pte (mem k) d va" "owned (mem k') d = owned (mem k) d"
    "end_sym k' = end_sym k \<Longrightarrow> kmem_ok k' ps' \<Longrightarrow> set ps' \<subseteq> set ps \<Longrightarrow> uvm_ok k' ps' d"
proof -
  have Q: "\<forall>p\<in>set ps. p mod PGSIZE = 0" "set ps \<inter> owned (mem k) d = {}"
    using owned_ok [OF assms(1)] uvm_okD(2) [OF assms(1)] by (auto simp: kmem_ok_def page_ok_def)
  show "aspace (mem k') d = aspace (mem k) d" "owned (mem k') d = owned (mem k) d" "pte (mem k') d va = pte (mem k) d va"
    by (rule aspace_frame [OF assms(2) Q(1) assms(1) Q(2)])+
  show "end_sym k' = end_sym k \<Longrightarrow> kmem_ok k' ps' \<Longrightarrow> set ps' \<subseteq> set ps \<Longrightarrow> uvm_ok k' ps' d"
    using uvm_frame [OF assms(2) Q(1) assms(1) Q(2)] Q(2) by blast
qed

lemma copying_parent:
  assumes "copying d0 k0 Q d i k ps" "uvm_ok k0 ps0 d0" "set ps0 = Q"
  shows "aspace (mem k) d0 = aspace (mem k0) d0" "pte (mem k) d0 va = pte (mem k0) d0 va" "uvm_ok k ps d0"
    "owned (mem k) d0 = owned (mem k0) d0"
proof -
  have c: "same_outside (set ps0) (mem k0) (mem k)" "end_sym k = end_sym k0" "kmem_ok k ps" "set ps \<subseteq> set ps0"
    using assms uvm_okD(2) [of k ps d] by (auto simp: copying_def)
  note u = uses_free_pages [OF assms(2) c(1)]
  show "aspace (mem k) d0 = aspace (mem k0) d0" "pte (mem k) d0 va = pte (mem k0) d0 va" "owned (mem k) d0 = owned (mem k0) d0"
    by (rule u)+
  show "uvm_ok k ps d0" by (rule u(4) [OF c(2-4)])
qed

text \<open>Giving up: the pages of the child go back to the free list.\<close>

lemma copying_give_up:
  assumes "uvm_ok k ps d" "set ps \<union> owned (mem k) d = Q" "same_outside Q m0 (mem k)"
  shows "\<exists>k' ps'. freevm d k = Some k' \<and> kmem_ok k' ps' \<and> end_sym k' = end_sym k \<and> data_sym k' = data_sym k \<and>
    set ps' = Q \<and> same_outside Q m0 (mem k')"
  using freevm_ok [OF assms(1)] assms(2) same_outside_trans [OF assms(3)] by metis

lemma PTE_FLAGS_or_P: "present w \<Longrightarrow> PTE_FLAGS w OR PTE_P = PTE_FLAGS w"
  unfolding present_iff_bit
  by (rule bit_word_eqI) (auto simp: bit_or_iff bit_PTE_FLAGS PTE_P_def bit_1_iff)

lemma same_outside_memmove: "same_outside {p} m (memmove p q PGSIZE m)"
  by (auto simp: same_outside_def memmove_eq)

lemma copyuvm_turn:
  assumes "copying d0 k0 Q d i k (p # ps)" "uvm_ok k0 ps0 d0" "set ps0 = Q" "i mod PGSIZE = 0" "i < KERNBASE"
    "present (pte (mem k0) d0 i)"
  defines "k1 \<equiv> k\<lparr>freelist := unat (get32 (mem k) p), mem := memmove p (frame (pte (mem k0) d0 i)) PGSIZE (mem k)\<rparr>"
  shows "\<exists>r k' ps'. mappages d i (word_of_nat PGSIZE) (word_of_nat (V2P p)) (PTE_FLAGS (pte (mem k0) d0 i)) k1 = Some (r, k') \<and>
    (r = 0 \<and> copying d0 k0 Q d (i + PGSIZE) k' ps' \<or>
     r = -1 \<and> (\<exists>k2. kfree p k' = Some k2 \<and> uvm_ok k2 [p] d \<and> end_sym k2 = end_sym k0 \<and> data_sym k2 = data_sym k0 \<and>
       set [p] \<union> owned (mem k2) d = Q \<and> same_outside Q (mem k0) (mem k2)))"
proof -
  let ?old = "pte (mem k0) d0 i" and ?m1 = "memmove p (frame (pte (mem k0) d0 i)) PGSIZE (mem k)"
  have c: "uvm_ok k (p # ps) d" "end_sym k = end_sym k0" "data_sym k = data_sym k0"
    "set (p # ps) \<union> owned (mem k) d = Q" "same_outside Q (mem k0) (mem k)"
    "\<And>va. va < KERNBASE \<Longrightarrow> aspace (mem k) d va = (if va < i then aspace (mem k0) d0 va else None)"
    "\<And>va. va < KERNBASE \<Longrightarrow> va < i \<Longrightarrow> PTE_FLAGS (pte (mem k) d va) = PTE_FLAGS (pte (mem k0) d0 va)"
    using assms(1) unfolding copying_def by blast+
  have np: "\<not> present (pte (mem k) d va)" if "i \<le> va" "va < i + PGSIZE" for va
  proof -
    have "va < KERNBASE" using that assms(4,5) by (auto simp: KERNBASE_def PGSIZE_def)
    with c(6) [OF this] that show ?thesis by (auto simp: aspace_def split: if_splits)
  qed
  from give_page [OF c(1) same_outside_memmove assms(4,5) PTE_ADDR_FLAGS np] obtain r k' ps' where
    r: "mappages d i (word_of_nat PGSIZE) (word_of_nat (V2P p)) (PTE_FLAGS ?old) k1 = Some (r, k')" "uvm_ok k' ps' d"
    "end_sym k' = end_sym k" "data_sym k' = data_sym k" "set ps' \<subseteq> set ps"
    "same_outside (tabs (mem k) d \<union> set (p # ps)) (mem k) (mem k')"
    "r = 0 \<and> entered d i (PTE_FLAGS ?old) p ?m1 k ps k' ps' \<or> r = -1 \<and> map_refused d p k ps k' ps'"
    unfolding k1_def by blast
  have tQ: "tabs (mem k) d \<union> set (p # ps) \<subseteq> Q" using c(4) by (auto simp: owned_def)
  have out: "same_outside Q (mem k0) (mem k')" by (rule same_outside_trans [OF c(5) same_outside_mono [OF r(6) tQ]])
  have p: "page_ok (end_sym k) p" "p \<notin> set ps" using kalloc_Cons(3,4) [OF uvm_okD(2) [OF c(1)]] .
  from r(7) show ?thesis
  proof
    assume z: "r = 0 \<and> entered d i (PTE_FLAGS ?old) p ?m1 k ps k' ps'"
    let ?w = "word_of_nat (V2P p) OR PTE_FLAGS ?old OR PTE_P"
    have e: "\<And>va. va < KERNBASE \<Longrightarrow> pte (mem k') d va = (if i \<le> va \<and> va < i + PGSIZE then ?w else pte (mem k) d va)"
      "set ps' \<union> owned (mem k') d = insert p (set ps \<union> owned (mem k) d)"
      "\<And>va. va < KERNBASE \<Longrightarrow> aspace (mem k') d va =
        (if i \<le> va \<and> va < i + PGSIZE then Some (?m1 (p + va mod PGSIZE)) else aspace (mem k) d va)"
      using z by (auto simp: entered_def maps_page_def)
    have fl: "PTE_FLAGS ?w = PTE_FLAGS ?old"
      using PTE_FLAGS_make [OF V2P_aligned [OF p(1) uvm_okD(4) [OF c(1)]], of "PTE_FLAGS ?old OR PTE_P"] PTE_FLAGS_or_P [OF assms(6)]
      by (simp add: PTE_ADDR_or or.assoc)
    have page: "pte (mem k0) d0 va = ?old" "aspace (mem k0) d0 va = Some (?m1 (p + va mod PGSIZE))"
      if "i \<le> va" "va < i + PGSIZE" "va < KERNBASE" for va
    proof -
      show w0: "pte (mem k0) d0 va = ?old"
        using that same_page_aligned [OF assms(4), of va] assms(5) by (intro pte_page) auto
      have "aspace (mem k) d0 va = Some (mem k (frame ?old + va mod PGSIZE))"
        using copying_parent(2) [OF assms(1-3), of va] w0 that(3) assms(6) by (simp add: aspace_def)
      then have "aspace (mem k0) d0 va = Some (mem k (frame ?old + va mod PGSIZE))"
        using copying_parent(1) [OF assms(1-3)] by simp
      then show "aspace (mem k0) d0 va = Some (?m1 (p + va mod PGSIZE))" by (simp add: memmove_eq PGSIZE_def)
    qed
    have "aspace (mem k') d va = (if va < i + PGSIZE then aspace (mem k0) d0 va else None)" if "va < KERNBASE" for va
      using e(3) [OF that] c(6) [OF that] page(2) [OF _ _ that] by (cases "va < i"; cases "va < i + PGSIZE"; simp)
    moreover have "PTE_FLAGS (pte (mem k') d va) = PTE_FLAGS (pte (mem k0) d0 va)" if "va < KERNBASE" "va < i + PGSIZE" for va
      using e(1) [OF that(1)] c(7) [OF that(1)] page(1) [OF _ that(2,1)] fl that(2) by (cases "va < i"; simp)
    moreover have "set ps' \<union> owned (mem k') d = Q" using e(2) c(4) by simp
    ultimately have "copying d0 k0 Q d (i + PGSIZE) k' ps'"
      unfolding copying_def using r(2-4) c(2,3) out by simp
    with z r(1) show ?thesis by blast
  next
    assume z: "r = -1 \<and> map_refused d p k ps k' ps'"
    then have o: "owned (mem k') d = set ps \<union> owned (mem k) d" "ps' = []" by (auto simp: map_refused_def)
    then have "p \<notin> owned (mem k') d" using p(2) owned_ok [OF c(1), of p] by auto
    with free_unowned [of k' "[]" d p] r(2,3) o p(1) obtain k2 where
      k2: "kfree p k' = Some k2" "uvm_ok k2 [p] d" "end_sym k2 = end_sym k'" "data_sym k2 = data_sym k'"
        "same_outside {p} (mem k') (mem k2)" "owned (mem k2) d = owned (mem k') d" by force
    have "same_outside Q (mem k0) (mem k2)"
      by (rule same_outside_trans [OF out same_outside_mono [OF k2(5)]]) (use tQ in simp)
    moreover have "set [p] \<union> owned (mem k2) d = Q" using k2(6) o(1) c(4) by auto
    ultimately show ?thesis using z r(1,3,4) k2 c(2,3) by auto
  qed
qed

text \<open>The walk in the parent finds the entry.\<close>

lemma copying_walk:
  assumes "copying d0 k0 Q d i k ps" "uvm_ok k0 ps0 d0" "set ps0 = Q" "present (pte (mem k0) d0 i)"
  shows "\<exists>s. walkpgdir d0 i False k = (s, k) \<and> s \<noteq> 0 \<and> get32 (mem k) s = pte (mem k0) d0 i"
proof -
  note c = copying_parent [OF assms(1-3)]
  have e: "pte (mem k) d0 i = pte (mem k0) d0 i" by (rule c(2))
  then have h: "has_table (mem k) d0 (PDX i)" using present_table assms(4) by metis
  from table_pos [OF uvm_okD(1) [OF c(3)] h] walk_present [OF h] h e show ?thesis by (simp add: pte_def)
qed

lemma copyuvm_loop_ok:
  assumes "copying d0 k0 Q d i k ps" "uvm_ok k0 ps0 d0" "set ps0 = Q" "i mod PGSIZE = 0" "sz \<le> KERNBASE"
    "i \<le> PGROUNDUP sz" "\<And>va. va < sz \<Longrightarrow> present (pte (mem k0) d0 va)" "d \<noteq> 0"
  shows "\<exists>r k' ps'. copyuvm_loop d0 d i sz k = Some (r, k') \<and>
    (r = d \<and> copying d0 k0 Q d (PGROUNDUP sz) k' ps' \<or>
     r = 0 \<and> kmem_ok k' ps' \<and> set ps' = Q \<and> same_outside Q (mem k0) (mem k') \<and> end_sym k' = end_sym k0 \<and> data_sym k' = data_sym k0)"
  using assms(1,4,6)
proof (induction "sz - i" arbitrary: i k ps rule: less_induct)
  case less
  show ?case
  proof (cases "i < sz")
    case False
    then have "PGROUNDUP sz = i" using PGROUNDUP_least [OF less.prems(2), of sz] less.prems(3) by simp
    with less.prems(1) False show ?thesis by (auto simp: copyuvm_loop.simps [of d0 d i])
  next
    case True
    then have i: "i < KERNBASE" "present (pte (mem k0) d0 i)" using assms(5,7) by auto
    from copying_walk [OF less.prems(1) assms(2,3) i(2)] obtain s where
      s: "walkpgdir d0 i False k = (s, k)" "s \<noteq> 0" "get32 (mem k) s = pte (mem k0) d0 i" by blast
    have c: "uvm_ok k ps d" "set ps \<union> owned (mem k) d = Q" "same_outside Q (mem k0) (mem k)" "end_sym k = end_sym k0"
      "data_sym k = data_sym k0" using less.prems(1) by (auto simp: copying_def)
    show ?thesis
    proof (cases ps)
      case Nil
      then have "kalloc k = (0, k)" using kalloc_Nil uvm_okD(2) [OF c(1)] by simp
      with copying_give_up [OF c(1-3)] True s i c(4,5) show ?thesis by (auto simp: copyuvm_loop.simps [of d0 d i])
    next
      case (Cons p ps1)
      note al = kalloc_Cons [OF uvm_okD(2) [OF c(1) [unfolded Cons]]]
      let ?k1 = "k\<lparr>freelist := unat (get32 (mem k) p), mem := memmove p (frame (pte (mem k0) d0 i)) PGSIZE (mem k)\<rparr>"
      from copyuvm_turn [OF less.prems(1) [unfolded Cons] assms(2,3) less.prems(2) i] obtain r k' ps' where
        r: "mappages d i (word_of_nat PGSIZE) (word_of_nat (V2P p)) (PTE_FLAGS (pte (mem k0) d0 i)) ?k1 = Some (r, k')"
          "r = 0 \<and> copying d0 k0 Q d (i + PGSIZE) k' ps' \<or>
           r = -1 \<and> (\<exists>k2. kfree p k' = Some k2 \<and> uvm_ok k2 [p] d \<and> end_sym k2 = end_sym k0 \<and> data_sym k2 = data_sym k0 \<and>
             set [p] \<union> owned (mem k2) d = Q \<and> same_outside Q (mem k0) (mem k2))" by blast
      from r(2) show ?thesis
      proof
        assume z: "r = 0 \<and> copying d0 k0 Q d (i + PGSIZE) k' ps'"
        have "i + PGSIZE \<le> PGROUNDUP sz"
          using pages_apart [OF less.prems(2) PGROUNDUP_props(1), of sz] PGROUNDUP_props(2) [of sz] True by auto
        moreover have m: "(i + PGSIZE) mod 0x100000000 = i + PGSIZE" "(i + PGSIZE) mod PGSIZE = 0" "sz - (i + PGSIZE) < sz - i"
          using less.prems(2) i(1) True by (auto simp: PGSIZE_def KERNBASE_def)
        moreover have "copyuvm_loop d0 d i sz k = copyuvm_loop d0 d (i + PGSIZE) sz k'"
          using s i(2) al(1,5) r(1) z True m(1) by (simp add: copyuvm_loop.simps [of d0 d i] Let_def)
        ultimately show ?thesis using less.hyps [OF m(3) conjunct2 [OF z]] by simp
      next
        assume z: "r = -1 \<and> (\<exists>k2. kfree p k' = Some k2 \<and> uvm_ok k2 [p] d \<and> end_sym k2 = end_sym k0 \<and> data_sym k2 = data_sym k0 \<and>
          set [p] \<union> owned (mem k2) d = Q \<and> same_outside Q (mem k0) (mem k2))"
        then obtain k2 where k2: "kfree p k' = Some k2" "uvm_ok k2 [p] d" "end_sym k2 = end_sym k0" "data_sym k2 = data_sym k0"
          "set [p] \<union> owned (mem k2) d = Q" "same_outside Q (mem k0) (mem k2)" by blast
        from copying_give_up [OF k2(2,5,6)] obtain k3 ps3 where "freevm d k2 = Some k3" "kmem_ok k3 ps3" "end_sym k3 = end_sym k2"
          "data_sym k3 = data_sym k2" "set ps3 = Q" "same_outside Q (mem k0) (mem k3)" by blast
        then show ?thesis using s i(2) al(1,5) r(1) z True k2(1,3,4) by (auto simp: copyuvm_loop.simps [of d0 d i] Let_def)
      qed
    qed
  qed
qed

section \<open>Properties\<close>

text \<open>C20. \<^verbatim>\<open>allocuvm\<close> either returns the new size, and then the address space is the old one with zeroed pages
  added up to the new size, or returns 0 and then the address space is unchanged; in both cases no page is lost or
  used twice.\<close>

theorem allocuvm_extends:
  assumes "uvm_ok k ps d" "oldsz \<le> newsz" "newsz < KERNBASE"
    "\<And>va. PGROUNDUP oldsz \<le> va \<Longrightarrow> va < KERNBASE \<Longrightarrow> \<not> present (pte (mem k) d va)"
  shows "\<exists>r k' ps'. allocuvm d oldsz newsz k = Some (r, k') \<and> uvm_ok k' ps' d \<and>
    set ps' \<union> owned (mem k') d = set ps \<union> owned (mem k) d \<and>
    (r = newsz \<and> (\<forall>va<KERNBASE. aspace (mem k') d va =
        (if PGROUNDUP oldsz \<le> va \<and> va < PGROUNDUP newsz then Some 0 else aspace (mem k) d va)) \<or>
     r = 0 \<and> aspace (mem k') d = aspace (mem k) d)"
proof -
  have "PGROUNDUP oldsz < 0x100000000"
    using PGROUNDUP_props(3) [of oldsz] assms(2,3) by (simp add: PGSIZE_def KERNBASE_def)
  then have l: "allocuvm d oldsz newsz k = allocuvm_loop d (PGROUNDUP oldsz) oldsz newsz k"
    using assms(2,3) by (simp add: allocuvm_def)
  have le: "PGROUNDUP oldsz \<le> PGROUNDUP newsz"
    using PGROUNDUP_least [OF PGROUNDUP_props(1), of oldsz newsz] PGROUNDUP_props(2) [of newsz] assms(2) by simp
  have z: "zeroed d (PGROUNDUP oldsz) (PGROUNDUP oldsz) k k" by (auto simp: zeroed_def)
  from allocuvm_loop_ok [OF keeps_refl [OF assms(1)] z PGROUNDUP_props(1) order_refl le assms(3,4)] obtain r k' ps' where
    r: "allocuvm d oldsz newsz k = Some (r, k')" "keeps d k ps k' ps'"
      "r = newsz \<and> zeroed d (PGROUNDUP oldsz) (PGROUNDUP newsz) k k' \<or> r = 0 \<and> aspace (mem k') d = aspace (mem k) d"
    unfolding l by blast
  have "aspace (mem k') d va = (if PGROUNDUP oldsz \<le> va \<and> va < PGROUNDUP newsz then Some 0 else aspace (mem k) d va)"
    if "zeroed d (PGROUNDUP oldsz) (PGROUNDUP newsz) k k'" "va < KERNBASE" for va
    using that unfolding zeroed_def by meson
  with r show ?thesis unfolding keeps_def by blast
qed

text \<open>C3. \<^verbatim>\<open>copyuvm\<close> either returns a directory whose address space is a copy of that of the parent, byte for byte
  and with the same permissions, in pages of its own; or it returns 0, and all pages it took are free again. In both
  cases the parent's address space is as it was.\<close>

theorem copyuvm_copies:
  assumes "uvm_ok k ps d0" "link_ok k" "sz \<le> KERNBASE"
    "\<And>va. va < KERNBASE \<Longrightarrow> present (pte (mem k) d0 va) \<longleftrightarrow> va < PGROUNDUP sz"
  shows "\<exists>r k' ps'. copyuvm d0 sz k = Some (r, k') \<and> uvm_ok k' ps' d0 \<and> aspace (mem k') d0 = aspace (mem k) d0 \<and>
    (r \<noteq> 0 \<and> uvm_ok k' ps' r \<and> aspace (mem k') r = aspace (mem k) d0 \<and> owned (mem k') r \<inter> owned (mem k') d0 = {} \<and>
       set ps' \<union> owned (mem k') r = set ps \<and>
       (\<forall>va<KERNBASE. va < PGROUNDUP sz \<longrightarrow> PTE_FLAGS (pte (mem k') r va) = PTE_FLAGS (pte (mem k) d0 va)) \<or>
     r = 0 \<and> set ps' = set ps)"
proof -
  from setupkvm_ok [OF uvm_okD(2) [OF assms(1)] assms(2)] obtain d k1 ps1 where
    s: "setupkvm k = Some (d, k1)" "end_sym k1 = end_sym k" "data_sym k1 = data_sym k" "kmem_ok k1 ps1"
      "same_outside (set ps) (mem k) (mem k1)"
      "d \<noteq> 0 \<and> uvm_ok k1 ps1 d \<and> no_user (mem k1) d \<and> set ps1 \<union> owned (mem k1) d = set ps \<or> d = 0 \<and> set ps1 = set ps" by metis
  from s(6) show ?thesis
  proof
    assume "d = 0 \<and> set ps1 = set ps"
    with s uses_free_pages(1) [OF assms(1) s(5)] uses_free_pages(4) [OF assms(1) s(5,2,4)] show ?thesis
      by (auto simp: copyuvm_def)
  next
    assume d: "d \<noteq> 0 \<and> uvm_ok k1 ps1 d \<and> no_user (mem k1) d \<and> set ps1 \<union> owned (mem k1) d = set ps"
    then have "copying d0 k (set ps) d 0 k1 ps1" using s by (auto simp: copying_def no_user_def aspace_def)
    moreover have "present (pte (mem k) d0 va)" if "va < sz" for va
      using that assms(3,4) PGROUNDUP_props(2) [of sz] by simp
    ultimately obtain r k' ps' where r: "copyuvm_loop d0 d 0 sz k1 = Some (r, k')"
      "r = d \<and> copying d0 k (set ps) d (PGROUNDUP sz) k' ps' \<or>
       r = 0 \<and> kmem_ok k' ps' \<and> set ps' = set ps \<and> same_outside (set ps) (mem k) (mem k') \<and> end_sym k' = end_sym k \<and> data_sym k' = data_sym k"
      using copyuvm_loop_ok [OF _ assms(1) refl _ assms(3), of d 0 k1 ps1] d by auto
    have c: "copyuvm d0 sz k = Some (r, k')" using s(1) d r(1) by (simp add: copyuvm_def)
    from r(2) show ?thesis
    proof
      assume z: "r = d \<and> copying d0 k (set ps) d (PGROUNDUP sz) k' ps'"
      note p = copying_parent [OF conjunct2 [OF z] assms(1) refl]
      have cp: "uvm_ok k' ps' d" "set ps' \<union> owned (mem k') d = set ps"
        "\<And>va. va < KERNBASE \<Longrightarrow> aspace (mem k') d va = (if va < PGROUNDUP sz then aspace (mem k) d0 va else None)"
        "\<forall>va<KERNBASE. va < PGROUNDUP sz \<longrightarrow> PTE_FLAGS (pte (mem k') d va) = PTE_FLAGS (pte (mem k) d0 va)"
        using z unfolding copying_def by blast+
      have "aspace (mem k') d va = aspace (mem k) d0 va" for va
        using cp(3) [of va] assms(4) [of va] by (cases "va < KERNBASE") (auto simp: aspace_def)
      moreover have "owned (mem k') d \<inter> owned (mem k') d0 = {}" using cp(2) p(4) owned_ok [OF assms(1)] by auto
      ultimately show ?thesis using c z d p(1,3) cp by (auto simp: fun_eq_iff)
    next
      assume z: "r = 0 \<and> kmem_ok k' ps' \<and> set ps' = set ps \<and> same_outside (set ps) (mem k) (mem k') \<and>
        end_sym k' = end_sym k \<and> data_sym k' = data_sym k"
      with uses_free_pages(1) [OF assms(1), of k'] uses_free_pages(4) [OF assms(1), of k' ps'] c show ?thesis by auto
    qed
  qed
qed

section \<open>Witnesses\<close>

text \<open>A directory with one table and one user page.\<close>

definition small_mem :: memory where
  "small_mem = put32 0x80117000 (word_of_nat (V2P 0x80118000) OR PTE_W OR PTE_U OR PTE_P) (new_table 0x80116000 0 0x80117000 (\<lambda>a. 0))"

lemma get32_zero: "get32 (\<lambda>a. 0) a = 0"
  by (simp add: get32_def region4 de32_def)

lemma small_page_ok: "page_ok 0x80115000 0x80116000" "page_ok 0x80115000 0x80117000" "page_ok 0x80115000 0x80118000"
  by (simp_all add: page_ok_def V2P_def PGSIZE_def KERNBASE_def PHYSTOP_def)

lemma small_dir:
  "dir_ok 0x80115000 [] small_mem 0x80116000" "tabs small_mem 0x80116000 = {0x80116000, 0x80117000}"
  "va < 0x100000000 \<Longrightarrow> pte small_mem 0x80116000 va = (if va < PGSIZE then word_of_nat (V2P 0x80118000) OR PTE_W OR PTE_U OR PTE_P else 0)"
proof -
  let ?e = "0x80115000" and ?d = "0x80116000" and ?t = "0x80117000" and ?z = "(\<lambda>a. 0) :: memory"
  have e: "KERNBASE < ?e" by (simp add: KERNBASE_def)
  have z: "\<not> has_table ?z ?d i" "pte ?z ?d va = 0" "tabs ?z ?d = {?d}" for i va
    by (simp_all add: has_table_def pte_def tabs_def get32_zero)
  have d: "dir_ok ?e [?t] ?z ?d" using small_page_ok(1) z(1) by (simp add: dir_ok_def)
  note n = new_table_ok [OF d small_page_ok(2) e _ z(1), of 0, simplified]
  have td: "has_table (new_table ?d 0 ?t ?z) ?d (PDX 0)" "table (new_table ?d 0 ?t ?z) ?d (PDX 0) = ?t"
    using new_table_dir [OF small_page_ok(2) e, of ?d 0 0 ?z] by (simp_all add: PGSIZE_def PDX_def)
  note s = set_pte [OF n(1) td(1), where w = "word_of_nat (V2P 0x80118000) OR PTE_W OR PTE_U OR PTE_P",
      unfolded td(2), simplified PTX_def, simplified, folded small_mem_def]
  show "dir_ok ?e [] small_mem ?d" by (rule s(3))
  show "tabs small_mem ?d = {?d, ?t}" using s(2) n(2) z(3) by auto
  show "pte small_mem ?d va = (if va < PGSIZE then word_of_nat (V2P 0x80118000) OR PTE_W OR PTE_U OR PTE_P else 0)" if "va < 0x100000000"
    using s(4) [OF that] new_table_pte [OF d small_page_ok(2) e _ z(1), of 0 va] z(2) by (simp add: PGSIZE_def div_eq_0_iff)
qed

definition small_kmem :: kmem where
  "small_kmem = boot_kmem\<lparr>mem := small_mem\<rparr>"

lemma small_entry: "present (word_of_nat (V2P 0x80118000) OR PTE_W OR PTE_U OR PTE_P)"
  "frame (word_of_nat (V2P 0x80118000) OR PTE_W OR PTE_U OR PTE_P) = 0x80118000"
  using make_entry [OF small_page_ok(3), of "PTE_W OR PTE_U"] by (simp_all add: KERNBASE_def PTE_ADDR_or or.assoc)

lemma small_uvm_ok: "uvm_ok small_kmem [] 0x80116000"
proof (rule uvm_okI)
  let ?d = "0x80116000"
  have p: "va < PGSIZE" "frame (pte small_mem ?d va) = 0x80118000"
    if "va < KERNBASE" "present (pte small_mem ?d va)" for va
    using that small_dir(3) [of va] small_entry by (auto split: if_splits)
  have m: "mem small_kmem = small_mem" "end_sym small_kmem = 0x80115000" by (simp_all add: small_kmem_def boot_kmem_def)
  show "vm_ok small_kmem [] ?d"
    using small_dir(1) by (simp add: vm_ok_def m) (simp add: small_kmem_def kmem_ok_def boot_kmem_def KERNBASE_def)
  show "page_ok (end_sym small_kmem) q \<and> q \<notin> set [] \<and> q \<notin> tabs (mem small_kmem) ?d"
    if "q \<in> upages (mem small_kmem) ?d" for q
    using that p(2) small_page_ok(3) small_dir(2) unfolding m upages_def by auto
  show "va div PGSIZE = vb div PGSIZE"
    if "va < KERNBASE" "vb < KERNBASE" "present (pte (mem small_kmem) ?d va)" "present (pte (mem small_kmem) ?d vb)" for va vb
    using p(1) [of va] p(1) [of vb] that unfolding m by simp
qed

theorem copyuvm_copies_witness:
  "\<exists>k d0. uvm_ok k [] d0 \<and> aspace (mem k) d0 5 \<noteq> None \<and>
    (\<exists>r k'. copyuvm d0 PGSIZE k = Some (r, k') \<and> aspace (mem k') d0 = aspace (mem k) d0)"
proof -
  let ?d = "0x80116000"
  have m: "mem small_kmem = small_mem" by (simp add: small_kmem_def)
  have pr: "present (pte (mem small_kmem) ?d va) \<longleftrightarrow> va < PGROUNDUP PGSIZE" if "va < KERNBASE" for va
    using small_dir(3) [of va] small_entry(1) that unfolding m by (simp add: PGROUNDUP_def PGSIZE_def)
  have l: "link_ok small_kmem" "PGSIZE \<le> KERNBASE"
    by (simp_all add: link_ok_def small_kmem_def boot_kmem_def PGSIZE_def KERNLINK_def KERNBASE_def EXTMEM_def PHYSTOP_def)
  from copyuvm_copies [OF small_uvm_ok l pr] have "\<exists>r k'. copyuvm ?d PGSIZE small_kmem = Some (r, k') \<and>
      aspace (mem k') ?d = aspace (mem small_kmem) ?d" by blast
  moreover have "aspace (mem small_kmem) ?d 5 \<noteq> None"
    using pr [of 5] by (simp add: aspace_def KERNBASE_def PGROUNDUP_def PGSIZE_def)
  ultimately show ?thesis using small_uvm_ok by blast
qed

theorem allocuvm_extends_witness:
  "\<exists>k d. uvm_ok k [] d \<and> (\<exists>r k'. allocuvm d PGSIZE (3 * PGSIZE) k = Some (r, k'))"
proof -
  let ?d = "0x80116000"
  have m: "mem small_kmem = small_mem" by (simp add: small_kmem_def)
  have np: "\<not> present (pte (mem small_kmem) ?d va)" if "PGROUNDUP PGSIZE \<le> va" "va < KERNBASE" for va
    using small_dir(3) [of va] that unfolding m by (simp add: PGROUNDUP_def PGSIZE_def)
  have "PGSIZE \<le> 3 * PGSIZE" "3 * PGSIZE < KERNBASE" by (simp_all add: PGSIZE_def KERNBASE_def)
  from allocuvm_extends [OF small_uvm_ok this np] small_uvm_ok show ?thesis by blast
qed

end
