(* ===== verification/Xv6_Lock.thy ===== *)
theory Xv6_Lock
  imports Xv6_Kalloc "HOL-Library.Monad_Syntax"
begin

text \<open>
  Spin locks and sleep locks, \<^verbatim>\<open>hw3/xv6/spinlock.c\<close> and \<^verbatim>\<open>sleeplock.c\<close>. A processor is its
  interrupt flag with the two fields of \<^verbatim>\<open>struct cpu\<close> that \<^verbatim>\<open>pushcli\<close> and \<^verbatim>\<open>popcli\<close> use; \<open>None\<close> is
  a panic. \<^verbatim>\<open>acquire\<close> and \<^verbatim>\<open>release\<close> are sequences of steps, one for each access to the lock, since other
  processors use the lock in between.
\<close>

section \<open>Interrupts\<close>

record cpu =
  eflags_if :: bool
  ncli :: int
  intena :: bool

definition pushcli :: "cpu \<Rightarrow> cpu" where
  "pushcli c =
     (let eflags = eflags_if c;
          c = c\<lparr>eflags_if := False\<rparr>;
          c = (if ncli c = 0 then c\<lparr>intena := eflags\<rparr> else c)
      in c\<lparr>ncli := ncli c + 1\<rparr>)"

definition popcli :: "cpu \<Rightarrow> cpu option" where
  "popcli c =
     (if eflags_if c then None
      else
        let c = c\<lparr>ncli := ncli c - 1\<rparr> in
        if ncli c < 0 then None
        else if ncli c = 0 \<and> intena c then Some (c\<lparr>eflags_if := True\<rparr>) else Some c)"

section \<open>Spin locks\<close>

record spinlock =
  locked :: bool
  lk_cpu :: "nat option"
  pcs :: "nat list"

definition initlock :: "spinlock \<Rightarrow> spinlock" where
  "initlock lk = lk\<lparr>locked := False, lk_cpu := None\<rparr>"

text \<open>The processor \<open>me\<close> asks; the answer and the state of the processor.\<close>

definition holding :: "nat \<Rightarrow> spinlock \<Rightarrow> cpu \<Rightarrow> (bool \<times> cpu) option" where
  "holding me lk c =
     (let c = pushcli c; r = (locked lk \<and> lk_cpu lk = Some me) in
      do { c \<leftarrow> popcli c; Some (r, c) })"

text \<open>The return addresses on the stack, at most ten, and zeros for the rest.\<close>

primrec caller_loop :: "memory \<Rightarrow> nat \<Rightarrow> nat \<Rightarrow> nat list" where
  "caller_loop m ebp 0 = []"
| "caller_loop m ebp (Suc n) =
     (if ebp = 0 \<or> ebp < KERNBASE \<or> ebp = 0xffffffff then replicate (Suc n) 0
      else unat (get32 m (ebp + 4)) # caller_loop m (unat (get32 m ebp)) n)"

definition getcallerpcs :: "memory \<Rightarrow> nat \<Rightarrow> nat list" where
  "getcallerpcs m v = caller_loop m (v - 8) 10"

text \<open>
  The place of a processor: the statement that it executes next. In \<^verbatim>\<open>holding\<close> the two fields are read one after
  the other; \<open>HPop\<close> and the tests carry the answer.
\<close>

datatype hold_pc = HPush | HLocked | HCpu | HPop bool

datatype lock_pc =
    Outside
  | AHold hold_pc | ATest bool | AXchg | ASetCpu | ASetPcs
  | Inside
  | RHold hold_pc | RTest bool | RClearPcs | RClearCpu | RClearLocked | RPop
  | Panic

text \<open>One statement of \<^verbatim>\<open>holding\<close>; the last one gives the answer.\<close>

fun holding_step :: "nat \<Rightarrow> hold_pc \<Rightarrow> spinlock \<Rightarrow> cpu \<Rightarrow> ((hold_pc + bool) \<times> cpu) option" where
  "holding_step me HPush lk c = Some (Inl HLocked, pushcli c)"
| "holding_step me HLocked lk c = Some (Inl (if locked lk then HCpu else HPop False), c)"
| "holding_step me HCpu lk c = Some (Inl (HPop (lk_cpu lk = Some me)), c)"
| "holding_step me (HPop r) lk c = do { c \<leftarrow> popcli c; Some (Inr r, c) }"

text \<open>
  One statement of \<^verbatim>\<open>acquire\<close>; \<open>None\<close> is a place outside of it. \<open>v\<close> is the address of the argument on the stack.
  \<^verbatim>\<open>xchg\<close> reads and writes in one step. The stores of \<^verbatim>\<open>getcallerpcs\<close> are one step: no other processor reads or
  writes \<^verbatim>\<open>pcs\<close> meanwhile.
\<close>

fun acquire :: "nat \<Rightarrow> memory \<Rightarrow> nat \<Rightarrow> lock_pc \<Rightarrow> spinlock \<Rightarrow> cpu \<Rightarrow> (lock_pc \<times> spinlock \<times> cpu) option" where
  "acquire me m v Outside lk c = Some (AHold HPush, lk, pushcli c)"
| "acquire me m v (AHold h) lk c = Some (case holding_step me h lk c of
     None \<Rightarrow> (Panic, lk, c) | Some (Inl h, c) \<Rightarrow> (AHold h, lk, c) | Some (Inr r, c) \<Rightarrow> (ATest r, lk, c))"
| "acquire me m v (ATest r) lk c = Some (if r then Panic else AXchg, lk, c)"
| "acquire me m v AXchg lk c = Some (if locked lk then AXchg else ASetCpu, lk\<lparr>locked := True\<rparr>, c)"
| "acquire me m v ASetCpu lk c = Some (ASetPcs, lk\<lparr>lk_cpu := Some me\<rparr>, c)"
| "acquire me m v ASetPcs lk c = Some (Inside, lk\<lparr>pcs := getcallerpcs m v\<rparr>, c)"
| "acquire me m v pc lk c = None"

text \<open>One statement of \<^verbatim>\<open>release\<close>.\<close>

fun release :: "nat \<Rightarrow> lock_pc \<Rightarrow> spinlock \<Rightarrow> cpu \<Rightarrow> (lock_pc \<times> spinlock \<times> cpu) option" where
  "release me Inside lk c = Some (RHold HPush, lk, c)"
| "release me (RHold h) lk c = Some (case holding_step me h lk c of
     None \<Rightarrow> (Panic, lk, c) | Some (Inl h, c) \<Rightarrow> (RHold h, lk, c) | Some (Inr r, c) \<Rightarrow> (RTest r, lk, c))"
| "release me (RTest r) lk c = Some (if \<not> r then Panic else RClearPcs, lk, c)"
| "release me RClearPcs lk c = Some (RClearCpu, lk\<lparr>pcs := (pcs lk)[0 := 0]\<rparr>, c)"
| "release me RClearCpu lk c = Some (RClearLocked, lk\<lparr>lk_cpu := None\<rparr>, c)"
| "release me RClearLocked lk c = Some (RPop, lk\<lparr>locked := False\<rparr>, c)"
| "release me RPop lk c = Some (case popcli c of None \<Rightarrow> (Panic, lk, c) | Some c \<Rightarrow> (Outside, lk, c))"
| "release me pc lk c = None"

section \<open>Sleep locks\<close>

text \<open>
  The inner spin lock makes each of these one step. The process with identifier \<open>pid\<close> takes the
  lock; \<open>None\<close> is the case in which it goes to sleep on the lock.
\<close>

record sleeplock =
  sl_locked :: bool
  sl_pid :: int

definition initsleeplock :: "sleeplock \<Rightarrow> sleeplock" where
  "initsleeplock lk = lk\<lparr>sl_locked := False, sl_pid := 0\<rparr>"

definition acquiresleep :: "int \<Rightarrow> sleeplock \<Rightarrow> sleeplock option" where
  "acquiresleep pid lk = (if sl_locked lk then None else Some (lk\<lparr>sl_locked := True, sl_pid := pid\<rparr>))"

definition releasesleep :: "sleeplock \<Rightarrow> sleeplock" where
  "releasesleep lk = lk\<lparr>sl_locked := False, sl_pid := 0\<rparr>"

definition holdingsleep :: "int \<Rightarrow> sleeplock \<Rightarrow> bool" where
  "holdingsleep pid lk \<longleftrightarrow> sl_locked lk \<and> sl_pid lk = pid"

section \<open>Nested sections with interrupts off\<close>

text \<open>Off or nested: interrupts are off inside a section.\<close>

definition cpu_ok :: "cpu \<Rightarrow> bool" where
  "cpu_ok c \<longleftrightarrow> 0 \<le> ncli c \<and> (0 < ncli c \<longrightarrow> \<not> eflags_if c)"

lemma pushcli_props:
  assumes "cpu_ok c"
  shows "cpu_ok (pushcli c)" "\<not> eflags_if (pushcli c)" "ncli (pushcli c) = ncli c + 1"
    "intena (pushcli c) = (if ncli c = 0 then eflags_if c else intena c)"
  using assms by (auto simp: pushcli_def cpu_ok_def Let_def)

lemma push_pop:
  assumes "cpu_ok c"
  shows "\<exists>c'. popcli (pushcli c) = Some c' \<and> eflags_if c' = eflags_if c \<and> ncli c' = ncli c \<and> cpu_ok c' \<and>
    (0 < ncli c \<longrightarrow> intena c' = intena c)"
  using assms by (auto simp: pushcli_def popcli_def cpu_ok_def Let_def)

text \<open>A well nested sequence: \<open>True\<close> is \<^verbatim>\<open>pushcli\<close>, \<open>False\<close> is \<^verbatim>\<open>popcli\<close>.\<close>

primrec cli_run :: "bool list \<Rightarrow> cpu \<Rightarrow> cpu option" where
  "cli_run [] c = Some c"
| "cli_run (b # bs) c = (if b then cli_run bs (pushcli c) else (case popcli c of None \<Rightarrow> None | Some c1 \<Rightarrow> cli_run bs c1))"

inductive nested :: "bool list \<Rightarrow> bool" where
  "nested []"
| "nested xs \<Longrightarrow> nested ys \<Longrightarrow> nested (True # xs @ False # ys)"

lemma cli_run_append: "cli_run (xs @ ys) c = Option.bind (cli_run xs c) (cli_run ys)"
  by (induction xs arbitrary: c) (auto split: option.split)

lemma nested_restores:
  assumes "nested bs" "cpu_ok c"
  shows "\<exists>c'. cli_run bs c = Some c' \<and> eflags_if c' = eflags_if c \<and> ncli c' = ncli c \<and> cpu_ok c' \<and>
    (0 < ncli c \<longrightarrow> intena c' = intena c)"
  using assms
proof (induction bs arbitrary: c)
  case (2 xs ys)
  note p = pushcli_props [OF "2.prems"]
  from "2.IH"(1) [OF p(1)] obtain c1 where
    c1: "cli_run xs (pushcli c) = Some c1" "eflags_if c1 = eflags_if (pushcli c)" "ncli c1 = ncli (pushcli c)" "cpu_ok c1"
      "0 < ncli (pushcli c) \<longrightarrow> intena c1 = intena (pushcli c)" by blast
  have "\<exists>c2. popcli c1 = Some c2 \<and> eflags_if c2 = eflags_if c \<and> ncli c2 = ncli c \<and> cpu_ok c2 \<and> (0 < ncli c \<longrightarrow> intena c2 = intena c)"
    using c1(2,3,5) p(2-4) "2.prems" by (auto simp: popcli_def cpu_ok_def Let_def)
  then obtain c2 where c2: "popcli c1 = Some c2" "eflags_if c2 = eflags_if c" "ncli c2 = ncli c" "cpu_ok c2"
    "0 < ncli c \<longrightarrow> intena c2 = intena c" by blast
  from "2.IH"(2) [OF c2(4)] c1(1) c2 show ?case by (auto simp: cli_run_append)
qed auto

section \<open>Processors that use one lock\<close>

text \<open>
  The processors take turns in any order, one statement at a time, on a memory that all of them see
  in the same order (the barriers in the code are for that).
\<close>

record lock_sys =
  the_lock :: spinlock
  cpus :: "nat \<Rightarrow> cpu"
  lpc :: "nat \<Rightarrow> lock_pc"

definition put_cpu :: "nat \<Rightarrow> lock_pc \<times> spinlock \<times> cpu \<Rightarrow> lock_sys \<Rightarrow> lock_sys" where
  "put_cpu i r s = (case r of (pc, lk, c) \<Rightarrow> s\<lparr>the_lock := lk, cpus := (cpus s)(i := c), lpc := (lpc s)(i := pc)\<rparr>)"

inductive lock_step :: "memory \<Rightarrow> lock_sys \<Rightarrow> lock_sys \<Rightarrow> bool" for m where
  acq: "acquire i m v (lpc s i) (the_lock s) (cpus s i) = Some r \<Longrightarrow> lock_step m s (put_cpu i r s)"
| rel: "release i (lpc s i) (the_lock s) (cpus s i) = Some r \<Longrightarrow> lock_step m s (put_cpu i r s)"

definition lock_init :: "lock_sys \<Rightarrow> bool" where
  "lock_init s \<longleftrightarrow> \<not> locked (the_lock s) \<and> lk_cpu (the_lock s) = None \<and> (\<forall>i. lpc s i = Outside \<and> cpu_ok (cpus s i))"

text \<open>
  The places at which a processor has the lock, those at which the lock names it, the nesting depth of
  \<^verbatim>\<open>pushcli\<close> at each place, and the places that are possible.
\<close>

fun has_lock :: "lock_pc \<Rightarrow> bool" where
  "has_lock pc \<longleftrightarrow> (case pc of
     ASetCpu \<Rightarrow> True | ASetPcs \<Rightarrow> True | Inside \<Rightarrow> True | RHold _ \<Rightarrow> True | RTest _ \<Rightarrow> True
   | RClearPcs \<Rightarrow> True | RClearCpu \<Rightarrow> True | RClearLocked \<Rightarrow> True | _ \<Rightarrow> False)"

fun named_by_lock :: "lock_pc \<Rightarrow> bool" where
  "named_by_lock pc \<longleftrightarrow> has_lock pc \<and> pc \<noteq> ASetCpu \<and> pc \<noteq> RClearLocked"

fun cli_depth :: "lock_pc \<Rightarrow> int" where
  "cli_depth pc = (case pc of Outside \<Rightarrow> 0 | AHold h \<Rightarrow> if h = HPush then 1 else 2 | RHold h \<Rightarrow> if h = HPush then 1 else 2 | _ \<Rightarrow> 1)"

fun possible :: "lock_pc \<Rightarrow> bool" where
  "possible pc \<longleftrightarrow> (case pc of
     Panic \<Rightarrow> False | AHold (HPop r) \<Rightarrow> \<not> r | ATest r \<Rightarrow> \<not> r | RHold (HPop r) \<Rightarrow> r | RTest r \<Rightarrow> r | _ \<Rightarrow> True)"

definition cpu_inv :: "nat \<Rightarrow> lock_pc \<Rightarrow> spinlock \<Rightarrow> cpu \<Rightarrow> bool" where
  "cpu_inv i pc lk c \<longleftrightarrow> possible pc \<and> cpu_ok c \<and> cli_depth pc \<le> ncli c \<and>
     (named_by_lock pc \<longleftrightarrow> lk_cpu lk = Some i) \<and> (has_lock pc \<longrightarrow> locked lk)"

definition lock_inv :: "lock_sys \<Rightarrow> bool" where
  "lock_inv s \<longleftrightarrow> (\<forall>i. cpu_inv i (lpc s i) (the_lock s) (cpus s i)) \<and>
     (\<forall>i j. has_lock (lpc s i) \<longrightarrow> has_lock (lpc s j) \<longrightarrow> i = j) \<and>
     (locked (the_lock s) \<longrightarrow> (\<exists>i. has_lock (lpc s i)))"

text \<open>What one statement does to the lock, seen from the other processors.\<close>

definition lock_change :: "nat \<Rightarrow> lock_pc \<Rightarrow> spinlock \<Rightarrow> lock_pc \<Rightarrow> spinlock \<Rightarrow> bool" where
  "lock_change i pc lk pc' lk' \<longleftrightarrow>
     (locked lk' = locked lk \<and> lk_cpu lk' = lk_cpu lk \<and> has_lock pc' = has_lock pc) \<or>
     (\<not> locked lk \<and> locked lk' \<and> lk_cpu lk' = lk_cpu lk \<and> has_lock pc') \<or>
     (has_lock pc \<and> has_lock pc' \<and> locked lk' = locked lk \<and> lk_cpu lk' \<in> {None, Some i}) \<or>
     (has_lock pc \<and> \<not> has_lock pc' \<and> \<not> locked lk' \<and> lk_cpu lk' = lk_cpu lk)"

lemma popcli_ok:
  assumes "cpu_ok c" "0 < ncli c"
  obtains c' where "popcli c = Some c'" "cpu_ok c'" "ncli c' = ncli c - 1"
proof -
  have "\<exists>c'. popcli c = Some c' \<and> cpu_ok c' \<and> ncli c' = ncli c - 1"
    using assms by (auto simp: popcli_def cpu_ok_def Let_def)
  then show thesis
    using that by blast
qed

lemma holding_step_ok:
  assumes "cpu_ok c" "(if h = HPush then 1 else 2) \<le> ncli c"
  obtains (pc) h' c' where "holding_step me h lk c = Some (Inl h', c')" "cpu_ok c'" "h' \<noteq> HPush" "2 \<le> ncli c'"
      "h' = (case h of HPush \<Rightarrow> HLocked | HLocked \<Rightarrow> if locked lk then HCpu else HPop False | _ \<Rightarrow> HPop (lk_cpu lk = Some me))"
  | (answer) r c' where "h = HPop r" "holding_step me h lk c = Some (Inr r, c')" "cpu_ok c'" "1 \<le> ncli c'"
proof (cases h)
  case (HPop r)
  then obtain c' where "popcli c = Some c'" "cpu_ok c'" "ncli c' = ncli c - 1"
    using assms by (auto intro: popcli_ok [of c])
  then show thesis
    using answer [of r c'] HPop assms(2) by simp
qed (use pc pushcli_props [OF assms(1)] assms in \<open>auto\<close>)

lemma cpu_inv_acquire:
  assumes "cpu_inv i pc lk c" "acquire i m v pc lk c = Some (pc', lk', c')"
  shows "cpu_inv i pc' lk' c' \<and> lock_change i pc lk pc' lk'"
proof (cases pc)
  case (AHold h)
  have "cpu_ok c" "(if h = HPush then 1 else 2) \<le> ncli c" "lk_cpu lk \<noteq> Some i"
    using assms(1) AHold by (auto simp: cpu_inv_def)
  then show ?thesis
    using assms AHold
    by (cases rule: holding_step_ok [of c h i lk]) (auto simp: cpu_inv_def lock_change_def split: hold_pc.splits if_splits)
qed (use assms pushcli_props [of c] in \<open>auto simp: cpu_inv_def lock_change_def split: if_splits\<close>)

lemma cpu_inv_release:
  assumes "cpu_inv i pc lk c" "release i pc lk c = Some (pc', lk', c')"
  shows "cpu_inv i pc' lk' c' \<and> lock_change i pc lk pc' lk'"
proof (cases pc)
  case (RHold h)
  have "cpu_ok c" "(if h = HPush then 1 else 2) \<le> ncli c" "lk_cpu lk = Some i" "locked lk"
    using assms(1) RHold by (auto simp: cpu_inv_def)
  then show ?thesis
    using assms RHold
    by (cases rule: holding_step_ok [of c h i lk]) (auto simp: cpu_inv_def lock_change_def split: hold_pc.splits if_splits)
next
  case RPop
  then have "cpu_ok c" "0 < ncli c"
    using assms(1) by (auto simp: cpu_inv_def)
  then obtain d where "popcli c = Some d" "cpu_ok d"
    by (rule popcli_ok)
  then show ?thesis
    using assms RPop by (auto simp: cpu_inv_def lock_change_def cpu_ok_def)
qed (use assms in \<open>auto simp: cpu_inv_def lock_change_def split: if_splits\<close>)

text \<open>A statement of one processor keeps what holds of the others.\<close>

lemma cpu_inv_other:
  assumes "cpu_inv j pc lk c" "lock_change i qc lk qc' lk'" "j \<noteq> i" "has_lock qc \<longrightarrow> \<not> has_lock pc" "has_lock qc \<longrightarrow> lk_cpu lk \<noteq> Some j"
  shows "cpu_inv j pc lk' c"
  using assms unfolding cpu_inv_def lock_change_def by auto

lemma lock_inv_put:
  assumes "lock_inv s" "cpu_inv i pc' lk' c'" "lock_change i (lpc s i) (the_lock s) pc' lk'"
  shows "lock_inv (put_cpu i (pc', lk', c') s)"
proof -
  let ?t = "put_cpu i (pc', lk', c') s"
  have t: "the_lock ?t = lk'" "lpc ?t = (lpc s)(i := pc')" "cpus ?t = (cpus s)(i := c')"
    by (simp_all add: put_cpu_def)
  have inv: "cpu_inv j (lpc s j) (the_lock s) (cpus s j)" and one: "has_lock (lpc s i) \<Longrightarrow> has_lock (lpc s j) \<Longrightarrow> i = j" for j
    using assms(1) unfolding lock_inv_def by blast+
  have locked: "has_lock (lpc s j) \<Longrightarrow> locked (the_lock s)" and name: "lk_cpu (the_lock s) = Some j \<Longrightarrow> has_lock (lpc s j)" for j
    using inv [of j] by (auto simp: cpu_inv_def)
  have "cpu_inv j (lpc ?t j) lk' (cpus ?t j)" for j
  proof (cases "j = i")
    case False
    then have "cpu_inv j (lpc s j) lk' (cpus s j)"
      using cpu_inv_other [OF inv assms(3)] one name by blast
    then show ?thesis
      using False by (simp add: t)
  qed (simp add: t assms(2))
  moreover have new: "\<not> has_lock (lpc s j)" if "has_lock pc'" "j \<noteq> i" for j
    using assms(3) that one locked unfolding lock_change_def by blast
  then have "j = k" if "has_lock (lpc ?t j)" "has_lock (lpc ?t k)" for j k
    using that assms(1) unfolding t lock_inv_def by (metis fun_upd_apply)
  moreover have "\<exists>j. has_lock (lpc ?t j)" if "locked lk'"
    using that assms(1,3) unfolding t lock_change_def lock_inv_def by (metis fun_upd_apply)
  ultimately show ?thesis
    unfolding lock_inv_def t(1) by blast
qed

lemma lock_inv_step:
  assumes "lock_step m s t" "lock_inv s"
  shows "lock_inv t"
  using assms(1)
proof cases
  case (acq i v r)
  obtain pc lk c where r: "r = (pc, lk, c)"
    by (cases r)
  have "cpu_inv i (lpc s i) (the_lock s) (cpus s i)"
    using assms(2) unfolding lock_inv_def by blast
  from cpu_inv_acquire [OF this acq(2) [unfolded r]] show ?thesis
    unfolding acq(1) r by (intro lock_inv_put [OF assms(2)]) blast+
next
  case (rel i r)
  obtain pc lk c where r: "r = (pc, lk, c)"
    by (cases r)
  have "cpu_inv i (lpc s i) (the_lock s) (cpus s i)"
    using assms(2) unfolding lock_inv_def by blast
  from cpu_inv_release [OF this rel(2) [unfolded r]] show ?thesis
    unfolding rel(1) r by (intro lock_inv_put [OF assms(2)]) blast+
qed

interpretation slk: step_invariant lock_init "lock_step m" lock_inv for m
proof (unfold_locales)
  show "lock_inv s" if "lock_init s" for s
    using that by (simp add: lock_init_def lock_inv_def cpu_inv_def cpu_ok_def)
  show "lock_inv t" if "lock_inv s" "lock_step m s t" for s t
    using that lock_inv_step by blast
qed

section \<open>Properties\<close>

text \<open>C12. However the statements of \<^verbatim>\<open>acquire\<close> and \<^verbatim>\<open>release\<close> on different processors interleave, each seeing the stores of those before it, at most one processor is
  between its \<^verbatim>\<open>acquire\<close> and its \<^verbatim>\<open>release\<close>; interrupts are off on that processor and the lock names it. None of the
  checks of \<^verbatim>\<open>acquire\<close>, \<^verbatim>\<open>release\<close> and \<^verbatim>\<open>popcli\<close> panics.\<close>

theorem spinlock_mutex:
  assumes "reach lock_init (lock_step m) s"
  shows "lpc s i \<noteq> Panic \<and>
    (lpc s i = Inside \<longrightarrow> lpc s j = Inside \<longrightarrow> i = j \<and> \<not> eflags_if (cpus s i) \<and> lk_cpu (the_lock s) = Some i)"
proof -
  have inv: "lock_inv s"
    by (rule slk.reach_inv [OF assms])
  then have i: "cpu_inv i (lpc s i) (the_lock s) (cpus s i)"
    by (simp add: lock_inv_def)
  have "i = j" if "lpc s i = Inside" "lpc s j = Inside"
    using inv that by (auto simp: lock_inv_def)
  then show ?thesis
    using i by (auto simp: cpu_inv_def cpu_ok_def)
qed

text \<open>Any well nested sequence of \<^verbatim>\<open>pushcli\<close> and \<^verbatim>\<open>popcli\<close> runs without a panic and leaves the interrupt flag as
  it was.\<close>

theorem cli_nesting_restores:
  assumes "nested bs" "cpu_ok c"
  shows "\<exists>c'. cli_run bs c = Some c' \<and> eflags_if c' = eflags_if c \<and> ncli c' = ncli c"
  using nested_restores [OF assms] by blast

section \<open>Witnesses\<close>

definition idle_cpu :: cpu where
  "idle_cpu = \<lparr>eflags_if = True, ncli = 0, intena = False\<rparr>"

theorem cli_nesting_restores_witness: "\<exists>c'. cli_run [True, True, False, False] idle_cpu = Some c' \<and> eflags_if c'"
proof -
  have n: "nested ([True, True, False, False])"
    using nested.intros(2) [OF nested.intros(2) [OF nested.intros(1) nested.intros(1)] nested.intros(1)] by simp
  have "cpu_ok idle_cpu" by (simp add: cpu_ok_def idle_cpu_def)
  from cli_nesting_restores [OF n this] have "\<exists>c'. cli_run [True, True, False, False] idle_cpu = Some c' \<and> eflags_if c' = eflags_if idle_cpu"
    by blast
  then show ?thesis by (simp only: idle_cpu_def cpu.select_convs simp_thms)
qed

primrec lock_run :: "(nat \<times> bool) list \<Rightarrow> lock_sys \<Rightarrow> lock_sys option" where
  "lock_run [] s = Some s"
| "lock_run (x # xs) s = (case (if snd x then acquire (fst x) (\<lambda>a. 0) 0 else release (fst x)) (lpc s (fst x)) (the_lock s) (cpus s (fst x)) of
     None \<Rightarrow> None | Some r \<Rightarrow> lock_run xs (put_cpu (fst x) r s))"

lemma lock_run_reach:
  "lock_run xs s = Some t \<Longrightarrow> reach lock_init (lock_step (\<lambda>a. 0)) s \<Longrightarrow> reach lock_init (lock_step (\<lambda>a. 0)) t"
  by (induction xs arbitrary: s) (auto split: option.splits if_splits intro: reach_step lock_step.intros)

text \<open>Processor 0 takes the lock, processor 1 spins, processor 0 clears \<^verbatim>\<open>locked\<close>, and processor 1 gets the lock.\<close>

definition idle_sys :: lock_sys where
  "idle_sys = \<lparr>the_lock = \<lparr>locked = False, lk_cpu = None, pcs = []\<rparr>, cpus = \<lambda>i. idle_cpu, lpc = \<lambda>i. Outside\<rparr>"

definition handover :: "(nat \<times> bool) list" where
  "handover = replicate 8 (0, True) @ replicate 7 (1, True) @ replicate 9 (0, False) @ replicate 3 (1, True)"

theorem spinlock_mutex_witness:
  "\<exists>s. lock_run handover idle_sys = Some s \<and> lpc s 1 = Inside \<and> lpc s 0 \<noteq> Panic \<and> \<not> eflags_if (cpus s 1) \<and> lk_cpu (the_lock s) = Some 1"
proof -
  have r: "reach lock_init (lock_step (\<lambda>a. 0)) idle_sys"
    by (rule reach_init) (simp add: lock_init_def idle_sys_def idle_cpu_def cpu_ok_def)
  have "map_option (\<lambda>s. lpc s 1) (lock_run handover idle_sys) = Some Inside"
    by code_simp
  then obtain s where s: "lock_run handover idle_sys = Some s" "lpc s 1 = Inside"
    by auto
  then have "reach lock_init (lock_step (\<lambda>a. 0)) s"
    using r by (auto intro: lock_run_reach)
  from spinlock_mutex [OF this, of 0 0] spinlock_mutex [OF this, of 1 1] s show ?thesis
    by blast
qed

end
