(* ===== verification/Xv6_Bio.thy ===== *)
theory Xv6_Bio
  imports Xv6_Lock
begin

text \<open>
  The buffer cache, \<^verbatim>\<open>hw3/xv6/bio.c\<close>, on the disk driver \<^verbatim>\<open>memide.c\<close>. The buffers are an array,
  the list through \<^verbatim>\<open>prev\<close> and \<^verbatim>\<open>next\<close> is the list of their indices with the most recently used first.
  \<open>None\<close> is a panic, or the wait for a lock that is held. The writes to the disk are recorded in
  their order.
\<close>

definition BSIZE :: nat where "BSIZE = 512"
definition MAXOPBLOCKS :: nat where "MAXOPBLOCKS = 10"
definition NBUF :: nat where "NBUF = MAXOPBLOCKS * 3"

record buf =
  b_valid :: bool
  b_dirty :: bool
  b_dev :: nat
  b_blockno :: nat
  b_lock :: sleeplock
  b_refcnt :: nat
  b_data :: bytes

record bio =
  bufs :: "buf list"
  mru :: "nat list"
  disk :: "nat \<Rightarrow> bytes"
  disksize :: nat
  writes :: "(nat \<times> bytes) list"

abbreviation upd_buf :: "nat \<Rightarrow> (buf \<Rightarrow> buf) \<Rightarrow> bio \<Rightarrow> bio" where
  "upd_buf i f s \<equiv> s\<lparr>bufs := (bufs s)[i := f (bufs s ! i)]\<rparr>"

section \<open>The operations\<close>

text \<open>The list after \<^verbatim>\<open>binit\<close>: every buffer has been put in front of those before it.\<close>

definition binit :: "bio \<Rightarrow> bio" where
  "binit s = s\<lparr>mru := rev [0..<NBUF], bufs := map (\<lambda>b. b\<lparr>b_lock := initsleeplock (b_lock b)\<rparr>) (bufs s)\<rparr>"

definition iderw :: "int \<Rightarrow> nat \<Rightarrow> bio \<Rightarrow> bio option" where
  "iderw me i s =
     (let b = bufs s ! i in
      if \<not> holdingsleep me (b_lock b) then None
      else if b_valid b \<and> \<not> b_dirty b then None
      else if b_dev b \<noteq> 1 then None
      else if b_blockno b \<ge> disksize s then None
      else if b_dirty b then
        Some (upd_buf i (\<lambda>b. b\<lparr>b_dirty := False, b_valid := True\<rparr>) s
          \<lparr>disk := (disk s)(b_blockno b := b_data b), writes := writes s @ [(b_blockno b, b_data b)]\<rparr>)
      else Some (upd_buf i (\<lambda>b. b\<lparr>b_data := disk s (b_blockno b), b_valid := True\<rparr>) s))"

definition lock_buf :: "int \<Rightarrow> nat \<Rightarrow> bio \<Rightarrow> (nat \<times> bio) option" where
  "lock_buf me i s =
     do { lk \<leftarrow> acquiresleep me (b_lock (bufs s ! i)); Some (i, upd_buf i (\<lambda>b. b\<lparr>b_lock := lk\<rparr>) s) }"

definition bget :: "int \<Rightarrow> nat \<Rightarrow> nat \<Rightarrow> bio \<Rightarrow> (nat \<times> bio) option" where
  "bget me dev blockno s =
     (case find (\<lambda>i. b_dev (bufs s ! i) = dev \<and> b_blockno (bufs s ! i) = blockno) (mru s) of
       Some i \<Rightarrow> lock_buf me i (upd_buf i (\<lambda>b. b\<lparr>b_refcnt := b_refcnt b + 1\<rparr>) s)
     | None \<Rightarrow>
         (case find (\<lambda>i. b_refcnt (bufs s ! i) = 0 \<and> \<not> b_dirty (bufs s ! i)) (rev (mru s)) of
           Some i \<Rightarrow> lock_buf me i (upd_buf i (\<lambda>b. b\<lparr>b_dev := dev, b_blockno := blockno, b_valid := False,
                       b_dirty := False, b_refcnt := 1\<rparr>) s)
         | None \<Rightarrow> None))"

definition bread :: "int \<Rightarrow> nat \<Rightarrow> nat \<Rightarrow> bio \<Rightarrow> (nat \<times> bio) option" where
  "bread me dev blockno s =
     do {
       (i, s) \<leftarrow> bget me dev blockno s;
       if \<not> b_valid (bufs s ! i) then do { s \<leftarrow> iderw me i s; Some (i, s) } else Some (i, s)
     }"

definition bwrite :: "int \<Rightarrow> nat \<Rightarrow> bio \<Rightarrow> bio option" where
  "bwrite me i s =
     (if \<not> holdingsleep me (b_lock (bufs s ! i)) then None
      else iderw me i (upd_buf i (\<lambda>b. b\<lparr>b_dirty := True\<rparr>) s))"

definition brelse :: "int \<Rightarrow> nat \<Rightarrow> bio \<Rightarrow> bio option" where
  "brelse me i s =
     (if \<not> holdingsleep me (b_lock (bufs s ! i)) then None
      else
        let s = upd_buf i (\<lambda>b. b\<lparr>b_lock := releasesleep (b_lock b)\<rparr>) s;
            s = upd_buf i (\<lambda>b. b\<lparr>b_refcnt := b_refcnt b - 1\<rparr>) s
        in Some (if b_refcnt (bufs s ! i) = 0 then s\<lparr>mru := i # remove1 i (mru s)\<rparr> else s))"

text \<open>What the owner of a buffer does to its bytes.\<close>

definition set_data :: "nat \<Rightarrow> bytes \<Rightarrow> bio \<Rightarrow> bio" where
  "set_data i d s = upd_buf i (\<lambda>b. b\<lparr>b_data := d\<rparr>) s"

section \<open>The cache as a view of the disk\<close>

text \<open>The process \<open>me\<close> holds the buffers \<open>H\<close> and nobody else holds any.\<close>

definition bio_ok :: "int \<Rightarrow> nat set \<Rightarrow> bio \<Rightarrow> bool" where
  "bio_ok me H s \<longleftrightarrow> length (bufs s) = NBUF \<and> distinct (mru s) \<and> set (mru s) = {..<NBUF} \<and> H \<subseteq> {..<NBUF} \<and>
     (\<forall>i<NBUF. let b = bufs s ! i in
        (if i \<in> H then holdingsleep me (b_lock b) \<and> b_refcnt b = 1 \<and> b_valid b \<and> b_dev b = 1
         else \<not> sl_locked (b_lock b) \<and> b_refcnt b = 0) \<and>
        (b_dirty b \<longrightarrow> b_valid b \<and> b_dev b = 1) \<and>
        (b_dev b = 1 \<longrightarrow> b_blockno b < disksize s) \<and>
        (b_valid b \<and> \<not> b_dirty b \<and> i \<notin> H \<and> b_dev b = 1 \<longrightarrow> b_data b = disk s (b_blockno b))) \<and>
     (\<forall>i<NBUF. \<forall>j<NBUF. b_dev (bufs s ! i) = 1 \<longrightarrow> b_dev (bufs s ! j) = 1 \<longrightarrow>
        b_blockno (bufs s ! i) = b_blockno (bufs s ! j) \<longrightarrow> i = j)"

text \<open>The contents of a block as every reader sees it.\<close>

definition view :: "bio \<Rightarrow> nat \<Rightarrow> bytes" where
  "view s b = (case find (\<lambda>i. b_dev (bufs s ! i) = 1 \<and> b_blockno (bufs s ! i) = b \<and> b_valid (bufs s ! i)) [0..<NBUF] of
     Some i \<Rightarrow> b_data (bufs s ! i) | None \<Rightarrow> disk s b)"

definition holds_block :: "nat \<Rightarrow> nat \<Rightarrow> bio \<Rightarrow> bool" where
  "holds_block b i s \<longleftrightarrow> b_dev (bufs s ! i) = 1 \<and> b_blockno (bufs s ! i) = b"

definition dirty_blocks :: "bio \<Rightarrow> nat set" where
  "dirty_blocks s = {b. \<exists>i<NBUF. holds_block b i s \<and> b_dirty (bufs s ! i)}"

definition room :: "nat set \<Rightarrow> bio \<Rightarrow> bool" where
  "room H s \<longleftrightarrow> (\<exists>j<NBUF. j \<notin> H \<and> \<not> b_dirty (bufs s ! j))"

lemma bio_okD:
  assumes "bio_ok me H s"
  shows "length (bufs s) = NBUF" "distinct (mru s)" "set (mru s) = {..<NBUF}" "H \<subseteq> {..<NBUF}"
    "i < NBUF \<Longrightarrow> i \<in> H \<Longrightarrow> holdingsleep me (b_lock (bufs s ! i)) \<and> b_refcnt (bufs s ! i) = 1 \<and> b_valid (bufs s ! i) \<and> b_dev (bufs s ! i) = 1"
    "i < NBUF \<Longrightarrow> i \<notin> H \<Longrightarrow> \<not> sl_locked (b_lock (bufs s ! i)) \<and> b_refcnt (bufs s ! i) = 0"
    "i < NBUF \<Longrightarrow> b_dirty (bufs s ! i) \<Longrightarrow> b_valid (bufs s ! i) \<and> b_dev (bufs s ! i) = 1"
    "i < NBUF \<Longrightarrow> holds_block b i s \<Longrightarrow> b < disksize s"
    "i < NBUF \<Longrightarrow> b_valid (bufs s ! i) \<Longrightarrow> \<not> b_dirty (bufs s ! i) \<Longrightarrow> i \<notin> H \<Longrightarrow> holds_block b i s \<Longrightarrow> b_data (bufs s ! i) = disk s b"
    "i < NBUF \<Longrightarrow> j < NBUF \<Longrightarrow> holds_block b i s \<Longrightarrow> holds_block b j s \<Longrightarrow> i = j"
proof -
  note o = assms [unfolded bio_ok_def Let_def]
  have all: "(if i \<in> H then holdingsleep me (b_lock (bufs s ! i)) \<and> b_refcnt (bufs s ! i) = 1 \<and> b_valid (bufs s ! i) \<and> b_dev (bufs s ! i) = 1
         else \<not> sl_locked (b_lock (bufs s ! i)) \<and> b_refcnt (bufs s ! i) = 0) \<and>
        (b_dirty (bufs s ! i) \<longrightarrow> b_valid (bufs s ! i) \<and> b_dev (bufs s ! i) = 1) \<and>
        (b_dev (bufs s ! i) = 1 \<longrightarrow> b_blockno (bufs s ! i) < disksize s) \<and>
        (b_valid (bufs s ! i) \<and> \<not> b_dirty (bufs s ! i) \<and> i \<notin> H \<and> b_dev (bufs s ! i) = 1 \<longrightarrow>
          b_data (bufs s ! i) = disk s (b_blockno (bufs s ! i)))" if "i < NBUF" for i using o that by blast
  show "length (bufs s) = NBUF" "distinct (mru s)" "set (mru s) = {..<NBUF}" "H \<subseteq> {..<NBUF}" using o by blast+
  show "i < NBUF \<Longrightarrow> i \<in> H \<Longrightarrow> holdingsleep me (b_lock (bufs s ! i)) \<and> b_refcnt (bufs s ! i) = 1 \<and> b_valid (bufs s ! i) \<and> b_dev (bufs s ! i) = 1"
    "i < NBUF \<Longrightarrow> i \<notin> H \<Longrightarrow> \<not> sl_locked (b_lock (bufs s ! i)) \<and> b_refcnt (bufs s ! i) = 0"
    "i < NBUF \<Longrightarrow> b_dirty (bufs s ! i) \<Longrightarrow> b_valid (bufs s ! i) \<and> b_dev (bufs s ! i) = 1"
    "i < NBUF \<Longrightarrow> holds_block b i s \<Longrightarrow> b < disksize s"
    "i < NBUF \<Longrightarrow> b_valid (bufs s ! i) \<Longrightarrow> \<not> b_dirty (bufs s ! i) \<Longrightarrow> i \<notin> H \<Longrightarrow> holds_block b i s \<Longrightarrow> b_data (bufs s ! i) = disk s b"
    using all [of i] by (auto simp: holds_block_def split: if_splits)
  show "i < NBUF \<Longrightarrow> j < NBUF \<Longrightarrow> holds_block b i s \<Longrightarrow> holds_block b j s \<Longrightarrow> i = j"
    using o unfolding holds_block_def by blast
qed

lemma view_cached:
  assumes "bio_ok me H s" "i < NBUF" "holds_block b i s" "b_valid (bufs s ! i)"
  shows "view s b = b_data (bufs s ! i)"
proof -
  let ?P = "\<lambda>i. b_dev (bufs s ! i) = 1 \<and> b_blockno (bufs s ! i) = b \<and> b_valid (bufs s ! i)"
  have "find ?P [0..<NBUF] \<noteq> None" using assms(2-4) by (auto simp: find_None_iff holds_block_def)
  then obtain j where j: "find ?P [0..<NBUF] = Some j" by auto
  then have "j < NBUF" "?P j" by (auto simp: find_Some_iff)
  with bio_okD(10) [OF assms(1), of j i b] assms(2,3) have "j = i" by (simp add: holds_block_def)
  with j show ?thesis by (simp add: view_def)
qed

lemma view_uncached:
  assumes "\<And>i. i < NBUF \<Longrightarrow> holds_block b i s \<Longrightarrow> \<not> b_valid (bufs s ! i)"
  shows "view s b = disk s b"
proof -
  have "find (\<lambda>i. b_dev (bufs s ! i) = 1 \<and> b_blockno (bufs s ! i) = b \<and> b_valid (bufs s ! i)) [0..<NBUF] = None"
    using assms by (auto simp: find_None_iff holds_block_def)
  then show ?thesis by (simp add: view_def)
qed

text \<open>
  A free buffer \<open>i\<close> is replaced by a locked one for block \<open>b\<close> with the data of that block; it is the
  buffer of that block already, or a clean one while no buffer has the block.
\<close>

definition takes :: "int \<Rightarrow> nat \<Rightarrow> nat \<Rightarrow> bio \<Rightarrow> bio \<Rightarrow> bool" where
  "takes me b i s s' \<longleftrightarrow> (\<exists>nb. s' = s\<lparr>bufs := (bufs s)[i := nb]\<rparr> \<and> b_valid nb \<and> b_dev nb = 1 \<and> b_blockno nb = b \<and>
     holdingsleep me (b_lock nb) \<and> b_refcnt nb = 1 \<and> b_data nb = view s b \<and>
     (holds_block b i s \<and> (b_dirty nb \<longleftrightarrow> b_dirty (bufs s ! i)) \<or>
      (\<forall>j<NBUF. \<not> holds_block b j s) \<and> \<not> b_dirty (bufs s ! i) \<and> \<not> b_dirty nb))"

lemma takes_other: "takes me b i s s' \<Longrightarrow> j \<noteq> i \<Longrightarrow> bufs s' ! j = bufs s ! j"
  by (auto simp: takes_def)

lemma takes_same:
  assumes "takes me b i s s'" "bio_ok me H s" "i < NBUF"
  shows "b_valid (bufs s' ! i)" "holds_block b i s'" "holdingsleep me (b_lock (bufs s' ! i))" "b_refcnt (bufs s' ! i) = 1"
    "b_data (bufs s' ! i) = view s b" "disk s' = disk s" "disksize s' = disksize s" "writes s' = writes s" "mru s' = mru s"
    "length (bufs s') = NBUF" "b_dirty (bufs s' ! i) \<longleftrightarrow> holds_block b i s \<and> b_dirty (bufs s ! i)"
  using assms bio_okD(1) [OF assms(2)] by (auto simp: takes_def holds_block_def)

lemma bio_okI:
  assumes "length (bufs s) = NBUF" "distinct (mru s)" "set (mru s) = {..<NBUF}" "H \<subseteq> {..<NBUF}"
    "\<And>i. i < NBUF \<Longrightarrow> i \<in> H \<Longrightarrow> holdingsleep me (b_lock (bufs s ! i)) \<and> b_refcnt (bufs s ! i) = 1 \<and> b_valid (bufs s ! i) \<and> b_dev (bufs s ! i) = 1"
    "\<And>i. i < NBUF \<Longrightarrow> i \<notin> H \<Longrightarrow> \<not> sl_locked (b_lock (bufs s ! i)) \<and> b_refcnt (bufs s ! i) = 0"
    "\<And>i. i < NBUF \<Longrightarrow> b_dirty (bufs s ! i) \<Longrightarrow> b_valid (bufs s ! i) \<and> b_dev (bufs s ! i) = 1"
    "\<And>i b. i < NBUF \<Longrightarrow> holds_block b i s \<Longrightarrow> b < disksize s"
    "\<And>i b. i < NBUF \<Longrightarrow> b_valid (bufs s ! i) \<Longrightarrow> \<not> b_dirty (bufs s ! i) \<Longrightarrow> i \<notin> H \<Longrightarrow> holds_block b i s \<Longrightarrow> b_data (bufs s ! i) = disk s b"
    "\<And>i j b. i < NBUF \<Longrightarrow> j < NBUF \<Longrightarrow> holds_block b i s \<Longrightarrow> holds_block b j s \<Longrightarrow> i = j"
  shows "bio_ok me H s"
  unfolding bio_ok_def Let_def
proof (intro conjI allI impI)
  fix i assume i: "i < NBUF"
  show "if i \<in> H then holdingsleep me (b_lock (bufs s ! i)) \<and> b_refcnt (bufs s ! i) = 1 \<and> b_valid (bufs s ! i) \<and> b_dev (bufs s ! i) = 1
      else \<not> sl_locked (b_lock (bufs s ! i)) \<and> b_refcnt (bufs s ! i) = 0"
    using assms(5,6) [OF i] by simp
  show "b_valid (bufs s ! i)" "b_dev (bufs s ! i) = 1" if "b_dirty (bufs s ! i)" using assms(7) [OF i that] by simp_all
  show "b_blockno (bufs s ! i) < disksize s" if "b_dev (bufs s ! i) = 1"
    by (rule assms(8) [OF i]) (use that in \<open>simp add: holds_block_def\<close>)
  show "b_data (bufs s ! i) = disk s (b_blockno (bufs s ! i))"
    if "b_valid (bufs s ! i) \<and> \<not> b_dirty (bufs s ! i) \<and> i \<notin> H \<and> b_dev (bufs s ! i) = 1"
    by (rule assms(9) [OF i]) (use that in \<open>simp_all add: holds_block_def\<close>)
  show "i = j" if "j < NBUF" "b_dev (bufs s ! i) = 1" "b_dev (bufs s ! j) = 1" "b_blockno (bufs s ! i) = b_blockno (bufs s ! j)" for j
    by (rule assms(10) [OF i that(1)]) (use that in \<open>simp_all add: holds_block_def\<close>)
qed (rule assms)+

lemma takes_ok:
  assumes "takes me b i s s'" "bio_ok me H s" "i < NBUF" "i \<notin> H" "b < disksize s"
  shows "bio_ok me (insert i H) s'"
proof -
  note o = bio_okD [OF assms(2)] and t = takes_same [OF assms(1-3)]
  have oth: "bufs s' ! j = bufs s ! j" "holds_block c j s' = holds_block c j s" if "j \<noteq> i" for j c
    using takes_other [OF assms(1) that] by (simp_all add: holds_block_def)
  have hb: "holds_block c i s' \<longleftrightarrow> c = b" for c using t(2) by (auto simp: holds_block_def)
  have nb: "\<not> holds_block b j s" if "j < NBUF" "j \<noteq> i" for j
    using assms(1) o(10) [OF that(1) assms(3)] that unfolding takes_def by blast
  show ?thesis
  proof (rule bio_okI)
    fix j
    show "holdingsleep me (b_lock (bufs s' ! j)) \<and> b_refcnt (bufs s' ! j) = 1 \<and> b_valid (bufs s' ! j) \<and> b_dev (bufs s' ! j) = 1"
      if "j < NBUF" "j \<in> insert i H" using t(1-4) o(5) [of j] oth(1) [of j] that by (cases "j = i") (auto simp: holds_block_def)
    show "\<not> sl_locked (b_lock (bufs s' ! j)) \<and> b_refcnt (bufs s' ! j) = 0" if "j < NBUF" "j \<notin> insert i H"
      using o(6) [of j] oth(1) [of j] that by auto
    show "b_valid (bufs s' ! j) \<and> b_dev (bufs s' ! j) = 1" if "j < NBUF" "b_dirty (bufs s' ! j)"
      using t(1,2) o(7) [of j] oth(1) [of j] that by (cases "j = i") (auto simp: holds_block_def)
    show "c < disksize s'" if "j < NBUF" "holds_block c j s'" for c
      using hb o(8) [of j c] oth(2) [of j c] that assms(5) t(7) by (cases "j = i") auto
    show "b_data (bufs s' ! j) = disk s' c" if "j < NBUF" "b_valid (bufs s' ! j)" "\<not> b_dirty (bufs s' ! j)" "j \<notin> insert i H"
      "holds_block c j s'" for c using o(9) [of j c] oth [of j] that t(6) by auto
    show "j = l" if "j < NBUF" "l < NBUF" "holds_block c j s'" "holds_block c l s'" for l c
      using that hb oth(2) nb o(10) [of j l c] by (cases "j = i"; cases "l = i") auto
  qed (use t o(2-4) assms(3) in auto)
qed

lemma takes_view:
  assumes "takes me b i s s'" "bio_ok me H s" "i < NBUF" "i \<notin> H" "b < disksize s"
  shows "view s' = view s"
proof
  fix c
  note o = bio_okD [OF assms(2)] and t = takes_same [OF assms(1-3)] and ok = takes_ok [OF assms]
  have oth: "bufs s' ! j = bufs s ! j" "holds_block c j s' = holds_block c j s" if "j \<noteq> i" for j c
    using takes_other [OF assms(1) that] by (simp_all add: holds_block_def)
  show "view s' c = view s c"
  proof (cases "c = b")
    case True
    with view_cached [OF ok assms(3) t(2,1)] t(5) show ?thesis by simp
  next
    case False
    then have ni: "\<not> holds_block c i s'" using t(2) by (auto simp: holds_block_def)
    show ?thesis
    proof (cases "\<exists>j<NBUF. j \<noteq> i \<and> holds_block c j s \<and> b_valid (bufs s ! j)")
      case True
      then obtain j where j: "j < NBUF" "j \<noteq> i" "holds_block c j s" "b_valid (bufs s ! j)" by blast
      with view_cached [OF assms(2) j(1,3,4)] view_cached [OF ok j(1)] oth [OF j(2)] show ?thesis by simp
    next
      case False
      then have "view s' c = disk s c" using view_uncached [of c s'] oth ni t(6) by metis
      moreover have "view s c = disk s c"
      proof (cases "holds_block c i s \<and> b_valid (bufs s ! i)")
        case True
        have "\<not> b_dirty (bufs s ! i)" using assms(1) True \<open>c \<noteq> b\<close> by (auto simp: takes_def holds_block_def)
        then have "b_data (bufs s ! i) = disk s c" using o(9) [OF assms(3)] True assms(4) by blast
        with view_cached [OF assms(2,3)] True show ?thesis by simp
      next
        case no: False
        show ?thesis by (rule view_uncached) (use False no in blast)
      qed
      ultimately show ?thesis by simp
    qed
  qed
qed

lemma takes_dirty:
  assumes "takes me b i s s'" "bio_ok me H s" "i < NBUF"
  shows "dirty_blocks s' = dirty_blocks s"
proof -
  note t = takes_same [OF assms]
  have oth: "bufs s' ! j = bufs s ! j" "holds_block c j s' = holds_block c j s" if "j \<noteq> i" for j c
    using takes_other [OF assms(1) that] by (simp_all add: holds_block_def)
  have i: "holds_block c i s' \<and> b_dirty (bufs s' ! i) \<longleftrightarrow> holds_block c i s \<and> b_dirty (bufs s ! i)" for c
    using assms(1) t(2,11) by (auto simp: takes_def holds_block_def)
  have "holds_block c j s' \<and> b_dirty (bufs s' ! j) \<longleftrightarrow> holds_block c j s \<and> b_dirty (bufs s ! j)" for c j
    using i oth [of j] by (cases "j = i") auto
  then show ?thesis by (simp add: dirty_blocks_def)
qed

section \<open>What the operations do to the view\<close>

lemma lock_free:
  assumes "\<not> sl_locked (b_lock (bufs s ! i))"
  shows "\<exists>lk. lock_buf me i s = Some (i, upd_buf i (\<lambda>b. b\<lparr>b_lock := lk\<rparr>) s) \<and> holdingsleep me lk"
  using assms by (auto simp: lock_buf_def acquiresleep_def holdingsleep_def)

lemma bread_hit:
  assumes "bio_ok me H s" "i < NBUF" "i \<notin> H" "holds_block b i s"
  shows "\<exists>s'. bread me 1 b s = Some (i, s') \<and> takes me b i s s'"
proof -
  note o = bio_okD [OF assms(1)]
  let ?P = "\<lambda>i. b_dev (bufs s ! i) = 1 \<and> b_blockno (bufs s ! i) = b"
  have "find ?P (mru s) \<noteq> None" using assms(2,4) o(3) by (auto simp: find_None_iff holds_block_def)
  then obtain j where j: "find ?P (mru s) = Some j" by auto
  then have "j < NBUF" "holds_block b j s" using o(3) by (auto simp: find_Some_iff holds_block_def dest: nth_mem)
  then have ji: "j = i" using o(10) assms(2,4) by blast
  let ?s1 = "upd_buf i (\<lambda>b. b\<lparr>b_refcnt := b_refcnt b + 1\<rparr>) s"
  have fr: "\<not> sl_locked (b_lock (bufs s ! i))" "b_refcnt (bufs s ! i) = 0" using o(6) assms(2,3) by auto
  then obtain lk where lk: "lock_buf me i ?s1 = Some (i, upd_buf i (\<lambda>b. b\<lparr>b_lock := lk\<rparr>) ?s1)" "holdingsleep me lk"
    using lock_free [of ?s1 i me] o(1) assms(2) by auto
  let ?nb = "(bufs s ! i)\<lparr>b_refcnt := 1, b_lock := lk\<rparr>"
  have g: "bget me 1 b s = Some (i, s\<lparr>bufs := (bufs s)[i := ?nb]\<rparr>)"
    using j lk(1) ji fr(2) o(1) assms(2) by (simp add: bget_def)
  show ?thesis
  proof (cases "b_valid (bufs s ! i)")
    case True
    then have "bread me 1 b s = Some (i, s\<lparr>bufs := (bufs s)[i := ?nb]\<rparr>)" using g o(1) assms(2) by (simp add: bread_def)
    moreover have "takes me b i s (s\<lparr>bufs := (bufs s)[i := ?nb]\<rparr>)"
      using True assms(4) lk(2) view_cached [OF assms(1,2,4) True] unfolding takes_def
      by (intro exI [of _ ?nb]) (auto simp: holds_block_def)
    ultimately show ?thesis by blast
  next
    case False
    let ?nc = "?nb\<lparr>b_data := disk s b, b_valid := True\<rparr>"
    have nd: "\<not> b_dirty (bufs s ! i)" using o(7) [OF assms(2)] False by blast
    have "iderw me i (s\<lparr>bufs := (bufs s)[i := ?nb]\<rparr>) = Some (s\<lparr>bufs := (bufs s)[i := ?nc]\<rparr>)"
      using False nd lk(2) assms(2,4) o(1) o(8) [OF assms(2,4)] by (simp add: iderw_def Let_def holds_block_def)
    then have "bread me 1 b s = Some (i, s\<lparr>bufs := (bufs s)[i := ?nc]\<rparr>)" using g False o(1) assms(2) by (simp add: bread_def)
    moreover have "view s b = disk s b"
      using view_uncached [of b s] o(10) assms(2,4) False by blast
    then have "takes me b i s (s\<lparr>bufs := (bufs s)[i := ?nc]\<rparr>)"
      using False nd assms(4) lk(2) unfolding takes_def by (intro exI [of _ ?nc]) (auto simp: holds_block_def)
    ultimately show ?thesis by blast
  qed
qed

lemma bread_miss:
  assumes "bio_ok me H s" "b < disksize s" "\<And>i. i < NBUF \<Longrightarrow> \<not> holds_block b i s" "room H s"
  shows "\<exists>i s'. bread me 1 b s = Some (i, s') \<and> takes me b i s s' \<and> i < NBUF \<and> i \<notin> H"
proof -
  note o = bio_okD [OF assms(1)]
  have "find (\<lambda>i. b_dev (bufs s ! i) = 1 \<and> b_blockno (bufs s ! i) = b) (mru s) = None"
    using assms(3) o(3) by (auto simp: find_None_iff holds_block_def)
  moreover let ?P = "\<lambda>i. b_refcnt (bufs s ! i) = 0 \<and> \<not> b_dirty (bufs s ! i)"
  have "find ?P (rev (mru s)) \<noteq> None"
    using assms(4) o(3,6) by (auto simp: find_None_iff room_def)
  then obtain i where i: "find ?P (rev (mru s)) = Some i" by auto
  then have "i \<in> set (mru s)" "b_refcnt (bufs s ! i) = 0" and nd: "\<not> b_dirty (bufs s ! i)"
    by (auto simp: find_Some_iff in_set_conv_nth rev_nth) (metis (no_types, lifting) length_rev nth_mem set_rev in_set_conv_nth rev_nth)
  then have iN: "i < NBUF" "i \<notin> H" using o(3) o(5) [of i] by auto
  let ?s1 = "upd_buf i (\<lambda>c. c\<lparr>b_dev := 1, b_blockno := b, b_valid := False, b_dirty := False, b_refcnt := 1\<rparr>) s"
  obtain lk where lk: "lock_buf me i ?s1 = Some (i, upd_buf i (\<lambda>b. b\<lparr>b_lock := lk\<rparr>) ?s1)" "holdingsleep me lk"
    using lock_free [of ?s1 i me] o(1) o(6) [OF iN] iN(1) by auto
  let ?nb = "(bufs s ! i)\<lparr>b_dev := 1, b_blockno := b, b_valid := False, b_dirty := False, b_refcnt := 1, b_lock := lk\<rparr>"
  let ?nc = "?nb\<lparr>b_data := disk s b, b_valid := True\<rparr>"
  have "bget me 1 b s = Some (i, s\<lparr>bufs := (bufs s)[i := ?nb]\<rparr>)"
    using calculation i lk(1) o(1) iN(1) by (simp add: bget_def)
  moreover have "iderw me i (s\<lparr>bufs := (bufs s)[i := ?nb]\<rparr>) = Some (s\<lparr>bufs := (bufs s)[i := ?nc]\<rparr>)"
    using lk(2) iN(1) o(1) assms(2) by (simp add: iderw_def Let_def)
  ultimately have "bread me 1 b s = Some (i, s\<lparr>bufs := (bufs s)[i := ?nc]\<rparr>)" using o(1) iN(1) by (simp add: bread_def)
  moreover have "view s b = disk s b" using view_uncached assms(3) by blast
  then have "takes me b i s (s\<lparr>bufs := (bufs s)[i := ?nc]\<rparr>)"
    using lk(2) assms(3) nd unfolding takes_def by (intro exI [of _ ?nc]) auto
  ultimately show ?thesis using iN by blast
qed

lemma bread_ok:
  assumes "bio_ok me H s" "b < disksize s" "\<forall>i\<in>H. \<not> holds_block b i s" "room H s \<or> (\<exists>i<NBUF. holds_block b i s)"
  obtains i s' where "bread me 1 b s = Some (i, s')" "bio_ok me (insert i H) s'" "i < NBUF" "i \<notin> H" "holds_block b i s'"
    "b_data (bufs s' ! i) = view s b" "view s' = view s" "dirty_blocks s' = dirty_blocks s" "disk s' = disk s"
    "disksize s' = disksize s" "writes s' = writes s" "\<And>j. j \<noteq> i \<Longrightarrow> bufs s' ! j = bufs s ! j"
    "b_dirty (bufs s' ! i) \<longleftrightarrow> b \<in> dirty_blocks s"
proof -
  have "\<exists>i s'. bread me 1 b s = Some (i, s') \<and> takes me b i s s' \<and> i < NBUF \<and> i \<notin> H"
  proof (cases "\<exists>i<NBUF. holds_block b i s")
    case True
    then obtain i where i: "i < NBUF" "holds_block b i s" by blast
    moreover have "i \<notin> H" using assms(3) i(2) by blast
    ultimately show ?thesis using bread_hit [OF assms(1)] by blast
  next
    case False
    with bread_miss [OF assms(1,2)] assms(4) show ?thesis by blast
  qed
  then obtain i s' where r: "bread me 1 b s = Some (i, s')" "takes me b i s s'" "i < NBUF" "i \<notin> H" by blast
  note ok = takes_ok [OF r(2) assms(1) r(3,4) assms(2)] and t = takes_same [OF r(2) assms(1) r(3)]
  have d: "dirty_blocks s' = dirty_blocks s" by (rule takes_dirty [OF r(2) assms(1) r(3)])
  have "b_dirty (bufs s' ! i) \<longleftrightarrow> b \<in> dirty_blocks s'"
    unfolding dirty_blocks_def mem_Collect_eq using t(2) r(3) bio_okD(10) [OF ok _ r(3), of _ b] by blast
  with that [OF r(1) ok r(3,4) t(2,5) takes_view [OF r(2) assms(1) r(3,4) assms(2)] d t(6-8)] takes_other [OF r(2)] d
  show ?thesis by simp
qed

text \<open>Two states whose buffers differ in locks and counts only.\<close>

definition same_core :: "buf \<Rightarrow> buf \<Rightarrow> bool" where
  "same_core b c \<longleftrightarrow> b_valid b = b_valid c \<and> b_dirty b = b_dirty c \<and> b_dev b = b_dev c \<and> b_blockno b = b_blockno c \<and> b_data b = b_data c"

lemma same_core_view:
  assumes "\<And>i. i < NBUF \<Longrightarrow> same_core (bufs s' ! i) (bufs s ! i)" "disk s' = disk s"
  shows "view s' = view s" "dirty_blocks s' = dirty_blocks s" "i < NBUF \<Longrightarrow> holds_block b i s' = holds_block b i s"
proof -
  show h: "holds_block b i s' = holds_block b i s" if "i < NBUF" for i b
    using assms(1) [OF that] by (simp add: holds_block_def same_core_def)
  show "dirty_blocks s' = dirty_blocks s"
    unfolding dirty_blocks_def using h assms(1) by (metis (no_types, lifting) same_core_def)
  have f: "find (\<lambda>i. b_dev (bufs s' ! i) = 1 \<and> b_blockno (bufs s' ! i) = b \<and> b_valid (bufs s' ! i)) [0..<NBUF] =
      find (\<lambda>i. b_dev (bufs s ! i) = 1 \<and> b_blockno (bufs s ! i) = b \<and> b_valid (bufs s ! i)) [0..<NBUF]" for b
    using assms(1) by (intro find_cong) (auto simp: same_core_def)
  have d: "b_data (bufs s' ! i) = b_data (bufs s ! i)" if "find P [0..<NBUF] = Some i" for i P
    using that assms(1) [of i] by (auto simp: find_Some_iff same_core_def)
  have "view s' b = view s b" for b
    unfolding view_def f using assms(2) d by (simp split: option.split)
  then show "view s' = view s" by blast
qed

lemma brelse_ok:
  assumes "bio_ok me H s" "i \<in> H" "\<And>b. holds_block b i s \<Longrightarrow> \<not> b_dirty (bufs s ! i) \<Longrightarrow> b_data (bufs s ! i) = disk s b"
  obtains s' where "brelse me i s = Some s'" "bio_ok me (H - {i}) s'" "view s' = view s" "dirty_blocks s' = dirty_blocks s"
    "disk s' = disk s" "disksize s' = disksize s" "writes s' = writes s" "\<And>j. j < NBUF \<Longrightarrow> same_core (bufs s' ! j) (bufs s ! j)"
proof -
  note o = bio_okD [OF assms(1)]
  have i: "i < NBUF" using o(4) assms(2) by auto
  define nb where "nb = (bufs s ! i)\<lparr>b_lock := releasesleep (b_lock (bufs s ! i)), b_refcnt := 0\<rparr>"
  define s' where "s' = s\<lparr>bufs := (bufs s)[i := nb], mru := i # remove1 i (mru s)\<rparr>"
  have r: "brelse me i s = Some s'" using o(5) [OF i assms(2)] o(1) i by (simp add: brelse_def Let_def s'_def nb_def)
  have at: "bufs s' ! i = nb" and oth: "j \<noteq> i \<Longrightarrow> bufs s' ! j = bufs s ! j" and same: "disk s' = disk s" "disksize s' = disksize s"
    "writes s' = writes s" "length (bufs s') = NBUF" and lru: "mru s' = i # remove1 i (mru s)" for j
    using o(1) i by (simp_all add: s'_def)
  have core: "same_core (bufs s' ! j) (bufs s ! j)" for j
    using at oth [of j] by (cases "j = i") (auto simp: same_core_def nb_def)
  note v = same_core_view [of s' s, OF core same(1)]
  have "bio_ok me (H - {i}) s'"
  proof (rule bio_okI)
    show "set (mru s') = {..<NBUF}" "distinct (mru s')" using o(2,3) i lru by auto
    fix j
    show "holdingsleep me (b_lock (bufs s' ! j)) \<and> b_refcnt (bufs s' ! j) = 1 \<and> b_valid (bufs s' ! j) \<and> b_dev (bufs s' ! j) = 1"
      if "j < NBUF" "j \<in> H - {i}" using o(5) [of j] oth [of j] that by auto
    show "\<not> sl_locked (b_lock (bufs s' ! j)) \<and> b_refcnt (bufs s' ! j) = 0" if "j < NBUF" "j \<notin> H - {i}"
      using o(6) [of j] at oth [of j] that by (cases "j = i") (auto simp: releasesleep_def nb_def)
    show "b_valid (bufs s' ! j) \<and> b_dev (bufs s' ! j) = 1" if "j < NBUF" "b_dirty (bufs s' ! j)"
      using core [of j] o(7) [OF that(1)] that(2) by (simp add: same_core_def)
    show "b < disksize s'" if "j < NBUF" "holds_block b j s'" for b using v(3) [OF that(1)] o(8) [OF that(1)] that(2) same by simp
    show "b_data (bufs s' ! j) = disk s' b" if "j < NBUF" "b_valid (bufs s' ! j)" "\<not> b_dirty (bufs s' ! j)" "j \<notin> H - {i}"
      "holds_block b j s'" for b
      using core [of j] that v(3) [OF that(1), of b] o(9) [OF that(1), of b] assms(3) [of b] same(1)
      by (cases "j = i") (auto simp: same_core_def)
    show "j = l" if "j < NBUF" "l < NBUF" "holds_block b j s'" "holds_block b l s'" for l b
      using o(10) [OF that(1,2), of b] v(3) that by simp
  qed (use o same in auto)
  with that [OF r] v same core show ?thesis by blast
qed

text \<open>The owner of a buffer changes its bytes, marks it, or writes it to the disk.\<close>

lemma owner_ok:
  assumes "bio_ok me H s" "i \<in> H" "holds_block b i s"
    and s': "bufs s' = (bufs s)[i := nb]" "mru s' = mru s" "disksize s' = disksize s" "\<And>c. c \<noteq> b \<Longrightarrow> disk s' c = disk s c"
    and nb: "nb = (bufs s ! i)\<lparr>b_data := d, b_dirty := f, b_valid := True\<rparr>"
  shows "bio_ok me H s'" "view s' = (view s)(b := d)" "dirty_blocks s' = (if f then insert b (dirty_blocks s) else dirty_blocks s - {b})"
    "holds_block b i s'"
proof -
  note o = bio_okD [OF assms(1)]
  have i: "i < NBUF" using o(4) assms(2) by auto
  have at: "bufs s' ! i = nb" and oth: "j \<noteq> i \<Longrightarrow> bufs s' ! j = bufs s ! j" for j using o(1) i s'(1) by auto
  have hb: "holds_block c j s' = holds_block c j s" for c j using at oth [of j] nb by (cases "j = i") (auto simp: holds_block_def)
  show "holds_block b i s'" using hb assms(3) by simp
  have uniq: "c \<noteq> b" if "holds_block c j s" "j < NBUF" "j \<noteq> i" for c j using that o(10) [OF that(2) i] assms(3) by blast
  have uniqi: "c = b" if "holds_block c i s" for c using that assms(3) by (simp add: holds_block_def)
  show ok: "bio_ok me H s'"
  proof (rule bio_okI)
    fix j
    show "holdingsleep me (b_lock (bufs s' ! j)) \<and> b_refcnt (bufs s' ! j) = 1 \<and> b_valid (bufs s' ! j) \<and> b_dev (bufs s' ! j) = 1"
      if "j < NBUF" "j \<in> H" using o(5) [OF that] at oth [of j] nb by (cases "j = i") auto
    show "\<not> sl_locked (b_lock (bufs s' ! j)) \<and> b_refcnt (bufs s' ! j) = 0" if "j < NBUF" "j \<notin> H"
      using o(6) [OF that] oth [of j] assms(2) that by (cases "j = i") auto
    show "b_valid (bufs s' ! j) \<and> b_dev (bufs s' ! j) = 1" if "j < NBUF" "b_dirty (bufs s' ! j)"
      using o(5) [OF i assms(2)] o(7) [OF that(1)] at oth [of j] nb that by (cases "j = i") auto
    show "b_data (bufs s' ! j) = disk s' c" if "j < NBUF" "b_valid (bufs s' ! j)" "\<not> b_dirty (bufs s' ! j)" "j \<notin> H" "holds_block c j s'" for c
      using o(9) [OF that(1), of c] oth [of j] that assms(2) hb uniq [of c j] s'(4) by (cases "j = i") auto
  qed (use o s' hb in auto)
  show "view s' = (view s)(b := d)"
  proof
    fix c
    show "view s' c = ((view s)(b := d)) c"
    proof (cases "\<exists>j<NBUF. holds_block c j s' \<and> b_valid (bufs s' ! j)")
      case True
      then obtain j where j: "j < NBUF" "holds_block c j s'" "b_valid (bufs s' ! j)" by blast
      show ?thesis
      proof (cases "j = i")
        case True
        with j uniqi [of c] hb view_cached [OF ok j] at nb show ?thesis by auto
      next
        case False
        with j uniq [of c j] hb view_cached [OF ok j] view_cached [OF assms(1) j(1), of c] oth show ?thesis by auto
      qed
    next
      case False
      then have cb: "c \<noteq> b" using i at nb hb assms(3) by auto
      have "view s' c = disk s' c" using view_uncached [of c s'] False by blast
      moreover have "\<not> b_valid (bufs s ! j)" if "j < NBUF" "holds_block c j s" for j
        using False that hb oth [of j] uniqi [of c] cb by (cases "j = i") auto
      then have "view s c = disk s c" using view_uncached [of c s] by blast
      ultimately show ?thesis using s'(4) cb by simp
    qed
  qed
  have dj: "holds_block c j s' \<and> b_dirty (bufs s' ! j) \<longleftrightarrow> (if j = i then c = b \<and> f else holds_block c j s \<and> b_dirty (bufs s ! j))" for c j
    using hb [of c j] at oth [of j] nb assms(3) uniqi [of c] by (cases "j = i") auto
  show "dirty_blocks s' = (if f then insert b (dirty_blocks s) else dirty_blocks s - {b})"
  proof (rule set_eqI)
    fix c
    have "c \<in> dirty_blocks s' \<longleftrightarrow> c = b \<and> f \<or> (\<exists>j<NBUF. j \<noteq> i \<and> holds_block c j s \<and> b_dirty (bufs s ! j))"
      unfolding dirty_blocks_def mem_Collect_eq dj using i by auto
    moreover have "(\<exists>j<NBUF. j \<noteq> i \<and> holds_block c j s \<and> b_dirty (bufs s ! j)) \<longleftrightarrow> c \<in> dirty_blocks s \<and> c \<noteq> b"
      unfolding dirty_blocks_def mem_Collect_eq using uniq uniqi by metis
    ultimately show "c \<in> dirty_blocks s' \<longleftrightarrow> c \<in> (if f then insert b (dirty_blocks s) else dirty_blocks s - {b})" by auto
  qed
qed

lemma bwrite_ok:
  assumes "bio_ok me H s" "i \<in> H" "holds_block b i s"
  obtains s' where "bwrite me i s = Some s'" "bio_ok me H s'" "view s' = view s" "dirty_blocks s' = dirty_blocks s - {b}"
    "disk s' = (disk s)(b := b_data (bufs s ! i))" "disksize s' = disksize s" "writes s' = writes s @ [(b, b_data (bufs s ! i))]"
    "holds_block b i s'" "bufs s' = (bufs s)[i := (bufs s ! i)\<lparr>b_dirty := False\<rparr>]"
proof -
  note o = bio_okD [OF assms(1)]
  have i: "i < NBUF" using o(4) assms(2) by auto
  note h = o(5) [OF i assms(2)]
  define nb where "nb = (bufs s ! i)\<lparr>b_data := b_data (bufs s ! i), b_dirty := False, b_valid := True\<rparr>"
  define s' where "s' = s\<lparr>bufs := (bufs s)[i := nb], disk := (disk s)(b := b_data (bufs s ! i)), writes := writes s @ [(b, b_data (bufs s ! i))]\<rparr>"
  have "bwrite me i s = Some s'"
    using h o(1) i assms(3) o(8) [OF i assms(3)] by (simp add: bwrite_def iderw_def Let_def holds_block_def s'_def nb_def)
  moreover have "nb = (bufs s ! i)\<lparr>b_dirty := False\<rparr>" using h by (simp add: nb_def)
  moreover have f: "bufs s' = (bufs s)[i := nb]" "disk s' = (disk s)(b := b_data (bufs s ! i))" "disksize s' = disksize s"
    "writes s' = writes s @ [(b, b_data (bufs s ! i))]" "mru s' = mru s" by (simp_all add: s'_def)
  moreover have "disk s' c = disk s c" if "c \<noteq> b" for c using f(2) that by simp
  note w = owner_ok [OF assms(1,2,3) f(1,5,3) this nb_def]
  moreover have "(view s)(b := b_data (bufs s ! i)) = view s" using view_cached [OF assms(1) i assms(3)] h by auto
  ultimately show ?thesis using that [of s'] by simp
qed

lemma set_data_ok:
  assumes "bio_ok me H s" "i \<in> H" "holds_block b i s"
  shows "bio_ok me H (set_data i d s)" "view (set_data i d s) = (view s)(b := d)" "dirty_blocks (set_data i d s) = dirty_blocks s"
    "holds_block b i (set_data i d s)"
proof -
  note o = bio_okD [OF assms(1)]
  have i: "i < NBUF" using o(4) assms(2) by auto
  let ?f = "b_dirty (bufs s ! i)"
  have e: "(bufs s ! i)\<lparr>b_data := d\<rparr> = (bufs s ! i)\<lparr>b_data := d, b_dirty := ?f, b_valid := True\<rparr>" using o(5) [OF i assms(2)] by simp
  note r = owner_ok [OF assms, where s' = "set_data i d s", OF _ _ _ _ e]
  have "?f \<longleftrightarrow> b \<in> dirty_blocks s" using assms(3) i o(10) [OF _ i, of _ b] unfolding dirty_blocks_def mem_Collect_eq by blast
  with r show "bio_ok me H (set_data i d s)" "view (set_data i d s) = (view s)(b := d)" "dirty_blocks (set_data i d s) = dirty_blocks s"
    "holds_block b i (set_data i d s)" by (auto simp: set_data_def)
qed

lemma room_count:
  assumes "bio_ok me H s" "card H + card (dirty_blocks s) < NBUF"
  shows "room H s"
proof (rule ccontr)
  assume "\<not> room H s"
  then have sub: "{..<NBUF} \<subseteq> H \<union> {i. i < NBUF \<and> b_dirty (bufs s ! i)}" (is "_ \<subseteq> H \<union> ?D") by (auto simp: room_def)
  have fin: "finite H" using bio_okD(4) [OF assms(1)] finite_subset by blast
  then have fin': "finite (H \<union> ?D)" by simp
  have hb: "holds_block (b_blockno (bufs s ! i)) i s" if "i \<in> ?D" for i
    using that bio_okD(7) [OF assms(1), of i] by (simp add: holds_block_def)
  have inj: "inj_on (\<lambda>i. b_blockno (bufs s ! i)) ?D"
  proof (rule inj_onI)
    fix i j assume "i \<in> ?D" "j \<in> ?D" "b_blockno (bufs s ! i) = b_blockno (bufs s ! j)"
    with hb [of i] hb [of j] show "i = j" by (intro bio_okD(10) [OF assms(1)]) auto
  qed
  have "(\<lambda>i. b_blockno (bufs s ! i)) ` ?D = dirty_blocks s"
    using hb by (auto simp: dirty_blocks_def holds_block_def)
  with card_image [OF inj] have "card ?D = card (dirty_blocks s)" by simp
  moreover have "card {..<NBUF} \<le> card H + card ?D"
    using card_mono [OF fin' sub] card_Un_le [of H ?D] by (rule le_trans)
  ultimately show False using assms(2) by simp
qed

lemma dirty_cached: "b \<in> dirty_blocks s \<Longrightarrow> \<exists>i<NBUF. holds_block b i s"
  by (auto simp: dirty_blocks_def)

end
