(* ===== verification/Xv6_Log.thy ===== *)
theory Xv6_Log
  imports Xv6_Bio Byte_Store
begin

text \<open>
  The redo log, \<^verbatim>\<open>hw3/xv6/log.c\<close>, on the buffer cache, and \<^verbatim>\<open>readsb\<close> of \<^verbatim>\<open>fs.c\<close> that
  \<^verbatim>\<open>initlog\<close> needs. The in-memory header is the list of its block numbers. \<open>None\<close> is a panic, a wait
  that nobody ends, or an access outside of the header's array. The main theorem is about a crash: the
  disk is what some prefix of the writes of \<open>commit\<close> has left, and recovery finds all of the
  transaction or nothing of it.
\<close>

definition LOGSIZE :: nat where "LOGSIZE = MAXOPBLOCKS * 3"

record log =
  lg_start :: nat
  lg_size :: nat
  lg_outstanding :: int
  lg_committing :: bool
  lg_dev :: nat
  lg_lh :: "nat list"

record superblock =
  sb_size :: nat
  sb_nblocks :: nat
  sb_ninodes :: nat
  sb_nlog :: nat
  sb_logstart :: nat
  sb_inodestart :: nat
  sb_bmapstart :: nat

section \<open>The operations\<close>

definition field32 :: "nat \<Rightarrow> bytes \<Rightarrow> nat" where
  "field32 k d = unat (de32 (dread (4 * k) 4 d))"

definition readsb :: "int \<Rightarrow> nat \<Rightarrow> bio \<Rightarrow> (superblock \<times> bio) option" where
  "readsb me dev s =
     do {
       (i, s) \<leftarrow> bread me dev 1 s;
       let d = b_data (bufs s ! i);
       s \<leftarrow> brelse me i s;
       Some (\<lparr>sb_size = field32 0 d, sb_nblocks = field32 1 d, sb_ninodes = field32 2 d, sb_nlog = field32 3 d,
         sb_logstart = field32 4 d, sb_inodestart = field32 5 d, sb_bmapstart = field32 6 d\<rparr>, s)
     }"

fun install_trans_loop :: "int \<Rightarrow> log \<Rightarrow> nat \<Rightarrow> nat list \<Rightarrow> bio \<Rightarrow> bio option" where
  "install_trans_loop me l tail [] s = Some s"
| "install_trans_loop me l tail (b # bs) s =
     do {
       (lbuf, s) \<leftarrow> bread me (lg_dev l) (lg_start l + tail + 1) s;
       (dbuf, s) \<leftarrow> bread me (lg_dev l) b s;
       s \<leftarrow> bwrite me dbuf (set_data dbuf (b_data (bufs s ! lbuf)) s);
       s \<leftarrow> brelse me lbuf s;
       s \<leftarrow> brelse me dbuf s;
       install_trans_loop me l (tail + 1) bs s
     }"

definition install_trans :: "int \<Rightarrow> log \<Rightarrow> bio \<Rightarrow> bio option" where
  "install_trans me l s = install_trans_loop me l 0 (lg_lh l) s"

text \<open>The bytes of a header block: the count and the block numbers, the rest unchanged.\<close>

definition head_bytes :: "nat list \<Rightarrow> bytes \<Rightarrow> bytes" where
  "head_bytes bs d = dwrite 0 (concat (map (\<lambda>n. le32 (word_of_nat n)) (length bs # bs))) d"

definition head_n :: "bytes \<Rightarrow> int" where
  "head_n d = sint (de32 (dread 0 4 d))"

definition head_blocks :: "bytes \<Rightarrow> nat list" where
  "head_blocks d = map (\<lambda>i. field32 (i + 1) d) [0..<nat (head_n d)]"

definition read_head :: "int \<Rightarrow> log \<Rightarrow> bio \<Rightarrow> (log \<times> bio) option" where
  "read_head me l s =
     do {
       (i, s) \<leftarrow> bread me (lg_dev l) (lg_start l) s;
       let d = b_data (bufs s ! i);
       if head_n d > int LOGSIZE then None
       else do { s \<leftarrow> brelse me i s; Some (l\<lparr>lg_lh := head_blocks d\<rparr>, s) }
     }"

definition write_head :: "int \<Rightarrow> log \<Rightarrow> bio \<Rightarrow> bio option" where
  "write_head me l s =
     do {
       (i, s) \<leftarrow> bread me (lg_dev l) (lg_start l) s;
       s \<leftarrow> bwrite me i (set_data i (head_bytes (lg_lh l) (b_data (bufs s ! i))) s);
       brelse me i s
     }"

definition recover_from_log :: "int \<Rightarrow> log \<Rightarrow> bio \<Rightarrow> (log \<times> bio) option" where
  "recover_from_log me l s =
     do {
       (l, s) \<leftarrow> read_head me l s;
       s \<leftarrow> install_trans me l s;
       let l = l\<lparr>lg_lh := []\<rparr>;
       s \<leftarrow> write_head me l s;
       Some (l, s)
     }"

definition initlog :: "int \<Rightarrow> nat \<Rightarrow> log \<Rightarrow> bio \<Rightarrow> (log \<times> bio) option" where
  "initlog me dev l s =
     do {
       (sb, s) \<leftarrow> readsb me dev s;
       recover_from_log me (l\<lparr>lg_start := sb_logstart sb, lg_size := sb_nlog sb, lg_dev := dev\<rparr>) s
     }"

definition begin_op :: "log \<Rightarrow> log option" where
  "begin_op l =
     (if lg_committing l then None
      else if int (length (lg_lh l)) + (lg_outstanding l + 1) * int MAXOPBLOCKS > int LOGSIZE then None
      else Some (l\<lparr>lg_outstanding := lg_outstanding l + 1\<rparr>))"

fun write_log_loop :: "int \<Rightarrow> log \<Rightarrow> nat \<Rightarrow> nat list \<Rightarrow> bio \<Rightarrow> bio option" where
  "write_log_loop me l tail [] s = Some s"
| "write_log_loop me l tail (b # bs) s =
     do {
       (to, s) \<leftarrow> bread me (lg_dev l) (lg_start l + tail + 1) s;
       (from', s) \<leftarrow> bread me (lg_dev l) b s;
       s \<leftarrow> bwrite me to (set_data to (b_data (bufs s ! from')) s);
       s \<leftarrow> brelse me from' s;
       s \<leftarrow> brelse me to s;
       write_log_loop me l (tail + 1) bs s
     }"

definition write_log :: "int \<Rightarrow> log \<Rightarrow> bio \<Rightarrow> bio option" where
  "write_log me l s = write_log_loop me l 0 (lg_lh l) s"

definition commit :: "int \<Rightarrow> log \<Rightarrow> bio \<Rightarrow> (log \<times> bio) option" where
  "commit me l s =
     (if lg_lh l \<noteq> [] then
        do {
          s \<leftarrow> write_log me l s;
          s \<leftarrow> write_head me l s;
          s \<leftarrow> install_trans me l s;
          let l = l\<lparr>lg_lh := []\<rparr>;
          s \<leftarrow> write_head me l s;
          Some (l, s)
        }
      else Some (l, s))"

definition end_op :: "int \<Rightarrow> log \<Rightarrow> bio \<Rightarrow> (log \<times> bio) option" where
  "end_op me l s =
     (let l = l\<lparr>lg_outstanding := lg_outstanding l - 1\<rparr> in
      if lg_committing l then None
      else if lg_outstanding l = 0 then
        do { (l, s) \<leftarrow> commit me (l\<lparr>lg_committing := True\<rparr>) s; Some (l\<lparr>lg_committing := False\<rparr>, s) }
      else Some (l, s))"

definition log_write :: "nat \<Rightarrow> log \<Rightarrow> bio \<Rightarrow> (log \<times> bio) option" where
  "log_write i l s =
     (if length (lg_lh l) \<ge> LOGSIZE \<or> int (length (lg_lh l)) \<ge> int (lg_size l) - 1 then None
      else if lg_outstanding l < 1 then None
      else
        let b = b_blockno (bufs s ! i)
        in Some (if b \<in> set (lg_lh l) then l else l\<lparr>lg_lh := lg_lh l @ [b]\<rparr>, upd_buf i (\<lambda>b. b\<lparr>b_dirty := True\<rparr>) s))"

section \<open>The header block\<close>

lemma field32_concat:
  assumes "k < length ns" "\<forall>n\<in>set ns. n < 0x100000000"
  shows "field32 k (dwrite 0 (concat (map (\<lambda>n. le32 (word_of_nat n)) ns)) d) = ns ! k"
proof -
  have len: "length (concat (map (\<lambda>n. le32 (word_of_nat n)) xs)) = 4 * length xs" for xs :: "nat list"
    by (induction xs) auto
  obtain xs ys where ns: "ns = xs @ ns ! k # ys" "length xs = k" using assms(1) by (metis id_take_nth_drop length_take min.absorb4)
  then have "concat (map (\<lambda>n. le32 (word_of_nat n)) ns) =
      concat (map (\<lambda>n. le32 (word_of_nat n)) xs) @ le32 (word_of_nat (ns ! k)) @ concat (map (\<lambda>n. le32 (word_of_nat n)) ys)"
    by (metis concat_append list.simps(9) concat.simps(2) map_append)
  then have "dread (4 * k) 4 (dwrite 0 (concat (map (\<lambda>n. le32 (word_of_nat n)) ns)) d) = le32 (word_of_nat (ns ! k))"
    using ns(2) len [of xs] by (simp add: dread_def dwrite_def)
  moreover have "ns ! k < 0x100000000" using assms by simp
  ultimately show ?thesis by (simp add: field32_def unat_u32)
qed

lemma head_roundtrip:
  assumes "length bs \<le> LOGSIZE" "\<forall>b\<in>set bs. b < 0x100000000"
  shows "head_n (head_bytes bs d) = int (length bs)" "head_blocks (head_bytes bs d) = bs"
proof -
  have L: "length bs < 0x100000000" "length bs < 2147483648" using assms(1) by (simp_all add: LOGSIZE_def MAXOPBLOCKS_def)
  have f: "field32 k (head_bytes bs d) = (length bs # bs) ! k" if "k \<le> length bs" for k
    unfolding head_bytes_def using that assms(2) L by (intro field32_concat) auto
  have "unat (de32 (dread 0 4 (head_bytes bs d))) = length bs" using f [of 0] by (simp add: field32_def)
  then show n: "head_n (head_bytes bs d) = int (length bs)" unfolding head_n_def using L(2) by (simp add: sint_small)
  show "head_blocks (head_bytes bs d) = bs"
    unfolding head_blocks_def n by (rule nth_equalityI) (use f in auto)
qed

section \<open>Copying a block\<close>

lemma view_clean:
  assumes "bio_ok me H s" "b \<notin> dirty_blocks s" "\<And>i. i \<in> H \<Longrightarrow> \<not> holds_block b i s"
  shows "view s b = disk s b"
proof (cases "\<exists>i<NBUF. holds_block b i s \<and> b_valid (bufs s ! i)")
  case True
  then obtain i where i: "i < NBUF" "holds_block b i s" "b_valid (bufs s ! i)" by blast
  then have "\<not> b_dirty (bufs s ! i)" "i \<notin> H" using assms(2,3) by (auto simp: dirty_blocks_def)
  with bio_okD(9) [OF assms(1) i(1,3)] i view_cached [OF assms(1) i] show ?thesis by simp
next
  case False
  then show ?thesis by (intro view_uncached) blast
qed

lemma bread_first:
  assumes "bio_ok me {} s" "b < disksize s" "card (dirty_blocks s) < NBUF"
  obtains i s' where "bread me 1 b s = Some (i, s')" "bio_ok me {i} s'" "i < NBUF" "holds_block b i s'"
    "b_data (bufs s' ! i) = view s b" "view s' = view s" "dirty_blocks s' = dirty_blocks s" "disk s' = disk s"
    "disksize s' = disksize s" "writes s' = writes s" "b_dirty (bufs s' ! i) \<longleftrightarrow> b \<in> dirty_blocks s"
proof -
  have "room {} s" by (rule room_count [OF assms(1)]) (use assms(3) in simp)
  then show ?thesis using that by (rule_tac bread_ok [OF assms(1,2), of thesis]) auto
qed

lemma read_two:
  assumes "bio_ok me {} s" "x < disksize s" "y < disksize s" "x \<noteq> y" "card (dirty_blocks s) < NBUF"
    "y \<in> dirty_blocks s \<or> card (dirty_blocks s) + 1 < NBUF"
  obtains i s1 j s' where "bread me 1 x s = Some (i, s1)" "bread me 1 y s1 = Some (j, s')" "bio_ok me {i, j} s'" "i \<noteq> j"
    "holds_block x i s'" "holds_block y j s'" "view s' = view s" "dirty_blocks s' = dirty_blocks s" "disk s' = disk s"
    "disksize s' = disksize s" "writes s' = writes s" "b_dirty (bufs s' ! i) \<longleftrightarrow> x \<in> dirty_blocks s"
    "b_dirty (bufs s' ! j) \<longleftrightarrow> y \<in> dirty_blocks s" "b_data (bufs s' ! i) = view s x" "b_data (bufs s' ! j) = view s y"
proof (rule bread_first [OF assms(1,2,5)])
  fix i s1
  assume 1: "bread me 1 x s = Some (i, s1)" "bio_ok me {i} s1" "i < NBUF" "holds_block x i s1"
    "b_data (bufs s1 ! i) = view s x" "view s1 = view s" "dirty_blocks s1 = dirty_blocks s" "disk s1 = disk s"
    "disksize s1 = disksize s" "writes s1 = writes s" "b_dirty (bufs s1 ! i) \<longleftrightarrow> x \<in> dirty_blocks s"
  have y: "\<forall>k\<in>{i}. \<not> holds_block y k s1" using 1(4) assms(4) by (simp add: holds_block_def)
  have "room {i} s1 \<or> (\<exists>k<NBUF. holds_block y k s1)"
    using assms(6) room_count [OF 1(2)] dirty_cached [of y s1] 1(7) by auto
  from bread_ok [OF 1(2) assms(3) [folded 1(9)] y this] obtain j s' where
    2: "bread me 1 y s1 = Some (j, s')" "bio_ok me (insert j {i}) s'" "j < NBUF" "j \<notin> {i}" "holds_block y j s'"
    "b_data (bufs s' ! j) = view s1 y" "view s' = view s1" "dirty_blocks s' = dirty_blocks s1" "disk s' = disk s1"
    "disksize s' = disksize s1" "writes s' = writes s1" "\<And>k. k \<noteq> j \<Longrightarrow> bufs s' ! k = bufs s1 ! k"
    "b_dirty (bufs s' ! j) \<longleftrightarrow> y \<in> dirty_blocks s1" by metis
  have i: "bufs s' ! i = bufs s1 ! i" using 2(4,12) by auto
  then have "holds_block x i s'" using 1(4) by (simp add: holds_block_def)
  with 1 2 i show thesis using that [OF 1(1) 2(1)] by (simp add: insert_commute)
qed

lemma finish_copy:
  assumes "bio_ok me {i, j} s" "i \<noteq> j" "holds_block a i s" "holds_block b j s"
    "a \<notin> dirty_blocks s \<Longrightarrow> view s a = disk s a"
  obtains s1 s2 s' where "bwrite me j (set_data j (b_data (bufs s ! i)) s) = Some s1" "brelse me i s1 = Some s2" "brelse me j s2 = Some s'"
    "bio_ok me {} s'" "view s' = (view s)(b := view s a)" "dirty_blocks s' = dirty_blocks s - {b}"
    "disk s' = (disk s)(b := view s a)" "disksize s' = disksize s" "writes s' = writes s @ [(b, view s a)]"
proof -
  have ij: "i < NBUF" "j < NBUF" using bio_okD(4) [OF assms(1)] by auto
  note L = bio_okD(1) [OF assms(1)]
  have va: "b_data (bufs s ! i) = view s a"
    using view_cached [OF assms(1) ij(1) assms(3)] bio_okD(5) [OF assms(1) ij(1)] by simp
  have ab: "a \<noteq> b" using bio_okD(10) [OF assms(1) ij assms(3)] assms(2,4) by blast
  define s0 where "s0 = set_data j (b_data (bufs s ! i)) s"
  note z = set_data_ok [OF assms(1) _ assms(4), of "b_data (bufs s ! i)", folded s0_def, simplified]
  have s0: "disk s0 = disk s" "disksize s0 = disksize s" "writes s0 = writes s" "bufs s0 ! i = bufs s ! i"
    "b_data (bufs s0 ! j) = view s a" "length (bufs s0) = NBUF"
    using assms(2) ij L va by (simp_all add: s0_def set_data_def)
  obtain s1 where w: "bwrite me j s0 = Some s1" "bio_ok me {i, j} s1" "view s1 = view s0" "dirty_blocks s1 = dirty_blocks s0 - {b}"
    "disk s1 = (disk s0)(b := b_data (bufs s0 ! j))" "disksize s1 = disksize s0" "writes s1 = writes s0 @ [(b, b_data (bufs s0 ! j))]"
    "holds_block b j s1" "bufs s1 = (bufs s0)[j := (bufs s0 ! j)\<lparr>b_dirty := False\<rparr>]"
    using bwrite_ok [OF z(1) _ z(4)] by (metis insertCI)
  have s1: "bufs s1 ! i = bufs s ! i" "b_data (bufs s1 ! j) = view s a" "\<not> b_dirty (bufs s1 ! j)"
    using w(9) s0 assms(2) ij by simp_all
  have "b_data (bufs s1 ! i) = disk s1 c" if "holds_block c i s1" "\<not> b_dirty (bufs s1 ! i)" for c
  proof -
    have ca: "c = a" using that(1) assms(3) s1(1) by (simp add: holds_block_def)
    have "a \<notin> dirty_blocks s"
    proof
      assume "a \<in> dirty_blocks s"
      then obtain k where "k < NBUF" "holds_block a k s" "b_dirty (bufs s ! k)" by (auto simp: dirty_blocks_def)
      with bio_okD(10) [OF assms(1) _ ij(1) _ assms(3), of k] that(2) s1(1) show False by simp
    qed
    with assms(5) ca ab w(5) s0(1) s1(1) va show ?thesis by simp
  qed
  from brelse_ok [OF w(2) _ this] obtain s2 where r: "brelse me i s1 = Some s2" "bio_ok me ({i, j} - {i}) s2" "view s2 = view s1"
    "dirty_blocks s2 = dirty_blocks s1" "disk s2 = disk s1" "disksize s2 = disksize s1" "writes s2 = writes s1"
    "\<And>k. k < NBUF \<Longrightarrow> same_core (bufs s2 ! k) (bufs s1 ! k)" by (metis insertCI)
  have j2: "{i, j} - {i} = {j}" using assms(2) by auto
  have "b_data (bufs s2 ! j) = disk s2 c" if "holds_block c j s2" for c
    using r(8) [OF ij(2)] that w(8) s1(2) w(5) s0(5) r(5) by (auto simp: holds_block_def same_core_def)
  from brelse_ok [OF r(2) [unfolded j2] _ this] obtain s' where q: "brelse me j s2 = Some s'" "bio_ok me ({j} - {j}) s'"
    "view s' = view s2" "dirty_blocks s' = dirty_blocks s2" "disk s' = disk s2" "disksize s' = disksize s2" "writes s' = writes s2"
    by (metis insertI1)
  show ?thesis using that [of s1 s2 s'] w(1) [unfolded s0_def] r q w z s0 va by (simp add: s0_def [symmetric])
qed

section \<open>The loops over the blocks of a transaction\<close>

text \<open>A list of writes applied to a disk.\<close>

definition apply_writes :: "(nat \<times> bytes) list \<Rightarrow> (nat \<Rightarrow> bytes) \<Rightarrow> nat \<Rightarrow> bytes" where
  "apply_writes ws d = fold (\<lambda>(b, v) d. d(b := v)) ws d"

lemma apply_writes_simps [simp]:
  "apply_writes [] d = d" "apply_writes ((b, v) # ws) d = apply_writes ws (d(b := v))"
  "apply_writes (us @ ws) d = apply_writes ws (apply_writes us d)"
  by (simp_all add: apply_writes_def)

lemma apply_writes_other: "b \<notin> fst ` set ws \<Longrightarrow> apply_writes ws d b = d b"
  by (induction ws arbitrary: d) (auto simp: apply_writes_def)

lemma apply_writes_at:
  assumes "distinct bs" "i < length bs" "length vs = length bs"
  shows "apply_writes (zip bs vs) d (bs ! i) = vs ! i"
  using assms
proof (induction bs arbitrary: i vs d)
  case (Cons b bs)
  then obtain v us where vs: "vs = v # us" by (cases vs) auto
  show ?case
  proof (cases i)
    case 0
    have "b \<notin> fst ` set (zip bs us)" using Cons.prems(1) by (auto dest: set_zip_leftD)
    then show ?thesis using 0 vs by (simp add: apply_writes_other)
  next
    case (Suc k)
    then show ?thesis using Cons vs by simp
  qed
qed simp

text \<open>The blocks of the log are apart from the blocks of the transaction, and both are on the disk.\<close>

definition log_apart :: "nat \<Rightarrow> nat \<Rightarrow> nat list \<Rightarrow> bio \<Rightarrow> bool" where
  "log_apart st tail bs s \<longleftrightarrow> distinct bs \<and> (\<forall>b\<in>set bs. b < disksize s \<and> (b < st \<or> st + tail + length bs < b)) \<and>
     st + tail + length bs < disksize s \<and> (\<forall>k. st \<le> k \<and> k \<le> st + tail + length bs \<longrightarrow> k \<notin> dirty_blocks s)"

definition fits :: "nat list \<Rightarrow> bio \<Rightarrow> bool" where
  "fits bs s \<longleftrightarrow> card (dirty_blocks s) < NBUF \<and> (set bs \<subseteq> dirty_blocks s \<or> card (dirty_blocks s) + 1 < NBUF)"

definition log_views :: "nat \<Rightarrow> nat \<Rightarrow> nat list \<Rightarrow> bio \<Rightarrow> bytes list" where
  "log_views st tail bs s = map (\<lambda>i. view s (st + tail + 1 + i)) [0..<length bs]"

lemma finite_dirty: "finite (dirty_blocks s)"
proof -
  have "dirty_blocks s \<subseteq> (\<lambda>i. b_blockno (bufs s ! i)) ` {..<NBUF}" by (auto simp: dirty_blocks_def holds_block_def)
  then show ?thesis using finite_subset by blast
qed

lemma log_apart_Cons:
  assumes "log_apart st tail (b # bs) s" "disksize s' = disksize s" "dirty_blocks s' \<subseteq> dirty_blocks s"
  shows "log_apart st (tail + 1) bs s'"
  using assms by (auto simp: log_apart_def)

lemma log_views_Cons:
  assumes "\<And>k. k < length bs \<Longrightarrow> view s' (st + tail + 2 + k) = view s (st + tail + 2 + k)"
  shows "log_views st tail (b # bs) s = view s (st + tail + 1) # log_views st (tail + 1) bs s'"
proof -
  have "log_views st (tail + 1) bs s' = map (\<lambda>i. view s (st + tail + 1 + Suc i)) [0..<length bs]"
    unfolding log_views_def by (rule map_cong) (use assms in auto)
  then show ?thesis by (simp add: log_views_def upt_conv_Cons map_Suc_upt [symmetric] del: upt_Suc map_Suc_upt)
qed

lemma install_trans_loop_ok:
  assumes "bio_ok me {} s" "lg_dev l = 1" "log_apart (lg_start l) tail bs s" "fits bs s"
  obtains s' where "install_trans_loop me l tail bs s = Some s'" "bio_ok me {} s'" "disksize s' = disksize s"
    "dirty_blocks s' = dirty_blocks s - set bs" "disk s' = apply_writes (zip bs (log_views (lg_start l) tail bs s)) (disk s)"
    "view s' = apply_writes (zip bs (log_views (lg_start l) tail bs s)) (view s)"
    "writes s' = writes s @ zip bs (log_views (lg_start l) tail bs s)"
  using assms
proof (induction bs arbitrary: s tail thesis)
  case Nil
  show ?case by (rule Nil.prems(1) [of s]) (simp_all add: log_views_def Nil.prems(2))
next
  case (Cons b bs)
  note ap = Cons.prems(4) and ft = Cons.prems(5)
  let ?x = "lg_start l + tail + 1"
  have x: "?x < disksize s" "?x \<notin> dirty_blocks s" and b: "b < disksize s" "b \<noteq> ?x" "b \<notin> set bs"
    using ap by (auto simp: log_apart_def)
  have ft1: "card (dirty_blocks s) < NBUF" and ft2: "b \<in> dirty_blocks s \<or> card (dirty_blocks s) + 1 < NBUF"
    using ft by (auto simp: fits_def)
  obtain i s1 j s2 where r: "bread me 1 ?x s = Some (i, s1)" "bread me 1 b s1 = Some (j, s2)" "bio_ok me {i, j} s2" "i \<noteq> j"
    "holds_block ?x i s2" "holds_block b j s2" "view s2 = view s" "dirty_blocks s2 = dirty_blocks s" "disk s2 = disk s"
    "disksize s2 = disksize s" "writes s2 = writes s" "b_dirty (bufs s2 ! i) \<longleftrightarrow> ?x \<in> dirty_blocks s"
    "b_dirty (bufs s2 ! j) \<longleftrightarrow> b \<in> dirty_blocks s" "b_data (bufs s2 ! i) = view s ?x" "b_data (bufs s2 ! j) = view s b"
    by (rule read_two [OF Cons.prems(2) x(1) b(1) b(2) [symmetric] ft1 ft2])
  have vx: "view s2 ?x = disk s2 ?x" using view_clean [OF Cons.prems(2) x(2)] r by simp
  obtain s3 s4 s5 where f: "bwrite me j (set_data j (b_data (bufs s2 ! i)) s2) = Some s3" "brelse me i s3 = Some s4" "brelse me j s4 = Some s5"
    "bio_ok me {} s5" "view s5 = (view s2)(b := view s2 ?x)" "dirty_blocks s5 = dirty_blocks s2 - {b}"
    "disk s5 = (disk s2)(b := view s2 ?x)" "disksize s5 = disksize s2" "writes s5 = writes s2 @ [(b, view s2 ?x)]"
    by (rule finish_copy [OF r(3-6) vx])
  have ap5: "log_apart (lg_start l) (tail + 1) bs s5" by (rule log_apart_Cons [OF ap]) (use f r in auto)
  have "card (dirty_blocks s5) \<le> card (dirty_blocks s)" using f(6) r(8) finite_dirty [of s] by (simp add: card_Diff1_le)
  moreover have "set bs \<subseteq> dirty_blocks s5" if "set (b # bs) \<subseteq> dirty_blocks s" using that f(6) r(8) b(3) by auto
  ultimately have ft5: "fits bs s5" using ft unfolding fits_def by linarith
  obtain s' where
    s': "install_trans_loop me l (tail + 1) bs s5 = Some s'" "bio_ok me {} s'" "disksize s' = disksize s5"
    "dirty_blocks s' = dirty_blocks s5 - set bs" "disk s' = apply_writes (zip bs (log_views (lg_start l) (tail + 1) bs s5)) (disk s5)"
    "view s' = apply_writes (zip bs (log_views (lg_start l) (tail + 1) bs s5)) (view s5)"
    "writes s' = writes s5 @ zip bs (log_views (lg_start l) (tail + 1) bs s5)"
    by (rule Cons.IH [OF _ f(4) Cons.prems(3) ap5 ft5])
  have "log_views (lg_start l) tail (b # bs) s = view s ?x # log_views (lg_start l) (tail + 1) bs s5"
    by (rule log_views_Cons) (use f(5) r(7) ap in \<open>auto simp: log_apart_def\<close>)
  with s' f r Cons.prems(3) show ?case by (intro Cons.prems(1) [of s']) auto
qed

end
