(* ===== verification/Xv6_Log_Crash.thy ===== *)
theory Xv6_Log_Crash
  imports Xv6_Log
begin

text \<open>
  What \<open>commit\<close> and \<open>recover_from_log\<close> of \<^verbatim>\<open>log.c\<close> do to the disk, and that a transaction is
  atomic: after a crash between any two of the disk writes of \<open>commit\<close>, recovery leaves the old
  contents of every block of the transaction or the new contents of every one.
\<close>

section \<open>Writing and reading one block\<close>

lemma brelse_last:
  assumes "bio_ok me {i} s" "\<And>b. holds_block b i s \<Longrightarrow> \<not> b_dirty (bufs s ! i) \<Longrightarrow> b_data (bufs s ! i) = disk s b"
  obtains s' where "brelse me i s = Some s'" "bio_ok me {} s'" "view s' = view s" "dirty_blocks s' = dirty_blocks s"
    "disk s' = disk s" "disksize s' = disksize s" "writes s' = writes s"
proof (rule brelse_ok [OF assms(1) singletonI assms(2)])
  fix s' assume "brelse me i s = Some s'" "bio_ok me ({i} - {i}) s'" "view s' = view s" "dirty_blocks s' = dirty_blocks s"
    "disk s' = disk s" "disksize s' = disksize s" "writes s' = writes s"
  then show thesis using that [of s'] by simp
qed

lemma write_block_ok:
  assumes "bio_ok me {} s" "b < disksize s" "card (dirty_blocks s) < NBUF"
  obtains i s1 s2 s' where "bread me 1 b s = Some (i, s1)" "b_data (bufs s1 ! i) = view s b"
    "bwrite me i (set_data i d s1) = Some s2" "brelse me i s2 = Some s'" "bio_ok me {} s'"
    "view s' = (view s)(b := d)" "dirty_blocks s' = dirty_blocks s - {b}" "disk s' = (disk s)(b := d)" "disksize s' = disksize s"
    "writes s' = writes s @ [(b, d)]"
proof (rule bread_first [OF assms])
  fix i s1
  assume r: "bread me 1 b s = Some (i, s1)" "bio_ok me {i} s1" "i < NBUF" "holds_block b i s1"
    "b_data (bufs s1 ! i) = view s b" "view s1 = view s" "dirty_blocks s1 = dirty_blocks s" "disk s1 = disk s"
    "disksize s1 = disksize s" "writes s1 = writes s" "b_dirty (bufs s1 ! i) \<longleftrightarrow> b \<in> dirty_blocks s"
  define s0 where "s0 = set_data i d s1"
  note z = set_data_ok [OF r(2) singletonI r(4), of d, folded s0_def]
  have s0: "disk s0 = disk s" "disksize s0 = disksize s" "writes s0 = writes s" "b_data (bufs s0 ! i) = d" "length (bufs s0) = NBUF"
    using r(3,8-10) bio_okD(1) [OF r(2)] by (simp_all add: s0_def set_data_def)
  obtain s2 where w: "bwrite me i s0 = Some s2" "bio_ok me {i} s2" "view s2 = view s0" "dirty_blocks s2 = dirty_blocks s0 - {b}"
    "disk s2 = (disk s0)(b := b_data (bufs s0 ! i))" "disksize s2 = disksize s0" "writes s2 = writes s0 @ [(b, b_data (bufs s0 ! i))]"
    "holds_block b i s2" "bufs s2 = (bufs s0)[i := (bufs s0 ! i)\<lparr>b_dirty := False\<rparr>]"
    by (rule bwrite_ok [OF z(1) singletonI z(4)])
  have "b_data (bufs s2 ! i) = disk s2 c" if "holds_block c i s2" "\<not> b_dirty (bufs s2 ! i)" for c
    using that w(5,8,9) s0 r(3) by (auto simp: holds_block_def)
  note rel = brelse_last [OF w(2) this]
  obtain s' where q: "brelse me i s2 = Some s'" "bio_ok me {} s'" "view s' = view s2" "dirty_blocks s' = dirty_blocks s2"
    "disk s' = disk s2" "disksize s' = disksize s2" "writes s' = writes s2"
    by (rule rel)
  show thesis
    by (rule that [OF r(1,5), folded s0_def, OF w(1) q(1)]) (use q w z s0 r in simp_all)
qed

lemma read_block_ok:
  assumes "bio_ok me {} s" "b < disksize s" "card (dirty_blocks s) < NBUF" "b \<notin> dirty_blocks s"
  obtains i s1 s' where "bread me 1 b s = Some (i, s1)" "b_data (bufs s1 ! i) = view s b" "brelse me i s1 = Some s'" "bio_ok me {} s'"
    "view s' = view s" "dirty_blocks s' = dirty_blocks s" "disk s' = disk s" "disksize s' = disksize s" "writes s' = writes s"
proof (rule bread_first [OF assms(1-3)])
  fix i s1
  assume r: "bread me 1 b s = Some (i, s1)" "bio_ok me {i} s1" "i < NBUF" "holds_block b i s1"
    "b_data (bufs s1 ! i) = view s b" "view s1 = view s" "dirty_blocks s1 = dirty_blocks s" "disk s1 = disk s"
    "disksize s1 = disksize s" "writes s1 = writes s" "b_dirty (bufs s1 ! i) \<longleftrightarrow> b \<in> dirty_blocks s"
  have "view s b = disk s b" by (rule view_clean [OF assms(1,4)]) simp
  then have "b_data (bufs s1 ! i) = disk s1 c" if "holds_block c i s1" "\<not> b_dirty (bufs s1 ! i)" for c
    using that r(4,5,8) by (auto simp: holds_block_def)
  note rel = brelse_last [OF r(2) this]
  obtain s' where q: "brelse me i s1 = Some s'" "bio_ok me {} s'" "view s' = view s1" "dirty_blocks s' = dirty_blocks s1"
    "disk s' = disk s1" "disksize s' = disksize s1" "writes s' = writes s1"
    by (rule rel)
  show thesis by (rule that [OF r(1,5) q(1)]) (use q r in simp_all)
qed

section \<open>The parts of a commit\<close>

lemma write_head_ok:
  assumes "bio_ok me {} s" "lg_dev l = 1" "lg_start l < disksize s" "card (dirty_blocks s) < NBUF" "lg_start l \<notin> dirty_blocks s"
  defines "d \<equiv> head_bytes (lg_lh l) (disk s (lg_start l))"
  obtains s' where "write_head me l s = Some s'" "bio_ok me {} s'" "view s' = (view s)(lg_start l := d)"
    "dirty_blocks s' = dirty_blocks s" "disk s' = (disk s)(lg_start l := d)" "disksize s' = disksize s" "writes s' = writes s @ [(lg_start l, d)]"
proof -
  have v: "view s (lg_start l) = disk s (lg_start l)" by (rule view_clean [OF assms(1,5)]) simp
  obtain i s1 s2 s' where r: "bread me 1 (lg_start l) s = Some (i, s1)" "b_data (bufs s1 ! i) = view s (lg_start l)"
    "bwrite me i (set_data i d s1) = Some s2" "brelse me i s2 = Some s'" "bio_ok me {} s'"
    "view s' = (view s)(lg_start l := d)" "dirty_blocks s' = dirty_blocks s - {lg_start l}" "disk s' = (disk s)(lg_start l := d)" "disksize s' = disksize s"
    "writes s' = writes s @ [(lg_start l, d)]"
    by (rule write_block_ok [OF assms(1,3,4)])
  have "write_head me l s = Some s'" using r(1-4) v assms(2) by (simp add: write_head_def d_def)
  then show ?thesis by (rule that) (use r assms(5) in simp_all)
qed

lemma read_head_ok:
  assumes "bio_ok me {} s" "lg_dev l = 1" "lg_start l < disksize s" "dirty_blocks s = {}" "head_n (disk s (lg_start l)) \<le> int LOGSIZE"
  obtains s' where "read_head me l s = Some (l\<lparr>lg_lh := head_blocks (disk s (lg_start l))\<rparr>, s')" "bio_ok me {} s'" "view s' = view s"
    "dirty_blocks s' = {}" "disk s' = disk s" "disksize s' = disksize s" "writes s' = writes s"
proof -
  have c: "card (dirty_blocks s) < NBUF" "lg_start l \<notin> dirty_blocks s" using assms(4) by (simp_all add: NBUF_def MAXOPBLOCKS_def)
  have v: "view s (lg_start l) = disk s (lg_start l)" by (rule view_clean [OF assms(1) c(2)]) simp
  obtain i s1 s' where r: "bread me 1 (lg_start l) s = Some (i, s1)" "b_data (bufs s1 ! i) = view s (lg_start l)" "brelse me i s1 = Some s'" "bio_ok me {} s'"
    "view s' = view s" "dirty_blocks s' = dirty_blocks s" "disk s' = disk s" "disksize s' = disksize s" "writes s' = writes s"
    by (rule read_block_ok [OF assms(1,3) c])
  have "read_head me l s = Some (l\<lparr>lg_lh := head_blocks (disk s (lg_start l))\<rparr>, s')" using r(1-3) v assms(2,5) by (simp add: read_head_def)
  then show ?thesis by (rule that) (use r assms(4) in simp_all)
qed

definition log_pairs :: "nat \<Rightarrow> nat \<Rightarrow> nat list \<Rightarrow> bio \<Rightarrow> (nat \<times> bytes) list" where
  "log_pairs st tail bs s = zip [st + tail + 1..<st + tail + 1 + length bs] (map (view s) bs)"

lemma write_log_loop_ok:
  assumes "bio_ok me {} s" "lg_dev l = 1" "log_apart (lg_start l) tail bs s" "set bs \<subseteq> dirty_blocks s" "card (dirty_blocks s) < NBUF"
  obtains s' where "write_log_loop me l tail bs s = Some s'" "bio_ok me {} s'" "disksize s' = disksize s"
    "dirty_blocks s' = dirty_blocks s" "disk s' = apply_writes (log_pairs (lg_start l) tail bs s) (disk s)"
    "view s' = apply_writes (log_pairs (lg_start l) tail bs s) (view s)" "writes s' = writes s @ log_pairs (lg_start l) tail bs s"
  using assms
proof (induction bs arbitrary: s tail thesis)
  case Nil
  show ?case by (rule Nil.prems(1) [of s]) (simp_all add: log_pairs_def Nil.prems(2))
next
  case (Cons b bs)
  note ap = Cons.prems(4) and ft = Cons.prems(6)
  let ?x = "lg_start l + tail + 1"
  have x: "?x < disksize s" "?x \<notin> dirty_blocks s" and b: "b < disksize s" "b \<noteq> ?x" "b \<notin> set bs" "b \<in> dirty_blocks s"
    using ap Cons.prems(5) by (auto simp: log_apart_def)
  obtain i s1 j s2 where r: "bread me 1 ?x s = Some (i, s1)" "bread me 1 b s1 = Some (j, s2)" "bio_ok me {i, j} s2" "i \<noteq> j"
    "holds_block ?x i s2" "holds_block b j s2" "view s2 = view s" "dirty_blocks s2 = dirty_blocks s" "disk s2 = disk s"
    "disksize s2 = disksize s" "writes s2 = writes s" "b_dirty (bufs s2 ! i) \<longleftrightarrow> ?x \<in> dirty_blocks s"
    "b_dirty (bufs s2 ! j) \<longleftrightarrow> b \<in> dirty_blocks s" "b_data (bufs s2 ! i) = view s ?x" "b_data (bufs s2 ! j) = view s b"
    by (rule read_two [OF Cons.prems(2) x(1) b(1) b(2) [symmetric] ft disjI1 [OF b(4)]])
  have ji: "bio_ok me {j, i} s2" "j \<noteq> i" using r(3,4) by (simp_all add: insert_commute)
  have nd: "view s2 b = disk s2 b" if "b \<notin> dirty_blocks s2" using that b(4) r(8) by simp
  obtain s3 s4 s5 where f: "bwrite me i (set_data i (b_data (bufs s2 ! j)) s2) = Some s3" "brelse me j s3 = Some s4" "brelse me i s4 = Some s5"
    "bio_ok me {} s5" "view s5 = (view s2)(?x := view s2 b)" "dirty_blocks s5 = dirty_blocks s2 - {?x}"
    "disk s5 = (disk s2)(?x := view s2 b)" "disksize s5 = disksize s2" "writes s5 = writes s2 @ [(?x, view s2 b)]"
    by (rule finish_copy [OF ji r(6,5) nd])
  have d5: "dirty_blocks s5 = dirty_blocks s" using f(6) r(8) x(2) by simp
  have ap5: "log_apart (lg_start l) (tail + 1) bs s5" by (rule log_apart_Cons [OF ap]) (use f r d5 in simp_all)
  have sub5: "set bs \<subseteq> dirty_blocks s5" "card (dirty_blocks s5) < NBUF" using Cons.prems(5) ft d5 by auto
  obtain s' where s': "write_log_loop me l (tail + 1) bs s5 = Some s'" "bio_ok me {} s'" "disksize s' = disksize s5"
    "dirty_blocks s' = dirty_blocks s5" "disk s' = apply_writes (log_pairs (lg_start l) (tail + 1) bs s5) (disk s5)"
    "view s' = apply_writes (log_pairs (lg_start l) (tail + 1) bs s5) (view s5)" "writes s' = writes s5 @ log_pairs (lg_start l) (tail + 1) bs s5"
    by (rule Cons.IH [OF _ f(4) Cons.prems(3) ap5 sub5])
  have m: "map (view s5) bs = map (view s) bs" using f(5) r(7) ap by (auto simp: log_apart_def)
  have "log_pairs (lg_start l) tail (b # bs) s = (?x, view s b) # log_pairs (lg_start l) (tail + 1) bs s5"
    unfolding log_pairs_def m by (simp add: upt_conv_Cons del: upt_Suc)
  with s' f r d5 Cons.prems(3) show ?case by (intro Cons.prems(1) [of s']) auto
qed

section \<open>Commit and recovery as lists of writes\<close>

text \<open>A transaction that is ready to commit: its blocks are the pinned ones, apart from the log.\<close>

definition txn_ok :: "int \<Rightarrow> log \<Rightarrow> bio \<Rightarrow> bool" where
  "txn_ok me l s \<longleftrightarrow> bio_ok me {} s \<and> lg_dev l = 1 \<and> lg_lh l \<noteq> [] \<and> log_apart (lg_start l) 0 (lg_lh l) s \<and>
     dirty_blocks s = set (lg_lh l) \<and> length (lg_lh l) < NBUF"

definition commit_writes :: "log \<Rightarrow> bio \<Rightarrow> (nat \<times> bytes) list" where
  "commit_writes l s =
     (let st = lg_start l; bs = lg_lh l; h = head_bytes bs (disk s st)
      in log_pairs st 0 bs s @ (st, h) # zip bs (map (view s) bs) @ [(st, head_bytes [] h)])"

lemma fst_log_pairs: "fst ` set (log_pairs st tail bs s) = {st + tail + 1..st + tail + length bs}"
proof -
  have "map fst (log_pairs st tail bs s) = [st + tail + 1..<st + tail + 1 + length bs]" by (simp add: log_pairs_def)
  then have "fst ` set (log_pairs st tail bs s) = set [st + tail + 1..<st + tail + 1 + length bs]" by (metis list.set_map)
  then show ?thesis by auto
qed

lemma log_pairs_out: "b \<le> st \<or> st + length bs < b \<Longrightarrow> apply_writes (log_pairs st 0 bs s) d b = d b"
  by (rule apply_writes_other) (use fst_log_pairs [of st 0 bs s] in auto)

lemma length_log_pairs [simp]: "length (log_pairs st tail bs s) = length bs"
  by (simp add: log_pairs_def del: upt_Suc)

lemma log_pairs_at:
  assumes "i < length bs"
  shows "apply_writes (log_pairs st 0 bs s) d (st + 1 + i) = view s (bs ! i)"
proof -
  have "[st + 0 + 1..<st + 0 + 1 + length bs] ! i = st + 1 + i" using assms by (simp del: upt_Suc)
  with apply_writes_at [of "[st + 0 + 1..<st + 0 + 1 + length bs]" i "map (view s) bs" d] assms
  show ?thesis unfolding log_pairs_def by (simp del: upt_Suc)
qed

lemma log_views_eq:
  assumes "\<And>i. i < length bs \<Longrightarrow> view s' (st + 1 + i) = view s (bs ! i)"
  shows "log_views st 0 bs s' = map (view s) bs"
  unfolding log_views_def by (rule nth_equalityI) (use assms in auto)

lemma apply_zip_other: "b \<notin> set bs \<Longrightarrow> apply_writes (zip bs vs) d b = d b"
  by (rule apply_writes_other) (auto dest: set_zip_leftD)

lemma home_writes_at:
  assumes "distinct bs" "b \<in> set bs \<or> d b = v b"
  shows "apply_writes (zip bs (map v bs)) d b = v b"
proof (cases "b \<in> set bs")
  case True
  then obtain i where "i < length bs" "b = bs ! i" by (metis in_set_conv_nth)
  with apply_writes_at [OF assms(1), of i "map v bs"] show ?thesis by simp
next
  case False
  with assms(2) show ?thesis by (simp add: apply_zip_other)
qed

lemma commit_ok:
  assumes "txn_ok me l s"
  obtains s' where "commit me l s = Some (l\<lparr>lg_lh := []\<rparr>, s')" "bio_ok me {} s'" "disksize s' = disksize s" "dirty_blocks s' = {}"
    "writes s' = writes s @ commit_writes l s" "disk s' = apply_writes (commit_writes l s) (disk s)"
    "\<And>b. b < lg_start l \<or> lg_start l + length (lg_lh l) < b \<Longrightarrow> view s' b = view s b"
proof -
  let ?st = "lg_start l" and ?bs = "lg_lh l"
  note t = assms [unfolded txn_ok_def]
  have ok: "bio_ok me {} s" and dev: "lg_dev l = 1" and ap: "log_apart ?st 0 ?bs s" and db: "dirty_blocks s = set ?bs" using t by auto
  have dist: "distinct ?bs" and st: "?st < disksize s" "?st \<notin> set ?bs" using ap db by (auto simp: log_apart_def)
  have card: "card (dirty_blocks s) < NBUF" using t distinct_card [OF dist] db by simp
  obtain s1 where 1: "write_log_loop me l 0 ?bs s = Some s1" "bio_ok me {} s1" "disksize s1 = disksize s" "dirty_blocks s1 = dirty_blocks s"
    "disk s1 = apply_writes (log_pairs ?st 0 ?bs s) (disk s)" "view s1 = apply_writes (log_pairs ?st 0 ?bs s) (view s)"
    "writes s1 = writes s @ log_pairs ?st 0 ?bs s"
    by (rule write_log_loop_ok [OF ok dev ap eq_refl [OF db [symmetric]] card])
  have st1: "disk s1 ?st = disk s ?st" unfolding 1(5) by (rule apply_writes_other) (simp add: fst_log_pairs)
  have c1: "?st < disksize s1" "card (dirty_blocks s1) < NBUF" "?st \<notin> dirty_blocks s1" using 1 st card db by simp_all
  obtain s2 where 2: "write_head me l s1 = Some s2" "bio_ok me {} s2" "view s2 = (view s1)(?st := head_bytes ?bs (disk s1 ?st))"
    "dirty_blocks s2 = dirty_blocks s1" "disk s2 = (disk s1)(?st := head_bytes ?bs (disk s1 ?st))" "disksize s2 = disksize s1"
    "writes s2 = writes s1 @ [(?st, head_bytes ?bs (disk s1 ?st))]"
    by (rule write_head_ok [OF 1(2) dev c1])
  have v2: "log_views ?st 0 ?bs s2 = map (view s) ?bs"
    by (rule log_views_eq) (simp add: 2(3) 1(6) log_pairs_at [simplified])
  have ap2: "log_apart ?st 0 ?bs s2" using ap 1(3,4) 2(4,6) by (simp add: log_apart_def)
  have f2: "fits ?bs s2" using card db 1(4) 2(4) by (simp add: fits_def)
  obtain s3 where 3: "install_trans_loop me l 0 ?bs s2 = Some s3" "bio_ok me {} s3" "disksize s3 = disksize s2"
    "dirty_blocks s3 = dirty_blocks s2 - set ?bs" "disk s3 = apply_writes (zip ?bs (log_views ?st 0 ?bs s2)) (disk s2)"
    "view s3 = apply_writes (zip ?bs (log_views ?st 0 ?bs s2)) (view s2)" "writes s3 = writes s2 @ zip ?bs (log_views ?st 0 ?bs s2)"
    by (rule install_trans_loop_ok [OF 2(2) dev ap2 f2])
  have st3: "disk s3 ?st = head_bytes ?bs (disk s ?st)"
    using st(2) by (simp add: 3(5) apply_zip_other 2(5) st1)
  have d3: "dirty_blocks s3 = {}" using 3(4) 2(4) 1(4) db by simp
  have c3: "?st < disksize s3" "card (dirty_blocks s3) < NBUF" "?st \<notin> dirty_blocks s3" using 3 2 1 st d3 by (simp_all add: NBUF_def MAXOPBLOCKS_def)
  let ?l = "l\<lparr>lg_lh := []\<rparr>"
  obtain s4 where 4: "write_head me ?l s3 = Some s4" "bio_ok me {} s4" "view s4 = (view s3)(lg_start ?l := head_bytes (lg_lh ?l) (disk s3 (lg_start ?l)))"
    "dirty_blocks s4 = dirty_blocks s3" "disk s4 = (disk s3)(lg_start ?l := head_bytes (lg_lh ?l) (disk s3 (lg_start ?l)))" "disksize s4 = disksize s3"
    "writes s4 = writes s3 @ [(lg_start ?l, head_bytes (lg_lh ?l) (disk s3 (lg_start ?l)))]"
    by (rule write_head_ok [of me s3 ?l]) (use 3(2) dev c3 in simp_all)
  have w: "writes s4 = writes s @ commit_writes l s"
    using 1(7) 2(7) 3(7) 4(7) st1 st3 v2 by (simp add: commit_writes_def Let_def)
  have d: "disk s4 = apply_writes (commit_writes l s) (disk s)"
    using 1(5) 2(5) 3(5) 4(5) st1 st3 v2 by (simp add: commit_writes_def Let_def)
  have v: "view s4 b = view s b" if b: "b < ?st \<or> ?st + length ?bs < b" for b
  proof -
    have "view s2 b = view s b" using b by (auto simp: 2(3) 1(6) log_pairs_out)
    with home_writes_at [OF dist, of b "view s2" "view s"] show ?thesis using b 3(6) 4(3) v2 by auto
  qed
  have "commit me l s = Some (?l, s4)"
    using t 1(1) 2(1) 3(1) 4(1) by (simp add: commit_def write_log_def install_trans_def)
  with that [of s4] 4(2,4,6) 3(3) 2(6) 1(3) d3 w d v show ?thesis by simp
qed

text \<open>What recovery makes of a disk.\<close>

definition redo :: "nat \<Rightarrow> (nat \<Rightarrow> bytes) \<Rightarrow> nat \<Rightarrow> bytes" where
  "redo st d =
     (let bs = head_blocks (d st)
      in (apply_writes (zip bs (map (\<lambda>i. d (st + 1 + i)) [0..<length bs])) d)(st := head_bytes [] (d st)))"

definition booted :: "int \<Rightarrow> bio \<Rightarrow> bool" where
  "booted me r \<longleftrightarrow> bio_ok me {} r \<and> dirty_blocks r = {}"

lemma recover_ok:
  assumes "booted me r" "lg_dev l = 1" "head_n (disk r (lg_start l)) \<le> int LOGSIZE"
    "log_apart (lg_start l) 0 (head_blocks (disk r (lg_start l))) r"
  shows "\<exists>r'. recover_from_log me l r = Some (l\<lparr>lg_lh := []\<rparr>, r') \<and> booted me r' \<and> disk r' = redo (lg_start l) (disk r) \<and> disksize r' = disksize r"
proof -
  let ?st = "lg_start l" and ?bs = "head_blocks (disk r (lg_start l))"
  have ok: "bio_ok me {} r" and db: "dirty_blocks r = {}" using assms(1) by (simp_all add: booted_def)
  have st: "?st < disksize r" "?st \<notin> set ?bs" using assms(4) by (auto simp: log_apart_def)
  obtain s1 where 1: "read_head me l r = Some (l\<lparr>lg_lh := ?bs\<rparr>, s1)" "bio_ok me {} s1" "view s1 = view r"
    "dirty_blocks s1 = {}" "disk s1 = disk r" "disksize s1 = disksize r" "writes s1 = writes r"
    by (rule read_head_ok [OF ok assms(2) st(1) db assms(3)])
  have v1: "view s1 b = disk r b" for b using view_clean [OF 1(2), of b] 1(4,5) by simp
  let ?l = "l\<lparr>lg_lh := ?bs\<rparr>"
  have ap: "log_apart (lg_start ?l) 0 ?bs s1" using assms(4) 1(4,6) db by (simp add: log_apart_def)
  have f: "fits ?bs s1" using 1(4) by (simp add: fits_def NBUF_def MAXOPBLOCKS_def)
  obtain s2 where 2: "install_trans_loop me ?l 0 ?bs s1 = Some s2" "bio_ok me {} s2" "disksize s2 = disksize s1"
    "dirty_blocks s2 = dirty_blocks s1 - set ?bs" "disk s2 = apply_writes (zip ?bs (log_views (lg_start ?l) 0 ?bs s1)) (disk s1)"
    "view s2 = apply_writes (zip ?bs (log_views (lg_start ?l) 0 ?bs s1)) (view s1)"
    "writes s2 = writes s1 @ zip ?bs (log_views (lg_start ?l) 0 ?bs s1)"
    by (rule install_trans_loop_ok [OF 1(2) _ ap f]) (use assms(2) in simp_all)
  have st2: "disk s2 ?st = disk r ?st" using st(2) by (simp add: 2(5) apply_zip_other 1(5))
  let ?l0 = "l\<lparr>lg_lh := []\<rparr>"
  obtain s3 where 3: "write_head me ?l0 s2 = Some s3" "bio_ok me {} s3" "view s3 = (view s2)(lg_start ?l0 := head_bytes (lg_lh ?l0) (disk s2 (lg_start ?l0)))"
    "dirty_blocks s3 = dirty_blocks s2" "disk s3 = (disk s2)(lg_start ?l0 := head_bytes (lg_lh ?l0) (disk s2 (lg_start ?l0)))" "disksize s3 = disksize s2"
    "writes s3 = writes s2 @ [(lg_start ?l0, head_bytes (lg_lh ?l0) (disk s2 (lg_start ?l0)))]"
    by (rule write_head_ok [of me s2 ?l0]) (use 2 1 st assms(2) in \<open>simp_all add: NBUF_def MAXOPBLOCKS_def\<close>)
  have "recover_from_log me l r = Some (?l0, s3)" using 1(1) 2(1) 3(1) by (simp add: recover_from_log_def install_trans_def)
  moreover have "disk s3 = redo ?st (disk r)" using 3(5) 2(5) st2 1(5) v1 by (simp add: redo_def Let_def log_views_def)
  ultimately show ?thesis using 3 2 1 by (simp add: booted_def)
qed

section \<open>A crash\<close>

text \<open>The blocks outside of the log agree.\<close>

definition same_data :: "log \<Rightarrow> (nat \<Rightarrow> bytes) \<Rightarrow> (nat \<Rightarrow> bytes) \<Rightarrow> bool" where
  "same_data l d e \<longleftrightarrow> (\<forall>b. b < lg_start l \<or> lg_start l + length (lg_lh l) < b \<longrightarrow> d b = e b)"

lemma redo_empty:
  assumes "head_blocks (d (lg_start l)) = []" "same_data l d e"
  shows "same_data l (redo (lg_start l) d) e"
  using assms by (auto simp: redo_def same_data_def)

lemma redo_committed:
  assumes "head_blocks (d (lg_start l)) = lg_lh l" "distinct (lg_lh l)"
    "\<And>i. i < length (lg_lh l) \<Longrightarrow> d (lg_start l + 1 + i) = v (lg_lh l ! i)"
    "\<And>b. b \<notin> set (lg_lh l) \<Longrightarrow> b < lg_start l \<or> lg_start l + length (lg_lh l) < b \<Longrightarrow> d b = v b"
  shows "same_data l (redo (lg_start l) d) v"
proof -
  have "map (\<lambda>i. d (lg_start l + 1 + i)) [0..<length (lg_lh l)] = map v (lg_lh l)" by (rule nth_equalityI) (use assms(3) in auto)
  then have r: "redo (lg_start l) d = (apply_writes (zip (lg_lh l) (map v (lg_lh l))) d)(lg_start l := head_bytes [] (d (lg_start l)))"
    unfolding redo_def Let_def assms(1) by simp
  have "apply_writes (zip (lg_lh l) (map v (lg_lh l))) d b = v b" if "b < lg_start l \<or> lg_start l + length (lg_lh l) < b" for b
    by (rule home_writes_at [OF assms(2)]) (use assms(4) that in blast)
  with r show ?thesis by (auto simp: same_data_def)
qed

text \<open>The disk after the first \<open>k\<close> writes of a commit.\<close>

definition crash_disk :: "nat \<Rightarrow> log \<Rightarrow> bio \<Rightarrow> nat \<Rightarrow> bytes" where
  "crash_disk k l s = apply_writes (take k (commit_writes l s)) (disk s)"

lemma crash_before:
  assumes "k \<le> length (lg_lh l)"
  shows "crash_disk k l s (lg_start l) = disk s (lg_start l)" "same_data l (crash_disk k l s) (disk s)"
proof -
  let ?W = "take k (log_pairs (lg_start l) 0 (lg_lh l) s)"
  have "crash_disk k l s = apply_writes ?W (disk s)"
    using assms by (simp add: crash_disk_def commit_writes_def Let_def)
  moreover have "fst ` set ?W \<subseteq> {lg_start l + 1..lg_start l + length (lg_lh l)}"
    using fst_log_pairs [of "lg_start l" 0 "lg_lh l" s] set_take_subset [of k "log_pairs (lg_start l) 0 (lg_lh l) s"] by auto
  then have "b \<notin> fst ` set ?W" if "b \<le> lg_start l \<or> lg_start l + length (lg_lh l) < b" for b using that by fastforce
  ultimately have "crash_disk k l s b = disk s b" if "b \<le> lg_start l \<or> lg_start l + length (lg_lh l) < b" for b
    using that by (simp add: apply_writes_other)
  then show "crash_disk k l s (lg_start l) = disk s (lg_start l)" "same_data l (crash_disk k l s) (disk s)"
    by (auto simp: same_data_def)
qed

lemma crash_between:
  assumes "log_apart (lg_start l) 0 (lg_lh l) s" "length (lg_lh l) < k" "k < 2 * length (lg_lh l) + 2"
  shows "crash_disk k l s (lg_start l) = head_bytes (lg_lh l) (disk s (lg_start l))"
    "i < length (lg_lh l) \<Longrightarrow> crash_disk k l s (lg_start l + 1 + i) = view s (lg_lh l ! i)"
    "b \<notin> set (lg_lh l) \<Longrightarrow> b < lg_start l \<or> lg_start l + length (lg_lh l) < b \<Longrightarrow> crash_disk k l s b = disk s b"
proof -
  let ?st = "lg_start l" and ?bs = "lg_lh l"
  define j where "j = k - length ?bs - 1"
  have L: "k = length ?bs + Suc j" "j \<le> length ?bs" using assms(2,3) by (simp_all add: j_def)
  let ?d = "(apply_writes (log_pairs ?st 0 ?bs s) (disk s))(?st := head_bytes ?bs (disk s ?st))"
  have "crash_disk k l s = apply_writes (take j (zip ?bs (map (view s) ?bs))) ?d"
    using L by (simp add: crash_disk_def commit_writes_def Let_def)
  then have d: "crash_disk k l s = apply_writes (zip (take j ?bs) (map (view s) (take j ?bs))) ?d" by (simp add: take_zip take_map)
  have out: "b \<notin> set (take j ?bs)" if "b \<notin> set ?bs" for b using that by (meson in_set_takeD)
  have ap: "?st \<notin> set ?bs" "i < length ?bs \<Longrightarrow> ?st + 1 + i \<notin> set ?bs" using assms(1) by (auto simp: log_apart_def)
  show "crash_disk k l s ?st = head_bytes ?bs (disk s ?st)" using apply_zip_other [OF out [OF ap(1)]] d by simp
  show "crash_disk k l s (?st + 1 + i) = view s (?bs ! i)" if "i < length ?bs"
    using apply_zip_other [OF out [OF ap(2) [OF that]]] log_pairs_at [OF that] d by simp
  show "crash_disk k l s b = disk s b" if "b \<notin> set ?bs" "b < ?st \<or> ?st + length ?bs < b"
    using apply_zip_other [OF out [OF that(1)]] d that(2) by (auto simp: log_pairs_out)
qed

lemma crash_after:
  assumes "2 * length (lg_lh l) + 2 \<le> k"
  shows "crash_disk k l s = (apply_writes (zip (lg_lh l) (map (view s) (lg_lh l)))
     ((apply_writes (log_pairs (lg_start l) 0 (lg_lh l) s) (disk s))(lg_start l := head_bytes (lg_lh l) (disk s (lg_start l)))))
     (lg_start l := head_bytes [] (head_bytes (lg_lh l) (disk s (lg_start l))))"
  using assms by (simp add: crash_disk_def commit_writes_def Let_def)

lemma txn_clean:
  assumes "txn_ok me l s" "b \<notin> set (lg_lh l)"
  shows "view s b = disk s b"
  using assms by (intro view_clean [of me "{}"]) (auto simp: txn_ok_def)

text \<open>The two outcomes of recovery.\<close>

lemma redo_crash:
  assumes "txn_ok me l s" "disksize s \<le> 0x100000000" "head_n (disk s (lg_start l)) = 0"
  shows "same_data l (redo (lg_start l) (crash_disk k l s)) (if k \<le> length (lg_lh l) then disk s else view s) \<and>
    head_n (crash_disk k l s (lg_start l)) \<le> int LOGSIZE \<and>
    set (head_blocks (crash_disk k l s (lg_start l))) \<subseteq> set (lg_lh l) \<and> distinct (head_blocks (crash_disk k l s (lg_start l))) \<and>
    length (head_blocks (crash_disk k l s (lg_start l))) \<le> length (lg_lh l)"
proof -
  let ?st = "lg_start l" and ?bs = "lg_lh l"
  have ap: "log_apart ?st 0 ?bs s" and len: "length ?bs \<le> LOGSIZE" using assms(1) by (auto simp: txn_ok_def NBUF_def LOGSIZE_def)
  have dist: "distinct ?bs" using ap by (simp add: log_apart_def)
  have small: "\<forall>b\<in>set ?bs. b < 0x100000000" using ap assms(2) by (auto simp: log_apart_def)
  note h = head_roundtrip [OF len small] and h0 = head_roundtrip [of "[]"]
  consider "k \<le> length ?bs" | "length ?bs < k" "k < 2 * length ?bs + 2" | "2 * length ?bs + 2 \<le> k" by linarith
  then show ?thesis
  proof cases
    case 1
    have "head_blocks (crash_disk k l s ?st) = []" using assms(3) by (simp add: crash_before(1) [OF 1] head_blocks_def)
    with redo_empty [OF this crash_before(2) [OF 1]] 1 assms(3) show ?thesis by (simp add: crash_before(1) [OF 1])
  next
    case 2
    note c = crash_between [OF ap 2]
    have "same_data l (redo ?st (crash_disk k l s)) (view s)"
      by (rule redo_committed) (use c h(2) dist txn_clean [OF assms(1)] in simp_all)
    with 2(1) c(1) h dist len show ?thesis by simp
  next
    case 3
    let ?d = "crash_disk k l s"
    have hd: "?d ?st = head_bytes [] (head_bytes ?bs (disk s ?st))" by (simp add: crash_after [OF 3])
    have "?d b = view s b" if "b < ?st \<or> ?st + length ?bs < b" for b
    proof -
      let ?e = "(apply_writes (log_pairs ?st 0 ?bs s) (disk s))(?st := head_bytes ?bs (disk s ?st))"
      have "?e b = disk s b" using that by (auto simp: log_pairs_out)
      then have "b \<in> set ?bs \<or> ?e b = view s b" using txn_clean [OF assms(1), of b] by metis
      then have "apply_writes (zip ?bs (map (view s) ?bs)) ?e b = view s b" by (rule home_writes_at [OF dist])
      then show ?thesis using that by (auto simp: crash_after [OF 3])
    qed
    then have "same_data l ?d (view s)" by (simp add: same_data_def)
    with redo_empty [of ?d l] hd h0 3 show ?thesis by simp
  qed
qed

lemma log_apart_sub:
  assumes "log_apart st 0 bs s" "distinct hs" "set hs \<subseteq> set bs" "length hs \<le> length bs" "disksize r = disksize s" "dirty_blocks r = {}"
  shows "log_apart st 0 hs r"
proof -
  have "b < disksize r \<and> (b < st \<or> st + 0 + length hs < b)" if "b \<in> set hs" for b
    using assms(1,3,4,5) that unfolding log_apart_def by (metis add.commute add.right_neutral add_le_cancel_left le_less_trans subsetD)
  with assms show ?thesis unfolding log_apart_def by simp
qed

lemma recover_crash:
  assumes "txn_ok me l s" "disksize s \<le> 0x100000000" "head_n (disk s (lg_start l)) = 0"
    "booted me r" "disksize r = disksize s" "disk r = crash_disk k l s"
  shows "\<exists>r'. recover_from_log me l r = Some (l\<lparr>lg_lh := []\<rparr>, r') \<and> booted me r' \<and>
    same_data l (disk r') (if k \<le> length (lg_lh l) then disk s else view s)"
proof -
  note d = redo_crash [OF assms(1-3), of k]
  have l: "lg_dev l = 1" "log_apart (lg_start l) 0 (lg_lh l) s" and r: "dirty_blocks r = {}" using assms(1,4) by (auto simp: txn_ok_def booted_def)
  have h: "head_n (disk r (lg_start l)) \<le> int LOGSIZE" using d assms(6) by simp
  have "log_apart (lg_start l) 0 (head_blocks (disk r (lg_start l))) r"
    by (rule log_apart_sub [OF l(2) _ _ _ assms(5) r]) (use d assms(6) in simp_all)
  from recover_ok [OF assms(4) l(1) h this] d assms(6) show ?thesis by auto
qed

text \<open>C1. A transaction is atomic under crashes: \<open>commit\<close> succeeds, and when the machine stops after any
  number \<open>k\<close> of its disk writes, \<open>recover_from_log\<close> on the disk that is left, with a cache that holds
  no changed block, succeeds and leaves outside of the log either the contents before the transaction or
  the contents the transaction gave to every block; after all of the writes it is the latter.\<close>

theorem commit_crash_atomic:
  assumes "txn_ok me l s" "disksize s \<le> 0x100000000" "head_n (disk s (lg_start l)) = 0"
  shows "\<exists>s' W. commit me l s = Some (l\<lparr>lg_lh := []\<rparr>, s') \<and> writes s' = writes s @ W \<and> disk s' = apply_writes W (disk s) \<and>
    (\<forall>k r. booted me r \<and> disksize r = disksize s \<and> disk r = apply_writes (take k W) (disk s) \<longrightarrow>
      (\<exists>r'. recover_from_log me l r = Some (l\<lparr>lg_lh := []\<rparr>, r') \<and> booted me r' \<and>
        (same_data l (disk r') (disk s) \<or> same_data l (disk r') (view s)) \<and>
        (length W \<le> k \<longrightarrow> same_data l (disk r') (view s))))"
proof (rule commit_ok [OF assms(1)])
  fix s' assume c: "commit me l s = Some (l\<lparr>lg_lh := []\<rparr>, s')" "writes s' = writes s @ commit_writes l s"
    "disk s' = apply_writes (commit_writes l s) (disk s)"
  have n: "length (lg_lh l) < length (commit_writes l s)" by (simp add: commit_writes_def Let_def)
  have "\<exists>r'. recover_from_log me l r = Some (l\<lparr>lg_lh := []\<rparr>, r') \<and> booted me r' \<and>
      (same_data l (disk r') (disk s) \<or> same_data l (disk r') (view s)) \<and> (length (commit_writes l s) \<le> k \<longrightarrow> same_data l (disk r') (view s))"
    if r: "booted me r \<and> disksize r = disksize s \<and> disk r = apply_writes (take k (commit_writes l s)) (disk s)" for k r
  proof -
    obtain r' where "recover_from_log me l r = Some (l\<lparr>lg_lh := []\<rparr>, r')" "booted me r'"
      "same_data l (disk r') (if k \<le> length (lg_lh l) then disk s else view s)"
      using recover_crash [OF assms, of r k] r unfolding crash_disk_def by blast
    with n show ?thesis by (intro exI [of _ r']) (auto split: if_splits)
  qed
  with c show ?thesis by blast
qed

text \<open>A disk of 64 blocks with the log at block 2, and one block of data changed in the cache.\<close>

definition small_log :: log where
  "small_log = \<lparr>lg_start = 2, lg_size = 30, lg_outstanding = 0, lg_committing = True, lg_dev = 1, lg_lh = [40]\<rparr>"

definition small_bio :: bio where
  "small_bio = \<lparr>bufs = map (\<lambda>i. \<lparr>b_valid = i = 0, b_dirty = i = 0, b_dev = (if i = 0 then 1 else 0), b_blockno = (if i = 0 then 40 else 0),
       b_lock = \<lparr>sl_locked = False, sl_pid = 0\<rparr>, b_refcnt = 0, b_data = replicate BSIZE 7\<rparr>) [0..<NBUF],
     mru = rev [0..<NBUF], disk = (\<lambda>_. replicate BSIZE 0), disksize = 64, writes = []\<rparr>"

lemma small_txn: "txn_ok 1 small_log small_bio"
proof -
  have d: "dirty_blocks small_bio = {40}"
    by (auto simp: dirty_blocks_def holds_block_def small_bio_def NBUF_def MAXOPBLOCKS_def intro: exI [of _ 0])
  have at: "bufs small_bio ! i = \<lparr>b_valid = i = 0, b_dirty = i = 0, b_dev = (if i = 0 then 1 else 0), b_blockno = (if i = 0 then 40 else 0),
      b_lock = \<lparr>sl_locked = False, sl_pid = 0\<rparr>, b_refcnt = 0, b_data = replicate BSIZE 7\<rparr>" if "i < NBUF" for i
    using that by (simp add: small_bio_def)
  have rest: "length (bufs small_bio) = NBUF" "distinct (mru small_bio)" "set (mru small_bio) = {..<NBUF}" "disksize small_bio = 64"
    by (auto simp: small_bio_def)
  have hb: "holds_block b i small_bio \<longleftrightarrow> i = 0 \<and> b = 40" if "i < NBUF" for i b
    unfolding holds_block_def at [OF that] by auto
  have "bio_ok 1 {} small_bio"
    by (rule bio_okI) (simp_all add: rest at hb)
  with d show ?thesis by (simp add: txn_ok_def small_log_def log_apart_def small_bio_def NBUF_def MAXOPBLOCKS_def)
qed

theorem commit_crash_atomic_witness:
  "\<exists>s' W. commit 1 small_log small_bio = Some (small_log\<lparr>lg_lh := []\<rparr>, s') \<and> writes s' = W \<and>
    (\<forall>k r. booted 1 r \<and> disksize r = 64 \<and> disk r = apply_writes (take k W) (\<lambda>_. replicate BSIZE 0) \<longrightarrow>
      (\<exists>r'. recover_from_log 1 small_log r = Some (small_log\<lparr>lg_lh := []\<rparr>, r')))"
proof -
  have "disksize small_bio = 64" "writes small_bio = []" "disk small_bio = (\<lambda>_. replicate BSIZE 0)" by (simp_all add: small_bio_def)
  moreover have "head_n (replicate BSIZE 0) = 0" by (simp add: head_n_def dread_def de32_def BSIZE_def)
  ultimately have "\<exists>s' W. commit 1 small_log small_bio = Some (small_log\<lparr>lg_lh := []\<rparr>, s') \<and> writes s' = [] @ W \<and>
      disk s' = apply_writes W (disk small_bio) \<and>
      (\<forall>k r. booted 1 r \<and> disksize r = 64 \<and> disk r = apply_writes (take k W) (\<lambda>_. replicate BSIZE 0) \<longrightarrow>
      (\<exists>r'. recover_from_log 1 small_log r = Some (small_log\<lparr>lg_lh := []\<rparr>, r') \<and> booted 1 r' \<and>
        (same_data small_log (disk r') (\<lambda>_. replicate BSIZE 0) \<or> same_data small_log (disk r') (view small_bio)) \<and>
        (length W \<le> k \<longrightarrow> same_data small_log (disk r') (view small_bio))))"
    using commit_crash_atomic [OF small_txn] by simp
  then show ?thesis by (metis append_Nil)
qed

end
