(* ===== verification/Ring_Buffer.thy ===== *)
theory Ring_Buffer
  imports Prelude
begin

text \<open>
  Ring buffers with free-running 32-bit counters, as the kernel's console and its pipes use them: the
  counters are only ever incremented and wrap around, the slot of a counter is its value modulo the
  capacity. The capacity divides 2 to the 32, so the wrap-around of a counter does not move its slot.
\<close>

definition ring_slot :: "nat \<Rightarrow> u32 \<Rightarrow> nat" where
  "ring_slot cap k = unat k mod cap"

text \<open>The \<open>n\<close> bytes from counter \<open>a\<close> on.\<close>

definition ring_seg :: "nat \<Rightarrow> 'a list \<Rightarrow> u32 \<Rightarrow> nat \<Rightarrow> 'a list" where
  "ring_seg cap buf a n = map (\<lambda>k. buf ! ring_slot cap (a + word_of_nat k)) [0..<n]"

lemma length_ring_seg [simp]: "length (ring_seg cap buf a n) = n"
  by (simp add: ring_seg_def)

lemma ring_seg_0 [simp]: "ring_seg cap buf a 0 = []"
  by (simp add: ring_seg_def)

lemma ring_seg_Suc: "ring_seg cap buf a (Suc n) = ring_seg cap buf a n @ [buf ! ring_slot cap (a + word_of_nat n)]"
  by (simp add: ring_seg_def)

lemma ring_seg_Cons: "ring_seg cap buf a (Suc n) = buf ! ring_slot cap a # ring_seg cap buf (a + 1) n"
proof -
  have "map (\<lambda>k. buf ! ring_slot cap (a + word_of_nat k)) [1..<Suc n] = map (\<lambda>k. buf ! ring_slot cap (a + 1 + word_of_nat k)) [0..<n]"
    by (rule nth_equalityI) (auto simp: add.assoc simp del: upt_Suc)
  then show ?thesis by (simp add: ring_seg_def upt_conv_Cons del: upt_Suc)
qed

lemma ring_seg_append: "ring_seg cap buf a (m + n) = ring_seg cap buf a m @ ring_seg cap buf (a + word_of_nat m) n"
proof (induction m arbitrary: a)
  case (Suc m)
  have "ring_seg cap buf a (Suc m + n) = buf ! ring_slot cap a # ring_seg cap buf (a + 1) (m + n)" by (simp add: ring_seg_Cons)
  also have "\<dots> = ring_seg cap buf a (Suc m) @ ring_seg cap buf (a + 1 + word_of_nat m) n" by (simp add: Suc.IH ring_seg_Cons)
  finally show ?case by (simp add: add.assoc)
qed simp

locale ring_buffer =
  fixes cap :: nat
  assumes cap_dvd: "cap dvd 2 ^ 32"
begin

lemma cap_pos: "0 < cap"
  using cap_dvd by (metis dvd_0_left_iff gr0I power_not_zero zero_neq_numeral)

lemma slot_less: "ring_slot cap k < cap"
  using cap_pos by (simp add: ring_slot_def)

lemma slot_add: "ring_slot cap (a + word_of_nat k) = (unat a + k) mod cap"
proof -
  have "unat (a + word_of_nat k) = (unat a + k mod 2 ^ 32) mod 2 ^ 32"
    by (simp add: unat_word_ariths unat_of_nat take_bit_eq_mod)
  then have "unat (a + word_of_nat k) = (unat a + k) mod 2 ^ 32" by (simp add: mod_add_right_eq)
  then show ?thesis by (simp only: ring_slot_def mod_mod_cancel [OF cap_dvd])
qed

lemma slot_distinct:
  assumes "j < k" "k - j < cap"
  shows "ring_slot cap (a + word_of_nat j) \<noteq> ring_slot cap (a + word_of_nat k)"
proof
  assume "ring_slot cap (a + word_of_nat j) = ring_slot cap (a + word_of_nat k)"
  then have "cap dvd (unat a + k) - (unat a + j)" unfolding slot_add using assms(1) by (metis mod_eq_dvd_iff_nat nat_add_left_cancel_le less_imp_le)
  then have "cap dvd k - j" by simp
  with assms show False by (auto dest: dvd_imp_le)
qed

text \<open>Writing behind the end of a segment that is not full, or before its start.\<close>

lemma ring_seg_update:
  assumes "n < cap"
  shows "ring_seg cap (buf[ring_slot cap (a + word_of_nat n) := v]) a n = ring_seg cap buf a n"
  unfolding ring_seg_def
proof (rule map_cong [OF refl])
  fix k assume "k \<in> set [0..<n]"
  then have "k < n" "n - k < cap" using assms by auto
  from slot_distinct [OF this, of a] show "buf[ring_slot cap (a + word_of_nat n) := v] ! ring_slot cap (a + word_of_nat k) = buf ! ring_slot cap (a + word_of_nat k)"
    by simp
qed

lemma ring_push:
  assumes "n < cap" "length buf = cap"
  shows "ring_seg cap (buf[ring_slot cap (a + word_of_nat n) := v]) a (Suc n) = ring_seg cap buf a n @ [v]"
  using ring_seg_update [OF assms(1), of buf a v] slot_less [of "a + word_of_nat n"] assms(2) by (simp add: ring_seg_Suc)

end

text \<open>The distance between two counters.\<close>

lemma unat_less32: "unat (x :: u32) < 2 ^ 32"
  using unsigned_less [of x, where ?'a = nat] by simp

lemma counter_at: "a + word_of_nat (unat (b - a)) = (b :: u32)"
  by simp

lemma counter_eq: "n < 2 ^ 32 \<Longrightarrow> b = a + word_of_nat n \<longleftrightarrow> unat (b - a :: u32) = n"
  using counter_at [of a b] by (auto simp: unat_of_nat take_bit_eq_mod)

lemma dist_inc: "unat (b - a :: u32) < 2 ^ 32 - 1 \<Longrightarrow> unat (b + 1 - a) = Suc (unat (b - a))"
proof -
  assume a: "unat (b - a) < 2 ^ 32 - 1"
  have e: "b + 1 - a = (b - a) + 1" by simp
  have "unat (b - a) + unat (1 :: u32) < 2 ^ LENGTH(32)" using a by simp
  then have "unat ((b - a) + 1) = unat (b - a) + unat (1 :: u32)" by (subst unat_add_lem [symmetric])
  then show ?thesis unfolding e by simp
qed

lemma dist_inc_left: "a \<noteq> b \<Longrightarrow> unat (b - (a + 1) :: u32) = unat (b - a) - 1"
proof -
  assume "a \<noteq> b"
  then have "b - a \<noteq> 0" by simp
  moreover have "b - (a + 1) = b - a - 1" by simp
  ultimately show ?thesis by (metis unat_minus_one)
qed

end
