(* ===== verification/Xv6_Console.thy ===== *)
theory Xv6_Console
  imports Ring_Buffer "HOL-Library.Monad_Syntax"
begin

text \<open>
  The console, \<^verbatim>\<open>hw3/xv6/console.c\<close>: formatted output, the text screen, and the line editing of
  the input. The bytes that leave through the serial port are recorded, the screen is the array of
  its 25 lines of 80 cells with the cursor register. \<open>None\<close> is a panic. Reading and writing by device
  files is in \<^verbatim>\<open>Xv6_Fs\<close>, since it takes and gives back the lock of the inode.
\<close>

definition INPUT_BUF :: nat where "INPUT_BUF = 128"
definition BACKSPACE :: int where "BACKSPACE = 0x100"

record console =
  c_buf :: bytes
  c_r :: u32
  c_w :: u32
  c_e :: u32
  c_panicked :: bool
  uart :: bool
  c_uart :: bytes
  c_crt :: "u16 list"
  c_pos :: int

definition str :: "string \<Rightarrow> bytes" where
  "str s = map of_char s"

section \<open>Output\<close>

text \<open>Without a serial port nothing is sent.\<close>

definition uartputc :: "int \<Rightarrow> console \<Rightarrow> console" where
  "uartputc ch c = (if \<not> uart c then c else c\<lparr>c_uart := c_uart c @ [word_of_int ch]\<rparr>)"

text \<open>
  The cell of a character in black on white. The screen is 25 lines of 80; an index outside of them
  would be a write to other memory and is \<open>None\<close>.
\<close>

definition cell :: "int \<Rightarrow> u16" where
  "cell ch = (word_of_int ch AND 0xff) OR 0x0700"

definition put_cell :: "int \<Rightarrow> u16 \<Rightarrow> u16 list \<Rightarrow> u16 list option" where
  "put_cell k v crt = (if 0 \<le> k \<and> k < 25 * 80 then Some (crt[nat k := v]) else None)"

text \<open>Lines 1 to 23 move up, and the cells from \<open>p\<close> to the end of line 23 are cleared.\<close>

definition scroll :: "nat \<Rightarrow> u16 list \<Rightarrow> u16 list" where
  "scroll p crt =
     (let crt = take (23 * 80) (drop 80 crt) @ drop (23 * 80) crt
      in take p crt @ replicate (24 * 80 - p) 0 @ drop (24 * 80) crt)"

definition cgaputc :: "int \<Rightarrow> console \<Rightarrow> console option" where
  "cgaputc ch c =
     do {
       let pos = c_pos c;
       (pos, crt) \<leftarrow>
         (if ch = 10 then Some (pos + (80 - pos mod 80), c_crt c)
          else if ch = BACKSPACE then Some (if pos > 0 then pos - 1 else pos, c_crt c)
          else do { crt \<leftarrow> put_cell pos (cell ch) (c_crt c); Some (pos + 1, crt) });
       if pos < 0 \<or> pos > 25 * 80 then None
       else do {
         let (pos, crt) = (if pos div 80 \<ge> 24 then (pos - 80, scroll (nat (pos - 80)) crt) else (pos, crt));
         crt \<leftarrow> put_cell pos (cell 32) crt;
         Some (c\<lparr>c_pos := pos, c_crt := crt\<rparr>)
       }
     }"

definition consputc :: "int \<Rightarrow> console \<Rightarrow> console option" where
  "consputc ch c =
     (if c_panicked c then None
      else if ch = BACKSPACE then cgaputc ch (uartputc 8 (uartputc 32 (uartputc 8 c)))
      else cgaputc ch (uartputc ch c))"

fun consputs :: "bytes \<Rightarrow> console \<Rightarrow> console option" where
  "consputs [] c = Some c"
| "consputs (b # bs) c = do { c \<leftarrow> consputc (uint b) c; consputs bs c }"

text \<open>The digits, lowest first. The bases in use are 10 and 16.\<close>

definition digit :: "nat \<Rightarrow> byte" where
  "digit d = str ''0123456789abcdef'' ! d"

function printint_loop :: "nat \<Rightarrow> nat \<Rightarrow> bytes" where
  "printint_loop base x = digit (x mod base) # (if 2 \<le> base \<and> x div base \<noteq> 0 then printint_loop base (x div base) else [])"
  by pat_completeness auto
termination
  by (relation "measure snd") (auto simp: div_eq_0_iff)

declare printint_loop.simps [simp del]

definition printint :: "u32 \<Rightarrow> nat \<Rightarrow> bool \<Rightarrow> bytes" where
  "printint xx base sign =
     (let neg = (sign \<and> sint xx < 0);
          x = (if neg then - xx else xx);
          buf = printint_loop base (unat x)
      in rev (if neg then buf @ str ''-'' else buf))"

text \<open>An argument is a word or a string; \<open>CStr None\<close> is the null pointer.\<close>

datatype carg = CInt u32 | CStr "bytes option"

fun cprintf_chars :: "bytes \<Rightarrow> carg list \<Rightarrow> bytes option" where
  "cprintf_chars [] args = Some []"
| "cprintf_chars (ch # fmt) args =
     (if ch = 0 then Some []
      else if ch \<noteq> 0x25 then map_option ((#) ch) (cprintf_chars fmt args)
      else
        (case fmt of
          [] \<Rightarrow> Some []
        | d # fmt \<Rightarrow>
            if d = 0 then Some []
            else if d = 0x64 then
              (case args of CInt x # args \<Rightarrow> map_option (append (printint x 10 True)) (cprintf_chars fmt args) | _ \<Rightarrow> None)
            else if d = 0x78 \<or> d = 0x70 then
              (case args of CInt x # args \<Rightarrow> map_option (append (printint x 16 False)) (cprintf_chars fmt args) | _ \<Rightarrow> None)
            else if d = 0x73 then
              (case args of
                CStr None # args \<Rightarrow> map_option (append (str ''(null)'')) (cprintf_chars fmt args)
              | CStr (Some s) # args \<Rightarrow> map_option (append (takeWhile (\<lambda>b. b \<noteq> 0) s)) (cprintf_chars fmt args)
              | _ \<Rightarrow> None)
            else if d = 0x25 then map_option ((#) 0x25) (cprintf_chars fmt args)
            else map_option (append [0x25, d]) (cprintf_chars fmt args)))"

definition cprintf :: "bytes \<Rightarrow> carg list \<Rightarrow> console \<Rightarrow> console option" where
  "cprintf fmt args c = do { out \<leftarrow> cprintf_chars fmt args; consputs out c }"

section \<open>Input\<close>

abbreviation slot :: "u32 \<Rightarrow> nat" where "slot k \<equiv> ring_slot INPUT_BUF k"

lemma cgaputc_keeps:
  "cgaputc ch c = Some c' \<Longrightarrow> c_buf c' = c_buf c \<and> c_r c' = c_r c \<and> c_w c' = c_w c \<and> c_e c' = c_e c \<and> c_uart c' = c_uart c \<and> uart c' = uart c \<and> c_panicked c' = c_panicked c"
  by (auto simp: cgaputc_def Let_def split: if_splits bind_splits)

lemma consputc_keeps:
  "consputc ch c = Some c' \<Longrightarrow> c_buf c' = c_buf c \<and> c_r c' = c_r c \<and> c_w c' = c_w c \<and> c_e c' = c_e c"
  by (auto simp: consputc_def uartputc_def split: if_splits dest!: cgaputc_keeps)

lemma unat_dec:
  assumes "(a :: u32) \<noteq> b"
  shows "unat (a - 1 - b) < unat (a - b)"
proof -
  have "a - b \<noteq> 0" using assms by simp
  then have "unat (a - b - 1) = unat (a - b) - 1" "0 < unat (a - b)" by (auto simp: unat_minus_one unat_gt_0)
  then show ?thesis unfolding diff_right_commute [of a 1 b] by linarith
qed

function kill_line :: "console \<Rightarrow> console option" where
  "kill_line c =
     (if c_e c \<noteq> c_w c \<and> c_buf c ! slot (c_e c - 1) \<noteq> 10 then
        do { c \<leftarrow> consputc BACKSPACE (c\<lparr>c_e := c_e c - 1\<rparr>); kill_line c }
      else Some c)"
  by pat_completeness auto
termination
  by (relation "measure (\<lambda>c. unat (c_e c - c_w c))") (auto dest!: consputc_keeps simp: unat_dec)

declare kill_line.simps [simp del]

text \<open>
  One character of input. The results are the console, whether the readers are woken, and whether
  the process listing was asked for.
\<close>

definition consoleintr_char :: "int \<Rightarrow> console \<Rightarrow> (console \<times> bool \<times> bool) option" where
  "consoleintr_char ch c =
     (if ch = 0x10 then Some (c, False, True)
      else if ch = 0x15 then do { c \<leftarrow> kill_line c; Some (c, False, False) }
      else if ch = 8 \<or> ch = 0x7f then
        (if c_e c \<noteq> c_w c then
           do { c \<leftarrow> consputc BACKSPACE (c\<lparr>c_e := c_e c - 1\<rparr>); Some (c, False, False) }
         else Some (c, False, False))
      else if ch \<noteq> 0 \<and> unat (c_e c - c_r c) < INPUT_BUF then
        do {
          let ch = (if ch = 13 then 10 else ch);
          let c = c\<lparr>c_buf := (c_buf c)[slot (c_e c) := word_of_int ch], c_e := c_e c + 1\<rparr>;
          c \<leftarrow> consputc ch c;
          if ch = 10 \<or> ch = 4 \<or> c_e c = c_r c + word_of_nat INPUT_BUF then Some (c\<lparr>c_w := c_e c\<rparr>, True, False)
          else Some (c, False, False)
        }
      else Some (c, False, False))"

text \<open>The characters that \<^verbatim>\<open>getc\<close> delivers before it has no more.\<close>

fun consoleintr :: "int list \<Rightarrow> console \<Rightarrow> (console \<times> bool \<times> bool) option" where
  "consoleintr [] c = Some (c, False, False)"
| "consoleintr (ch # cs) c =
     do {
       (c, wake, dump) \<leftarrow> consoleintr_char ch c;
       (c, wakes, dumps) \<leftarrow> consoleintr cs c;
       Some (c, wake \<or> wakes, dump \<or> dumps)
     }"

section \<open>The screen\<close>

text \<open>The cursor is inside of the first 24 lines and the screen has all of its cells.\<close>

definition screen_ok :: "console \<Rightarrow> bool" where
  "screen_ok c \<longleftrightarrow> length (c_crt c) = 25 * 80 \<and> 0 \<le> c_pos c \<and> c_pos c < 24 * 80"

lemma length_scroll: "length crt = 25 * 80 \<Longrightarrow> p \<le> 24 * 80 \<Longrightarrow> length (scroll p crt) = 25 * 80"
  by (simp add: scroll_def Let_def)

lemma newline_pos:
  assumes "0 \<le> (p :: int)" "p < 24 * 80"
  shows "p < p + (80 - p mod 80)" "p + (80 - p mod 80) \<le> 24 * 80"
proof -
  have "p mod 80 < 80" by simp
  then show "p < p + (80 - p mod 80)" by simp
  have "p = 80 * (p div 80) + p mod 80" by simp
  moreover have "p div 80 < 24" using assms by presburger
  ultimately show "p + (80 - p mod 80) \<le> 24 * 80" by linarith
qed

lemma cgaputc_ok:
  assumes "screen_ok c"
  shows "\<exists>c'. cgaputc ch c = Some c' \<and> screen_ok c'"
proof -
  have L: "length (c_crt c) = 25 * 80" and p: "0 \<le> c_pos c" "c_pos c < 24 * 80" using assms by (simp_all add: screen_ok_def)
  define q where "q = (if ch = 10 then c_pos c + (80 - c_pos c mod 80) else if ch = BACKSPACE then (if c_pos c > 0 then c_pos c - 1 else c_pos c) else c_pos c + 1)"
  define t where "t = (if ch = 10 \<or> ch = BACKSPACE then c_crt c else (c_crt c)[nat (c_pos c) := cell ch])"
  have q: "0 \<le> q" "q \<le> 24 * 80" using newline_pos [OF p] p by (auto simp: q_def)
  have t: "length t = 25 * 80" using L by (simp add: t_def)
  have div: "24 \<le> q div 80 \<longleftrightarrow> q = 24 * 80" using q by presburger
  have step: "cgaputc ch c = (if q < 0 \<or> q > 25 * 80 then None
      else do {
        let (pos, crt) = (if q div 80 \<ge> 24 then (q - 80, scroll (nat (q - 80)) t) else (q, t));
        crt \<leftarrow> put_cell pos (cell 32) crt;
        Some (c\<lparr>c_pos := pos, c_crt := crt\<rparr>) })"
    using p by (auto simp: cgaputc_def Let_def q_def t_def put_cell_def BACKSPACE_def)
  show ?thesis unfolding step using q t div
    by (cases "q = 24 * 80") (auto simp: put_cell_def screen_ok_def length_scroll Let_def)
qed

lemma consputc_ok:
  assumes "screen_ok c" "\<not> c_panicked c"
  shows "\<exists>c'. consputc ch c = Some c' \<and> screen_ok c' \<and> \<not> c_panicked c'"
proof -
  let ?u = "if ch = BACKSPACE then uartputc 8 (uartputc 32 (uartputc 8 c)) else uartputc ch c"
  have "screen_ok ?u" "\<not> c_panicked ?u" using assms by (auto simp: screen_ok_def uartputc_def)
  with cgaputc_ok [of ?u ch] obtain c' where "cgaputc ch ?u = Some c'" "screen_ok c'" "\<not> c_panicked c'" by (metis cgaputc_keeps)
  then show ?thesis using assms(2) by (auto simp: consputc_def split: if_splits)
qed

text \<open>C38. Output never leaves the screen: from a state with the cursor in the first 24 lines, in which the kernel has not
  panicked, every string is printed, no cell outside of the 25 lines of 80 is written, and the cursor is in the first 24
  lines again. The same bytes are sent to the serial port when there is one, and none when there is not.\<close>

theorem consputs_on_screen:
  assumes "screen_ok c" "\<not> c_panicked c"
  shows "\<exists>c'. consputs bs c = Some c' \<and> screen_ok c' \<and> uart c' = uart c \<and> c_uart c' = (if uart c then c_uart c @ bs else c_uart c)"
  using assms
proof (induction bs arbitrary: c)
  case (Cons b bs)
  let ?c = "uartputc (uint b) c"
  have "screen_ok ?c" using Cons.prems(1) by (simp add: screen_ok_def uartputc_def)
  from cgaputc_ok [OF this] obtain c1 where c1: "cgaputc (uint b) ?c = Some c1" "screen_ok c1" by blast
  have "uint b \<noteq> BACKSPACE" using uint_lt2p [of b] by (auto simp: BACKSPACE_def)
  then have "consputc (uint b) c = Some c1" using c1(1) Cons.prems(2) by (simp add: consputc_def)
  moreover have "\<not> c_panicked c1" "uart c1 = uart c" "c_uart c1 = (if uart c then c_uart c @ [b] else c_uart c)"
    using cgaputc_keeps [OF c1(1)] Cons.prems(2) by (simp_all add: uartputc_def)
  ultimately show ?case using Cons.IH [OF c1(2)] by auto
qed simp

section \<open>Line editing\<close>

interpretation inring: ring_buffer INPUT_BUF
  by unfold_locales (simp add: INPUT_BUF_def)

text \<open>What readers may take, and the line that is still edited.\<close>

definition ready :: "console \<Rightarrow> bytes" where
  "ready c = ring_seg INPUT_BUF (c_buf c) (c_r c) (unat (c_w c - c_r c))"

definition pending :: "console \<Rightarrow> bytes" where
  "pending c = ring_seg INPUT_BUF (c_buf c) (c_w c) (unat (c_e c - c_w c))"

definition con_ok :: "console \<Rightarrow> bool" where
  "con_ok c \<longleftrightarrow> screen_ok c \<and> \<not> c_panicked c \<and> length (c_buf c) = INPUT_BUF \<and> unat (c_e c - c_r c) \<le> INPUT_BUF \<and>
     unat (c_w c - c_r c) \<le> unat (c_e c - c_r c) \<and> 10 \<notin> set (pending c)"

text \<open>The editor as a specification, on the two sequences.\<close>

definition edit :: "int \<Rightarrow> bytes \<times> bytes \<Rightarrow> bytes \<times> bytes" where
  "edit ch = (\<lambda>(rdy, pend).
     if ch = 0x10 then (rdy, pend)
     else if ch = 0x15 then (rdy, [])
     else if ch = 8 \<or> ch = 0x7f then (rdy, butlast pend)
     else if ch \<noteq> 0 \<and> length rdy + length pend < INPUT_BUF then
       let ch = (if ch = 13 then 10 else ch); pend = pend @ [word_of_int ch]
       in if ch = 10 \<or> ch = 4 \<or> length rdy + length pend = INPUT_BUF then (rdy @ pend, []) else (rdy, pend)
     else (rdy, pend))"

lemma con_dist:
  assumes "unat (w - r :: u32) \<le> unat (e - r)"
  shows "unat (e - w) = unat (e - r) - unat (w - r)"
proof -
  have "w - r \<le> e - r" using assms by (simp add: word_le_nat_alt)
  from unat_sub [OF this] show ?thesis by simp
qed

text \<open>All of the unread input as one segment.\<close>

lemma ready_pending:
  assumes "unat (c_w c - c_r c) \<le> unat (c_e c - c_r c)"
  shows "ring_seg INPUT_BUF (c_buf c) (c_r c) (unat (c_e c - c_r c)) = ready c @ pending c"
    "length (ready c) + length (pending c) = unat (c_e c - c_r c)"
proof -
  have "unat (c_e c - c_r c) = unat (c_w c - c_r c) + unat (c_e c - c_w c)" using assms con_dist [OF assms] by simp
  then show "ring_seg INPUT_BUF (c_buf c) (c_r c) (unat (c_e c - c_r c)) = ready c @ pending c"
    "length (ready c) + length (pending c) = unat (c_e c - c_r c)"
    by (simp_all add: ready_def pending_def ring_seg_append)
qed

lemma pending_empty: "pending c = [] \<longleftrightarrow> c_e c = c_w c"
  by (auto simp: pending_def unat_eq_zero simp flip: length_0_conv)

lemma pending_last:
  assumes "c_e c \<noteq> c_w c"
  shows "pending c = pending (c\<lparr>c_e := c_e c - 1\<rparr>) @ [c_buf c ! slot (c_e c - 1)]"
proof -
  let ?n = "unat (c_e c - 1 - c_w c)"
  have "unat (c_e c - c_w c) = Suc ?n"
    using assms dist_inc [of "c_e c - 1" "c_w c"] unat_dec [OF assms] unat_less32 [of "c_e c - c_w c"] by simp
  moreover have "c_w c + word_of_nat ?n = c_e c - 1" by simp
  ultimately show ?thesis by (simp add: pending_def ring_seg_Suc)
qed

lemma back_ok:
  assumes "con_ok c" "c_e c \<noteq> c_w c"
  obtains c' where "consputc BACKSPACE (c\<lparr>c_e := c_e c - 1\<rparr>) = Some c'" "con_ok c'" "ready c' = ready c" "pending c' = butlast (pending c)"
    "c_e c' = c_e c - 1" "c_w c' = c_w c" "c_buf c' = c_buf c" "c_r c' = c_r c"
proof -
  let ?c = "c\<lparr>c_e := c_e c - 1\<rparr>"
  have "screen_ok ?c" "\<not> c_panicked ?c" using assms(1) by (auto simp: con_ok_def screen_ok_def)
  from consputc_ok [OF this, of BACKSPACE] obtain c' where c': "consputc BACKSPACE ?c = Some c'" "screen_ok c'" "\<not> c_panicked c'" by blast
  note k = consputc_keeps [OF c'(1)]
  have p: "pending c' = pending ?c" and r: "ready c' = ready c" using k by (simp_all add: pending_def ready_def)
  have "unat (c_e c - 1 - c_r c) < unat (c_e c - c_r c) \<or> c_e c = c_r c" using unat_dec by blast
  moreover have "c_e c \<noteq> c_r c" using assms by (auto simp: con_ok_def unat_eq_zero)
  moreover have "unat (c_w c - c_r c) < unat (c_e c - c_r c)"
    using assms by (auto simp: con_ok_def le_less word_unat_eq_iff [symmetric])
  moreover have "unat (c_e c - c_r c) = Suc (unat (c_e c - 1 - c_r c))"
    using dist_inc [of "c_e c - 1" "c_r c"] calculation unat_less32 [of "c_e c - c_r c"] by simp
  moreover have "10 \<notin> set (pending c')" using assms(1) pending_last [OF assms(2)] p by (auto simp: con_ok_def)
  ultimately have "con_ok c'" using assms(1) c'(2,3) k by (auto simp: con_ok_def)
  with that [OF c'(1)] r p k pending_last [OF assms(2)] show ?thesis by simp
qed

lemma kill_line_ok:
  "con_ok c \<Longrightarrow> \<exists>c'. kill_line c = Some c' \<and> con_ok c' \<and> ready c' = ready c \<and> pending c' = []"
proof (induction c rule: kill_line.induct)
  case (1 c)
  show ?case
  proof (cases "c_e c = c_w c")
    case True
    with 1(2) show ?thesis by (subst kill_line.simps) (simp add: pending_empty)
  next
    case False
    have "c_buf c ! slot (c_e c - 1) \<noteq> 10" using pending_last [OF False] 1(2) by (auto simp: con_ok_def)
    then have cond: "c_e c \<noteq> c_w c \<and> c_buf c ! slot (c_e c - 1) \<noteq> 10" using False by simp
    obtain c1 where c1: "consputc BACKSPACE (c\<lparr>c_e := c_e c - 1\<rparr>) = Some c1" "con_ok c1" "ready c1 = ready c" "pending c1 = butlast (pending c)"
      "c_e c1 = c_e c - 1" "c_w c1 = c_w c" "c_buf c1 = c_buf c" "c_r c1 = c_r c"
      by (rule back_ok [OF 1(2) False])
    from 1(1) [OF cond c1(1,2)] c1(1,3) cond show ?thesis by (subst kill_line.simps) simp
  qed
qed

lemma typed_ok:
  fixes b :: byte
  assumes "con_ok c" "unat (c_e c - c_r c) < INPUT_BUF"
  defines "d \<equiv> c\<lparr>c_buf := (c_buf c)[slot (c_e c) := b], c_e := c_e c + 1\<rparr>"
  shows "ready d = ready c" "pending d = pending c @ [b]" "unat (c_e d - c_r d) = Suc (unat (c_e c - c_r c))"
    "unat (c_w d - c_r d) \<le> unat (c_e d - c_r d)"
proof -
  have le: "unat (c_w c - c_r c) \<le> unat (c_e c - c_r c)" and len: "length (c_buf c) = INPUT_BUF" using assms(1) by (simp_all add: con_ok_def)
  have "unat (c_e c - c_r c) < 2 ^ 32 - 1" using assms(2) by (simp add: INPUT_BUF_def)
  from dist_inc [OF this] show n: "unat (c_e d - c_r d) = Suc (unat (c_e c - c_r c))" by (simp add: d_def)
  then show le': "unat (c_w d - c_r d) \<le> unat (c_e d - c_r d)" using le by (simp add: d_def)
  have "ring_seg INPUT_BUF (c_buf d) (c_r d) (unat (c_e d - c_r d)) = ring_seg INPUT_BUF (c_buf c) (c_r c) (unat (c_e c - c_r c)) @ [b]"
    unfolding n using inring.ring_push [OF assms(2) len, of "c_r c" b] by (simp add: d_def)
  then have "ready d @ pending d = ready c @ pending c @ [b]" using ready_pending(1) [OF le] ready_pending(1) [OF le'] by simp
  moreover have "length (ready d) = length (ready c)" by (simp add: ready_def d_def)
  ultimately show "ready d = ready c" "pending d = pending c @ [b]" by simp_all
qed

lemma ex_Not [simp]: "Ex Not"
  by (rule exI [of _ False]) simp

lemma typed_char:
  assumes "con_ok c" "0 \<le> ch" "ch < 256" "ch \<notin> {0, 8, 0x10, 0x15, 0x7f}"
  shows "\<exists>c' w d. consoleintr_char ch c = Some (c', w, d) \<and> con_ok c' \<and> (ready c', pending c') = edit ch (ready c, pending c) \<and>
    (w \<longleftrightarrow> ready c' \<noteq> ready c)"
proof (cases "unat (c_e c - c_r c) < INPUT_BUF")
  case False
  then have "consoleintr_char ch c = Some (c, False, False)" using assms(4) by (simp add: consoleintr_char_def)
  moreover have "\<not> length (ready c) + length (pending c) < INPUT_BUF" using False ready_pending(2) [of c] assms(1) by (simp add: con_ok_def)
  ultimately show ?thesis using assms by (intro exI [of _ c] exI [of _ False]) (simp add: edit_def)
next
  case True
  define x where "x = (if ch = 13 then 10 else ch)"
  define d where "d = c\<lparr>c_buf := (c_buf c)[slot (c_e c) := word_of_int x], c_e := c_e c + 1\<rparr>"
  note t = typed_ok [OF assms(1) True, of "word_of_int x", folded d_def]
  have le: "unat (c_w c - c_r c) \<le> unat (c_e c - c_r c)" and ok: "screen_ok d" "\<not> c_panicked d" using assms(1) by (simp_all add: con_ok_def d_def screen_ok_def)
  from consputc_ok [OF ok, of x] obtain d' where d': "consputc x d = Some d'" "screen_ok d'" "\<not> c_panicked d'" by blast
  note k = consputc_keeps [OF d'(1)]
  have rp: "ready d' = ready c" "pending d' = pending c @ [word_of_int x]" using t(1,2) k by (simp_all add: ready_def pending_def)
  have n: "unat (c_e d' - c_r d') = length (ready c) + length (pending c @ [word_of_int x])"
    using t(3) k ready_pending(2) [OF le] by simp
  have full: "c_e d' = c_r d' + word_of_nat INPUT_BUF \<longleftrightarrow> unat (c_e d' - c_r d') = INPUT_BUF"
    by (rule counter_eq) (simp add: INPUT_BUF_def)
  have lt: "length (ready c) + length (pending c) < INPUT_BUF" using True ready_pending(2) [OF le] by simp
  have base: "length (c_buf d') = INPUT_BUF" "unat (c_e d' - c_r d') \<le> INPUT_BUF" using assms(1) k n lt by (simp_all add: con_ok_def d_def)
  let ?commit = "x = 10 \<or> x = 4 \<or> unat (c_e d' - c_r d') = INPUT_BUF"
  have code: "consoleintr_char ch c = (if ?commit then Some (d'\<lparr>c_w := c_e d'\<rparr>, True, False) else Some (d', False, False))"
    using assms(4) True d'(1) full by (simp add: consoleintr_char_def Let_def x_def d_def)
  show ?thesis
  proof (cases ?commit)
    case True
    let ?f = "d'\<lparr>c_w := c_e d'\<rparr>"
    have f: "pending ?f = []" "ready ?f = ready c @ pending c @ [word_of_int x]"
      using ready_pending(1) [of d'] t(4) k rp by (simp_all add: pending_empty ready_def)
    have "con_ok ?f" using base d'(2,3) f(1) by (simp add: con_ok_def screen_ok_def)
    moreover have "edit ch (ready c, pending c) = (ready c @ pending c @ [word_of_int x], [])"
      using assms(4) lt True n by (simp add: edit_def x_def [symmetric] Let_def)
    ultimately show ?thesis using code True f by simp
  next
    case False
    have "word_of_int x \<noteq> (10 :: byte)"
    proof
      assume "word_of_int x = (10 :: byte)"
      then have "uint (word_of_int x :: byte) = 10" by simp
      moreover have "0 \<le> x" "x < 256" using assms(2,3) by (auto simp: x_def)
      ultimately show False using False by (simp add: uint_word_of_int)
    qed
    then have "con_ok d'" using base d'(2,3) rp t(4) k assms(1) by (simp add: con_ok_def)
    moreover have "edit ch (ready c, pending c) = (ready c, pending c @ [word_of_int x])"
      using assms(4) lt False n by (simp add: edit_def x_def [symmetric] Let_def)
    ultimately show ?thesis using code False rp by simp
  qed
qed

text \<open>C13. The input handler implements the line editor: on the bytes ready for readers and the line
  that is edited, every character acts as in the specification \<open>edit\<close>, and readers are woken exactly when
  there is more to read. Counters that wrap around make no difference.\<close>

theorem consoleintr_edits:
  assumes "con_ok c" "0 \<le> ch" "ch < 256"
  shows "\<exists>c' w d. consoleintr_char ch c = Some (c', w, d) \<and> con_ok c' \<and> (ready c', pending c') = edit ch (ready c, pending c) \<and>
    (w \<longleftrightarrow> ready c' \<noteq> ready c)"
proof (cases "ch \<in> {0, 8, 0x10, 0x15, 0x7f}")
  case False
  with typed_char assms show ?thesis by blast
next
  case True
  then consider "ch = 0 \<or> ch = 0x10" | "ch = 0x15" | "ch = 8 \<or> ch = 0x7f" by auto
  then show ?thesis
  proof cases
    case 1
    then show ?thesis using assms(1) by (auto simp: consoleintr_char_def edit_def)
  next
    case 2
    from kill_line_ok [OF assms(1)] 2 show ?thesis by (auto simp: consoleintr_char_def edit_def)
  next
    case 3
    show ?thesis
    proof (cases "c_e c = c_w c")
      case True
      with 3 assms(1) show ?thesis by (auto simp: consoleintr_char_def edit_def pending_empty [symmetric])
    next
      case False
      obtain c' where "consputc BACKSPACE (c\<lparr>c_e := c_e c - 1\<rparr>) = Some c'" "con_ok c'" "ready c' = ready c" "pending c' = butlast (pending c)"
        "c_e c' = c_e c - 1" "c_w c' = c_w c" "c_buf c' = c_buf c" "c_r c' = c_r c"
        by (rule back_ok [OF assms(1) False])
      with 3 False show ?thesis by (auto simp: consoleintr_char_def edit_def)
    qed
  qed
qed

text \<open>A console whose counters are about to wrap around.\<close>

definition late_console :: console where
  "late_console = \<lparr>c_buf = replicate INPUT_BUF 97, c_r = - 2, c_w = - 2, c_e = - 1, c_panicked = False, uart = True, c_uart = [],
     c_crt = replicate (25 * 80) 0, c_pos = 0\<rparr>"

lemma late_ok: "con_ok late_console" "ready late_console = []" "pending late_console = [97]"
proof -
  have p: "pending late_console = [97]"
    using inring.slot_less [of "- 2"] by (simp add: pending_def late_console_def ring_seg_def)
  then show "con_ok late_console" by (simp add: con_ok_def late_console_def screen_ok_def INPUT_BUF_def)
  show "ready late_console = []" "pending late_console = [97]" using p by (simp_all add: ready_def late_console_def)
qed

theorem consoleintr_edits_witness:
  "\<exists>c' w d. consoleintr_char 13 late_console = Some (c', w, d) \<and> con_ok c' \<and> ready c' = [97, 10] \<and> pending c' = [] \<and> w"
  using consoleintr_edits [OF late_ok(1), of 13] late_ok(2,3) by (auto simp: edit_def INPUT_BUF_def)

theorem consputs_on_screen_witness:
  "\<exists>c'. consputs [104, 105, 10] late_console = Some c' \<and> screen_ok c' \<and> c_uart c' = [104, 105, 10]"
  using consputs_on_screen [of late_console "[104, 105, 10]"] by (auto simp: late_console_def screen_ok_def)

end
