(* ===== verification/Xv6_Inode.thy ===== *)
theory Xv6_Inode
  imports Xv6_Log Xv6_Console
begin

text \<open>
  Blocks and inodes, the lower half of \<^verbatim>\<open>hw3/xv6/fs.c\<close>: the block bitmap, the inode cache, and the map
  from the blocks of a file to the blocks of the disk. An inode pointer is the index of its cache entry. \<open>None\<close> is a panic,
  or a wait for a lock that is held. The state holds the buffer cache, the log, the super
  block, the inode cache, and the console that device files lead to. A \<^verbatim>\<open>uint\<close> is a number below 2 to the 32; the
  block numbers and inode numbers here never reach that bound. A \<^verbatim>\<open>short\<close> is a word.
\<close>

definition NINODE :: nat where "NINODE = 50"
definition NDIRECT :: nat where "NDIRECT = 12"
definition NINDIRECT :: nat where "NINDIRECT = BSIZE div 4"
definition MAXFILE :: nat where "MAXFILE = NDIRECT + NINDIRECT"
definition IPB :: nat where "IPB = BSIZE div 64"
definition IBLOCK :: "nat \<Rightarrow> superblock \<Rightarrow> nat" where "IBLOCK i sb = i div IPB + sb_inodestart sb"
definition BPB :: nat where "BPB = BSIZE * 8"
definition BBLOCK :: "nat \<Rightarrow> superblock \<Rightarrow> nat" where "BBLOCK b sb = b div BPB + sb_bmapstart sb"
definition T_DIR :: u16 where "T_DIR = 1"
definition T_FILE :: u16 where "T_FILE = 2"
definition T_DEV :: u16 where "T_DEV = 3"

record inode =
  i_dev :: nat
  i_inum :: nat
  i_ref :: int
  i_lock :: sleeplock
  i_valid :: bool
  i_type :: u16
  i_major :: u16
  i_minor :: u16
  i_nlink :: u16
  i_size :: nat
  i_addrs :: "nat list"

record fsys =
  io :: bio
  lg :: log
  sb :: superblock
  icache :: "inode list"
  con :: console

abbreviation ino :: "fsys \<Rightarrow> nat \<Rightarrow> inode" where "ino s ip \<equiv> icache s ! ip"

abbreviation upd_ino :: "nat \<Rightarrow> (inode \<Rightarrow> inode) \<Rightarrow> fsys \<Rightarrow> fsys" where
  "upd_ino ip f s \<equiv> s\<lparr>icache := (icache s)[ip := f (icache s ! ip)]\<rparr>"

section \<open>Buffers of the file system\<close>

definition fbread :: "int \<Rightarrow> nat \<Rightarrow> nat \<Rightarrow> fsys \<Rightarrow> (nat \<times> fsys) option" where
  "fbread me dev b s = do { (i, x) \<leftarrow> bread me dev b (io s); Some (i, s\<lparr>io := x\<rparr>) }"

definition fbrelse :: "int \<Rightarrow> nat \<Rightarrow> fsys \<Rightarrow> fsys option" where
  "fbrelse me i s = do { x \<leftarrow> brelse me i (io s); Some (s\<lparr>io := x\<rparr>) }"

definition flog_write :: "nat \<Rightarrow> fsys \<Rightarrow> fsys option" where
  "flog_write i s = do { (l, x) \<leftarrow> log_write i (lg s) (io s); Some (s\<lparr>lg := l, io := x\<rparr>) }"

definition freadsb :: "int \<Rightarrow> nat \<Rightarrow> fsys \<Rightarrow> fsys option" where
  "freadsb me dev s = do { (b, x) \<leftarrow> readsb me dev (io s); Some (s\<lparr>sb := b, io := x\<rparr>) }"

abbreviation bdata :: "fsys \<Rightarrow> nat \<Rightarrow> bytes" where "bdata s i \<equiv> b_data (bufs (io s) ! i)"

abbreviation put_bdata :: "nat \<Rightarrow> bytes \<Rightarrow> fsys \<Rightarrow> fsys" where "put_bdata i d s \<equiv> s\<lparr>io := set_data i d (io s)\<rparr>"

section \<open>Blocks\<close>

definition bzero :: "int \<Rightarrow> nat \<Rightarrow> nat \<Rightarrow> fsys \<Rightarrow> fsys option" where
  "bzero me dev bno s =
     do {
       (bp, s) \<leftarrow> fbread me dev bno s;
       s \<leftarrow> flog_write bp (put_bdata bp (replicate BSIZE 0) s);
       fbrelse me bp s
     }"

text \<open>The bit of a block in a block of the bitmap.\<close>

definition bmask :: "nat \<Rightarrow> byte" where
  "bmask bi = push_bit (bi mod 8) 1"

definition bit_free :: "bytes \<Rightarrow> nat \<Rightarrow> bool" where
  "bit_free d bi \<longleftrightarrow> d ! (bi div 8) AND bmask bi = 0"

definition bit_take :: "nat \<Rightarrow> bytes \<Rightarrow> bytes" where
  "bit_take bi d = d[bi div 8 := d ! (bi div 8) OR bmask bi]"

definition bit_give :: "nat \<Rightarrow> bytes \<Rightarrow> bytes" where
  "bit_give bi d = d[bi div 8 := d ! (bi div 8) AND NOT (bmask bi)]"

text \<open>The outer loop of \<^verbatim>\<open>balloc\<close>; \<open>sz\<close> is \<^verbatim>\<open>sb.size\<close>, which the loop does not change.\<close>

function balloc_loop :: "int \<Rightarrow> nat \<Rightarrow> nat \<Rightarrow> nat \<Rightarrow> fsys \<Rightarrow> (nat \<times> fsys) option" where
  "balloc_loop me dev sz b s =
     (if b < sz then
        do {
          (bp, s) \<leftarrow> fbread me dev (BBLOCK b (sb s)) s;
          case find (\<lambda>bi. bit_free (bdata s bp) bi) [0..<min BPB (sz - b)] of
            Some bi \<Rightarrow>
              do {
                s \<leftarrow> flog_write bp (put_bdata bp (bit_take bi (bdata s bp)) s);
                s \<leftarrow> fbrelse me bp s;
                s \<leftarrow> bzero me dev (b + bi) s;
                Some (b + bi, s)
              }
          | None \<Rightarrow> do { s \<leftarrow> fbrelse me bp s; balloc_loop me dev sz (b + BPB) s }
        }
      else None)"
  by pat_completeness auto
termination
  by (relation "measure (\<lambda>(me, dev, sz, b, s). sz - b)") (auto simp: BPB_def BSIZE_def)

declare balloc_loop.simps [simp del]

definition balloc :: "int \<Rightarrow> nat \<Rightarrow> fsys \<Rightarrow> (nat \<times> fsys) option" where
  "balloc me dev s = balloc_loop me dev (sb_size (sb s)) 0 s"

definition bfree :: "int \<Rightarrow> nat \<Rightarrow> nat \<Rightarrow> fsys \<Rightarrow> fsys option" where
  "bfree me dev b s =
     do {
       s \<leftarrow> freadsb me dev s;
       (bp, s) \<leftarrow> fbread me dev (BBLOCK b (sb s)) s;
       let bi = b mod BPB;
       if bit_free (bdata s bp) bi then None
       else do {
         s \<leftarrow> flog_write bp (put_bdata bp (bit_give bi (bdata s bp)) s);
         fbrelse me bp s
       }
     }"

section \<open>Inodes\<close>

definition iinit :: "int \<Rightarrow> nat \<Rightarrow> fsys \<Rightarrow> fsys option" where
  "iinit me dev s =
     do {
       s \<leftarrow> freadsb me dev (s\<lparr>icache := map (\<lambda>ip. ip\<lparr>i_lock := initsleeplock (i_lock ip)\<rparr>) (icache s)\<rparr>);
       c \<leftarrow> cprintf (str ''sb: size %d nblocks %d ninodes %d nlog %d logstart %d inodestart %d bmap start %d'' @ [10])
         (map (\<lambda>f. CInt (word_of_nat (f (sb s))))
           [sb_size, sb_nblocks, sb_ninodes, sb_nlog, sb_logstart, sb_inodestart, sb_bmapstart]) (con s);
       Some (s\<lparr>con := c\<rparr>)
     }"

text \<open>The 64 bytes of an inode on disk, and its fields in memory.\<close>

definition dinode_bytes :: "inode \<Rightarrow> bytes" where
  "dinode_bytes ip = le16 (i_type ip) @ le16 (i_major ip) @ le16 (i_minor ip) @ le16 (i_nlink ip) @
     le32 (word_of_nat (i_size ip)) @ concat (map (\<lambda>a. le32 (word_of_nat a)) (i_addrs ip))"

definition dinode_read :: "bytes \<Rightarrow> inode \<Rightarrow> inode" where
  "dinode_read d ip = ip\<lparr>i_type := de16 (dread 0 2 d), i_major := de16 (dread 2 2 d), i_minor := de16 (dread 4 2 d),
     i_nlink := de16 (dread 6 2 d), i_size := field32 2 d, i_addrs := map (\<lambda>k. field32 (k + 3) d) [0..<NDIRECT + 1]\<rparr>"

abbreviation dpos :: "nat \<Rightarrow> nat" where "dpos inum \<equiv> 64 * (inum mod IPB)"

definition iget :: "nat \<Rightarrow> nat \<Rightarrow> fsys \<Rightarrow> (nat \<times> fsys) option" where
  "iget dev inum s =
     (case first_idx (\<lambda>ip. i_ref ip > 0 \<and> i_dev ip = dev \<and> i_inum ip = inum) (icache s) of
       Some ip \<Rightarrow> Some (ip, upd_ino ip (\<lambda>i. i\<lparr>i_ref := i_ref i + 1\<rparr>) s)
     | None \<Rightarrow>
         (case first_idx (\<lambda>ip. i_ref ip = 0) (icache s) of
           None \<Rightarrow> None
         | Some ip \<Rightarrow> Some (ip, upd_ino ip (\<lambda>i. i\<lparr>i_dev := dev, i_inum := inum, i_ref := 1, i_valid := False\<rparr>) s)))"

fun ialloc_loop :: "int \<Rightarrow> nat \<Rightarrow> u16 \<Rightarrow> nat list \<Rightarrow> fsys \<Rightarrow> (nat \<times> fsys) option" where
  "ialloc_loop me dev type [] s = None"
| "ialloc_loop me dev type (inum # is) s =
     do {
       (bp, s) \<leftarrow> fbread me dev (IBLOCK inum (sb s)) s;
       if de16 (dread (dpos inum) 2 (bdata s bp)) = 0 then
         do {
           let d = dwrite (dpos inum) (replicate 64 0) (bdata s bp);
           s \<leftarrow> flog_write bp (put_bdata bp (dwrite (dpos inum) (le16 type) d) s);
           s \<leftarrow> fbrelse me bp s;
           iget dev inum s
         }
       else do { s \<leftarrow> fbrelse me bp s; ialloc_loop me dev type is s }
     }"

definition ialloc :: "int \<Rightarrow> nat \<Rightarrow> u16 \<Rightarrow> fsys \<Rightarrow> (nat \<times> fsys) option" where
  "ialloc me dev type s = ialloc_loop me dev type [1..<sb_ninodes (sb s)] s"

definition iupdate :: "int \<Rightarrow> nat \<Rightarrow> fsys \<Rightarrow> fsys option" where
  "iupdate me ip s =
     do {
       let inum = i_inum (ino s ip);
       (bp, s) \<leftarrow> fbread me (i_dev (ino s ip)) (IBLOCK inum (sb s)) s;
       s \<leftarrow> flog_write bp (put_bdata bp (dwrite (dpos inum) (dinode_bytes (ino s ip)) (bdata s bp)) s);
       fbrelse me bp s
     }"

definition idup :: "nat \<Rightarrow> fsys \<Rightarrow> fsys" where
  "idup ip s = upd_ino ip (\<lambda>i. i\<lparr>i_ref := i_ref i + 1\<rparr>) s"

definition ilock :: "int \<Rightarrow> nat \<Rightarrow> fsys \<Rightarrow> fsys option" where
  "ilock me ip s =
     (if i_ref (ino s ip) < 1 then None
      else do {
        lk \<leftarrow> acquiresleep me (i_lock (ino s ip));
        let s = upd_ino ip (\<lambda>i. i\<lparr>i_lock := lk\<rparr>) s;
        if \<not> i_valid (ino s ip) then
          do {
            let inum = i_inum (ino s ip);
            (bp, s) \<leftarrow> fbread me (i_dev (ino s ip)) (IBLOCK inum (sb s)) s;
            let s = upd_ino ip (dinode_read (dread (dpos inum) 64 (bdata s bp))) s;
            s \<leftarrow> fbrelse me bp s;
            let s = upd_ino ip (\<lambda>i. i\<lparr>i_valid := True\<rparr>) s;
            if i_type (ino s ip) = 0 then None else Some s
          }
        else Some s
      })"

definition iunlock :: "int \<Rightarrow> nat \<Rightarrow> fsys \<Rightarrow> fsys option" where
  "iunlock me ip s =
     (if \<not> holdingsleep me (i_lock (ino s ip)) \<or> i_ref (ino s ip) < 1 then None
      else Some (upd_ino ip (\<lambda>i. i\<lparr>i_lock := releasesleep (i_lock i)\<rparr>) s))"

section \<open>The blocks of a file\<close>

definition bmap :: "int \<Rightarrow> nat \<Rightarrow> nat \<Rightarrow> fsys \<Rightarrow> (nat \<times> fsys) option" where
  "bmap me ip bn s =
     (if bn < NDIRECT then
        (if i_addrs (ino s ip) ! bn = 0 then
           do {
             (addr, s) \<leftarrow> balloc me (i_dev (ino s ip)) s;
             Some (addr, upd_ino ip (\<lambda>i. i\<lparr>i_addrs := (i_addrs i)[bn := addr]\<rparr>) s)
           }
         else Some (i_addrs (ino s ip) ! bn, s))
      else if bn - NDIRECT < NINDIRECT then
        do {
          (addr, s) \<leftarrow>
            (if i_addrs (ino s ip) ! NDIRECT = 0 then
               do {
                 (addr, s) \<leftarrow> balloc me (i_dev (ino s ip)) s;
                 Some (addr, upd_ino ip (\<lambda>i. i\<lparr>i_addrs := (i_addrs i)[NDIRECT := addr]\<rparr>) s)
               }
             else Some (i_addrs (ino s ip) ! NDIRECT, s));
          (bp, s) \<leftarrow> fbread me (i_dev (ino s ip)) addr s;
          (addr, s) \<leftarrow>
            (if field32 (bn - NDIRECT) (bdata s bp) = 0 then
               do {
                 (addr, s) \<leftarrow> balloc me (i_dev (ino s ip)) s;
                 s \<leftarrow> flog_write bp (put_bdata bp (dwrite (4 * (bn - NDIRECT)) (le32 (word_of_nat addr)) (bdata s bp)) s);
                 Some (addr, s)
               }
             else Some (field32 (bn - NDIRECT) (bdata s bp), s));
          s \<leftarrow> fbrelse me bp s;
          Some (addr, s)
        }
      else None)"

fun itrunc_direct :: "int \<Rightarrow> nat \<Rightarrow> nat list \<Rightarrow> fsys \<Rightarrow> fsys option" where
  "itrunc_direct me ip [] s = Some s"
| "itrunc_direct me ip (i # is) s =
     (if i_addrs (ino s ip) ! i \<noteq> 0 then
        do {
          s \<leftarrow> bfree me (i_dev (ino s ip)) (i_addrs (ino s ip) ! i) s;
          itrunc_direct me ip is (upd_ino ip (\<lambda>x. x\<lparr>i_addrs := (i_addrs x)[i := 0]\<rparr>) s)
        }
      else itrunc_direct me ip is s)"

text \<open>The loop reads the entries from the buffer \<open>bp\<close> it holds.\<close>

fun itrunc_indirect :: "int \<Rightarrow> nat \<Rightarrow> nat \<Rightarrow> nat list \<Rightarrow> fsys \<Rightarrow> fsys option" where
  "itrunc_indirect me dev bp [] s = Some s"
| "itrunc_indirect me dev bp (j # js) s =
     (if field32 j (bdata s bp) \<noteq> 0 then
        do { s \<leftarrow> bfree me dev (field32 j (bdata s bp)) s; itrunc_indirect me dev bp js s }
      else itrunc_indirect me dev bp js s)"

definition itrunc :: "int \<Rightarrow> nat \<Rightarrow> fsys \<Rightarrow> fsys option" where
  "itrunc me ip s =
     do {
       s \<leftarrow> itrunc_direct me ip [0..<NDIRECT] s;
       s \<leftarrow>
         (if i_addrs (ino s ip) ! NDIRECT \<noteq> 0 then
            do {
              let dev = i_dev (ino s ip);
              let a = i_addrs (ino s ip) ! NDIRECT;
              (bp, s) \<leftarrow> fbread me dev a s;
              s \<leftarrow> itrunc_indirect me dev bp [0..<NINDIRECT] s;
              s \<leftarrow> fbrelse me bp s;
              s \<leftarrow> bfree me dev a s;
              Some (upd_ino ip (\<lambda>x. x\<lparr>i_addrs := (i_addrs x)[NDIRECT := 0]\<rparr>) s)
            }
          else Some s);
       iupdate me ip (upd_ino ip (\<lambda>x. x\<lparr>i_size := 0\<rparr>) s)
     }"

definition iput :: "int \<Rightarrow> nat \<Rightarrow> fsys \<Rightarrow> fsys option" where
  "iput me ip s =
     do {
       lk \<leftarrow> acquiresleep me (i_lock (ino s ip));
       let s = upd_ino ip (\<lambda>i. i\<lparr>i_lock := lk\<rparr>) s;
       s \<leftarrow>
         (if i_valid (ino s ip) \<and> i_nlink (ino s ip) = 0 \<and> i_ref (ino s ip) = 1 then
            do {
              s \<leftarrow> itrunc me ip s;
              s \<leftarrow> iupdate me ip (upd_ino ip (\<lambda>i. i\<lparr>i_type := 0\<rparr>) s);
              Some (upd_ino ip (\<lambda>i. i\<lparr>i_valid := False\<rparr>) s)
            }
          else Some s);
       Some (upd_ino ip (\<lambda>i. i\<lparr>i_lock := releasesleep (i_lock i), i_ref := i_ref i - 1\<rparr>) s)
     }"

definition iunlockput :: "int \<Rightarrow> nat \<Rightarrow> fsys \<Rightarrow> fsys option" where
  "iunlockput me ip s = do { s \<leftarrow> iunlock me ip s; iput me ip s }"

end
