(* ===== verification/Xv6_Fs.thy ===== *)
theory Xv6_Fs
  imports Xv6_Inode
begin

text \<open>
  Contents of files, directories and path names, the upper half of \<^verbatim>\<open>hw3/xv6/fs.c\<close>, with reading
  and writing of the console by device files (\<^verbatim>\<open>console.c\<close>). A routine that fills a buffer of its
  caller returns the bytes; \<open>me\<close> is the pid of the process that calls and \<open>kd\<close> whether it has been
  killed. A path and a name are the bytes before the terminating NUL, of a name at most \<^verbatim>\<open>DIRSIZ\<close>.
\<close>

definition NDEV :: nat where "NDEV = 10"
definition CONSOLE :: nat where "CONSOLE = 1"
definition DIRSIZ :: nat where "DIRSIZ = 14"
definition ROOTDEV :: nat where "ROOTDEV = 1"
definition ROOTINO :: nat where "ROOTINO = 1"

section \<open>The console as a file\<close>

text \<open>
  The loop of \<^verbatim>\<open>consoleread\<close> with \<open>n\<close> bytes to go of \<open>target\<close>: the bytes stored, whether the process was killed
  while it waited, and the console; \<open>None\<close> when it goes to sleep.
\<close>

fun consoleread_loop :: "bool \<Rightarrow> nat \<Rightarrow> nat \<Rightarrow> console \<Rightarrow> (bytes \<times> bool \<times> console) option" where
  "consoleread_loop kd target 0 c = Some ([], False, c)"
| "consoleread_loop kd target (Suc n) c =
     (if c_r c = c_w c then (if kd then Some ([], True, c) else None)
      else
        let ch = c_buf c ! slot (c_r c); c' = c\<lparr>c_r := c_r c + 1\<rparr> in
        if ch = 4 then Some ([], False, if Suc n < target then c else c')
        else if ch = 10 then Some ([ch], False, c')
        else do { (bs, k, c') \<leftarrow> consoleread_loop kd target n c'; Some (ch # bs, k, c') })"

definition consoleread :: "int \<Rightarrow> bool \<Rightarrow> nat \<Rightarrow> int \<Rightarrow> fsys \<Rightarrow> (int \<times> bytes \<times> fsys) option" where
  "consoleread me kd ip n s =
     do {
       s \<leftarrow> iunlock me ip s;
       (bs, k, c) \<leftarrow> consoleread_loop kd (nat n) (nat n) (con s);
       s \<leftarrow> ilock me ip (s\<lparr>con := c\<rparr>);
       Some (if k then - 1 else int (length bs), bs, s)
     }"

definition consolewrite :: "int \<Rightarrow> nat \<Rightarrow> bytes \<Rightarrow> fsys \<Rightarrow> (int \<times> fsys) option" where
  "consolewrite me ip buf s =
     do {
       s \<leftarrow> iunlock me ip s;
       c \<leftarrow> consputs buf (con s);
       s \<leftarrow> ilock me ip (s\<lparr>con := c\<rparr>);
       Some (int (length buf), s)
     }"

section \<open>Reading and writing\<close>

record stat =
  st_type :: u16
  st_dev :: nat
  st_ino :: nat
  st_nlink :: u16
  st_size :: nat

definition stati :: "inode \<Rightarrow> stat" where
  "stati ip = \<lparr>st_type = i_type ip, st_dev = i_dev ip, st_ino = i_inum ip, st_nlink = i_nlink ip, st_size = i_size ip\<rparr>"

text \<open>The device functions: only the console has any.\<close>

definition has_dev :: "u16 \<Rightarrow> bool" where
  "has_dev major \<longleftrightarrow> \<not> (sint major < 0 \<or> sint major \<ge> int NDEV \<or> sint major \<noteq> int CONSOLE)"

function readi_loop :: "int \<Rightarrow> nat \<Rightarrow> nat \<Rightarrow> nat \<Rightarrow> fsys \<Rightarrow> (bytes \<times> fsys) option" where
  "readi_loop me ip off n s =
     (if n = 0 then Some ([], s)
      else do {
        (b, s) \<leftarrow> bmap me ip (off div BSIZE) s;
        (bp, s) \<leftarrow> fbread me (i_dev (ino s ip)) b s;
        let m = min n (BSIZE - off mod BSIZE);
        let d = dread (off mod BSIZE) m (bdata s bp);
        s \<leftarrow> fbrelse me bp s;
        (ds, s) \<leftarrow> readi_loop me ip (off + m) (n - m) s;
        Some (d @ ds, s)
      })"
  by pat_completeness auto
termination
  by (relation "measure (\<lambda>(me, ip, off, n, s). n)") (auto simp: BSIZE_def)

declare readi_loop.simps [simp del]

definition readi :: "int \<Rightarrow> bool \<Rightarrow> nat \<Rightarrow> nat \<Rightarrow> nat \<Rightarrow> fsys \<Rightarrow> (int \<times> bytes \<times> fsys) option" where
  "readi me kd ip off n s =
     (if i_type (ino s ip) = T_DEV then
        (if has_dev (i_major (ino s ip)) then consoleread me kd ip (sint (word_of_nat n :: u32)) s else Some (- 1, [], s))
      else if off > i_size (ino s ip) \<or> (off + n) mod 2 ^ 32 < off then Some (- 1, [], s)
      else
        let n = (if (off + n) mod 2 ^ 32 > i_size (ino s ip) then i_size (ino s ip) - off else n)
        in do { (bs, s) \<leftarrow> readi_loop me ip off n s; Some (int n, bs, s) })"

function writei_loop :: "int \<Rightarrow> nat \<Rightarrow> bytes \<Rightarrow> nat \<Rightarrow> fsys \<Rightarrow> fsys option" where
  "writei_loop me ip src off s =
     (if src = [] then Some s
      else do {
        (b, s) \<leftarrow> bmap me ip (off div BSIZE) s;
        (bp, s) \<leftarrow> fbread me (i_dev (ino s ip)) b s;
        let m = min (length src) (BSIZE - off mod BSIZE);
        s \<leftarrow> flog_write bp (put_bdata bp (dwrite (off mod BSIZE) (take m src) (bdata s bp)) s);
        s \<leftarrow> fbrelse me bp s;
        writei_loop me ip (drop m src) (off + m) s
      })"
  by pat_completeness auto
termination
  by (relation "measure (\<lambda>(me, ip, src, off, s). length src)") (auto simp: BSIZE_def)

declare writei_loop.simps [simp del]

definition writei :: "int \<Rightarrow> nat \<Rightarrow> bytes \<Rightarrow> nat \<Rightarrow> fsys \<Rightarrow> (int \<times> fsys) option" where
  "writei me ip src off s =
     (if i_type (ino s ip) = T_DEV then
        (if has_dev (i_major (ino s ip)) then consolewrite me ip src s else Some (- 1, s))
      else if off > i_size (ino s ip) \<or> (off + length src) mod 2 ^ 32 < off then Some (- 1, s)
      else if (off + length src) mod 2 ^ 32 > MAXFILE * BSIZE then Some (- 1, s)
      else do {
        s \<leftarrow> writei_loop me ip src off s;
        let off = off + length src;
        s \<leftarrow>
          (if src \<noteq> [] \<and> off > i_size (ino s ip) then iupdate me ip (upd_ino ip (\<lambda>i. i\<lparr>i_size := off\<rparr>) s)
           else Some s);
        Some (int (length src), s)
      })"

section \<open>Directories\<close>

text \<open>\<^verbatim>\<open>strncmp\<close> of \<^verbatim>\<open>string.c\<close> on strings whose NUL is behind the bytes.\<close>

definition char_at :: "bytes \<Rightarrow> byte" where
  "char_at p = (case p of [] \<Rightarrow> 0 | b # _ \<Rightarrow> b)"

primrec strncmp_bytes :: "nat \<Rightarrow> bytes \<Rightarrow> bytes \<Rightarrow> int" where
  "strncmp_bytes 0 p q = 0"
| "strncmp_bytes (Suc n) p q =
     (if char_at p \<noteq> 0 \<and> char_at p = char_at q then strncmp_bytes n (tl p) (tl q)
      else uint (char_at p) - uint (char_at q))"

definition namecmp :: "bytes \<Rightarrow> bytes \<Rightarrow> int" where
  "namecmp s t = strncmp_bytes DIRSIZ s t"

text \<open>A directory entry is 16 bytes, the number of an inode and a name.\<close>

definition de_inum :: "bytes \<Rightarrow> nat" where
  "de_inum de = unat (de16 de)"

definition de_name :: "bytes \<Rightarrow> bytes" where
  "de_name de = drop 2 de"

function dirlookup_loop :: "int \<Rightarrow> bool \<Rightarrow> nat \<Rightarrow> bytes \<Rightarrow> nat \<Rightarrow> nat \<Rightarrow> fsys \<Rightarrow> ((nat \<times> nat) option \<times> fsys) option" where
  "dirlookup_loop me kd dp name sz off s =
     (if off < sz then
        do {
          (r, de, s) \<leftarrow> readi me kd dp off 16 s;
          if r \<noteq> 16 then None
          else if de_inum de \<noteq> 0 \<and> namecmp name (de_name de) = 0 then
            do { (ip, s) \<leftarrow> iget (i_dev (ino s dp)) (de_inum de) s; Some (Some (ip, off), s) }
          else dirlookup_loop me kd dp name sz (off + 16) s
        }
      else Some (None, s))"
  by pat_completeness auto
termination
  by (relation "measure (\<lambda>(me, kd, dp, name, sz, off, s). sz - off)") auto

declare dirlookup_loop.simps [simp del]

definition dirlookup :: "int \<Rightarrow> bool \<Rightarrow> nat \<Rightarrow> bytes \<Rightarrow> fsys \<Rightarrow> ((nat \<times> nat) option \<times> fsys) option" where
  "dirlookup me kd dp name s =
     (if i_type (ino s dp) \<noteq> T_DIR then None else dirlookup_loop me kd dp name (i_size (ino s dp)) 0 s)"

function dirlink_slot :: "int \<Rightarrow> bool \<Rightarrow> nat \<Rightarrow> nat \<Rightarrow> nat \<Rightarrow> fsys \<Rightarrow> (nat \<times> fsys) option" where
  "dirlink_slot me kd dp sz off s =
     (if off < sz then
        do {
          (r, de, s) \<leftarrow> readi me kd dp off 16 s;
          if r \<noteq> 16 then None
          else if de_inum de = 0 then Some (off, s)
          else dirlink_slot me kd dp sz (off + 16) s
        }
      else Some (off, s))"
  by pat_completeness auto
termination
  by (relation "measure (\<lambda>(me, kd, dp, sz, off, s). sz - off)") auto

declare dirlink_slot.simps [simp del]

definition dirent :: "bytes \<Rightarrow> nat \<Rightarrow> bytes" where
  "dirent name inum = le16 (word_of_nat inum) @ take DIRSIZ (name @ replicate DIRSIZ 0)"

definition dirlink :: "int \<Rightarrow> bool \<Rightarrow> nat \<Rightarrow> bytes \<Rightarrow> nat \<Rightarrow> fsys \<Rightarrow> (int \<times> fsys) option" where
  "dirlink me kd dp name inum s =
     do {
       (r, s) \<leftarrow> dirlookup me kd dp name s;
       case r of
         Some (ip, _) \<Rightarrow> do { s \<leftarrow> iput me ip s; Some (- 1, s) }
       | None \<Rightarrow>
           do {
             (off, s) \<leftarrow> dirlink_slot me kd dp (i_size (ino s dp)) 0 s;
             (r, s) \<leftarrow> writei me dp (dirent name inum) off s;
             if r \<noteq> 16 then None else Some (0, s)
           }
     }"

section \<open>Paths\<close>

definition skipelem :: "bytes \<Rightarrow> (bytes \<times> bytes) option" where
  "skipelem path =
     (let path = dropWhile (\<lambda>b. b = 0x2f) path in
      if path = [] then None
      else
        let s = takeWhile (\<lambda>b. b \<noteq> 0x2f) path;
            path = dropWhile (\<lambda>b. b \<noteq> 0x2f) path;
            name = take DIRSIZ s
        in Some (dropWhile (\<lambda>b. b = 0x2f) path, name))"

lemma skipelem_shorter:
  assumes "skipelem path = Some (rest, name)"
  shows "length rest < length path"
proof -
  let ?p = "dropWhile (\<lambda>b. b = 0x2f) path"
  have p: "?p \<noteq> []" "rest = dropWhile (\<lambda>b. b = 0x2f) (dropWhile (\<lambda>b. b \<noteq> 0x2f) ?p)"
    using assms by (auto simp: skipelem_def Let_def split: if_splits)
  then have "hd ?p \<noteq> 0x2f" by (metis (mono_tags, lifting) hd_dropWhile)
  with p(1) have "length (dropWhile (\<lambda>b. b \<noteq> 0x2f) ?p) < length ?p"
    by (cases ?p) (auto simp: le_imp_less_Suc length_dropWhile_le)
  moreover have "length rest \<le> length (dropWhile (\<lambda>b. b \<noteq> 0x2f) ?p)" unfolding p(2) by (rule length_dropWhile_le)
  ultimately show ?thesis using length_dropWhile_le [of "\<lambda>b. b = 0x2f" path] by simp
qed

text \<open>The result is the inode with the last name that was read, or \<open>None\<close> for the null pointer.\<close>

function namex_loop :: "int \<Rightarrow> bool \<Rightarrow> bool \<Rightarrow> nat \<Rightarrow> bytes \<Rightarrow> bytes \<Rightarrow> fsys \<Rightarrow> ((nat \<times> bytes) option \<times> fsys) option" where
  "namex_loop me kd par ip path name s =
     (case skipelem path of
       None \<Rightarrow> if par then do { s \<leftarrow> iput me ip s; Some (None, s) } else Some (Some (ip, name), s)
     | Some (path, name) \<Rightarrow>
         do {
           s \<leftarrow> ilock me ip s;
           if i_type (ino s ip) \<noteq> T_DIR then do { s \<leftarrow> iunlockput me ip s; Some (None, s) }
           else if par \<and> path = [] then do { s \<leftarrow> iunlock me ip s; Some (Some (ip, name), s) }
           else do {
             (r, s) \<leftarrow> dirlookup me kd ip name s;
             case r of
               None \<Rightarrow> do { s \<leftarrow> iunlockput me ip s; Some (None, s) }
             | Some (nxt, _) \<Rightarrow> do { s \<leftarrow> iunlockput me ip s; namex_loop me kd par nxt path name s }
           }
         })"
  by pat_completeness auto
termination
  by (relation "measure (\<lambda>(me, kd, par, ip, path, name, s). length path)") (auto dest: skipelem_shorter)

declare namex_loop.simps [simp del]

definition namex :: "int \<Rightarrow> bool \<Rightarrow> nat \<Rightarrow> bytes \<Rightarrow> bool \<Rightarrow> fsys \<Rightarrow> ((nat \<times> bytes) option \<times> fsys) option" where
  "namex me kd cwd path par s =
     do {
       (ip, s) \<leftarrow> (if char_at path = 0x2f then iget ROOTDEV ROOTINO s else Some (cwd, idup cwd s));
       namex_loop me kd par ip path [] s
     }"

definition namei :: "int \<Rightarrow> bool \<Rightarrow> nat \<Rightarrow> bytes \<Rightarrow> fsys \<Rightarrow> (nat option \<times> fsys) option" where
  "namei me kd cwd path s = do { (r, s) \<leftarrow> namex me kd cwd path False s; Some (map_option fst r, s) }"

definition nameiparent :: "int \<Rightarrow> bool \<Rightarrow> nat \<Rightarrow> bytes \<Rightarrow> fsys \<Rightarrow> ((nat \<times> bytes) option \<times> fsys) option" where
  "nameiparent me kd cwd path s = namex me kd cwd path True s"

end
