(* ===== verification/Xv6_Pipe.thy ===== *)
theory Xv6_Pipe
  imports Ring_Buffer
begin

text \<open>
  Pipes, \<^verbatim>\<open>hw3/xv6/pipe.c\<close>: the buffer of a pipe and what its lock makes one step of \<^verbatim>\<open>pipewrite\<close>
  and \<^verbatim>\<open>piperead\<close>, from a start or a wake-up to the next sleep or the return. The calls that allocate
  and free a pipe, wake and sleep are in \<^verbatim>\<open>Xv6_Kernel\<close>.
\<close>

definition PIPESIZE :: nat where "PIPESIZE = 512"

record pipe =
  p_data :: bytes
  p_nread :: u32
  p_nwrite :: u32
  p_readopen :: bool
  p_writeopen :: bool

text \<open>
  The bytes that are not yet in the pipe when the writer sleeps or returns, whether it returns with
  an error, and the pipe; no bytes are left when it is done.
\<close>

fun pipewrite_pass :: "bool \<Rightarrow> bytes \<Rightarrow> pipe \<Rightarrow> bytes \<times> bool \<times> pipe" where
  "pipewrite_pass killed [] p = ([], False, p)"
| "pipewrite_pass killed (b # bs) p =
     (if p_nwrite p = p_nread p + word_of_nat PIPESIZE then (b # bs, \<not> p_readopen p \<or> killed, p)
      else pipewrite_pass killed bs
        (p\<lparr>p_data := (p_data p)[ring_slot PIPESIZE (p_nwrite p) := b], p_nwrite := p_nwrite p + 1\<rparr>))"

primrec piperead_copy :: "nat \<Rightarrow> pipe \<Rightarrow> bytes \<times> pipe" where
  "piperead_copy 0 p = ([], p)"
| "piperead_copy (Suc n) p =
     (if p_nread p = p_nwrite p then ([], p)
      else
        let b = p_data p ! ring_slot PIPESIZE (p_nread p);
            (bs, p) = piperead_copy n (p\<lparr>p_nread := p_nread p + 1\<rparr>)
        in (b # bs, p))"

text \<open>Asleep, returned with an error, or returned with the bytes.\<close>

datatype rres = RSleep | RFail | RDone bytes

definition piperead_pass :: "bool \<Rightarrow> nat \<Rightarrow> pipe \<Rightarrow> rres \<times> pipe" where
  "piperead_pass killed n p =
     (if p_nread p = p_nwrite p \<and> p_writeopen p then (if killed then RFail else RSleep, p)
      else let (bs, p) = piperead_copy n p in (RDone bs, p))"

definition pipe_close_end :: "bool \<Rightarrow> pipe \<Rightarrow> pipe" where
  "pipe_close_end writable p = (if writable then p\<lparr>p_writeopen := False\<rparr> else p\<lparr>p_readopen := False\<rparr>)"

section \<open>The bytes in a pipe\<close>

interpretation pring: ring_buffer PIPESIZE
  by unfold_locales (simp add: PIPESIZE_def)

definition contents :: "pipe \<Rightarrow> bytes" where
  "contents p = ring_seg PIPESIZE (p_data p) (p_nread p) (unat (p_nwrite p - p_nread p))"

definition pipe_ok :: "pipe \<Rightarrow> bool" where
  "pipe_ok p \<longleftrightarrow> length (p_data p) = PIPESIZE \<and> unat (p_nwrite p - p_nread p) \<le> PIPESIZE"

lemma full_iff: "p_nwrite p = p_nread p + word_of_nat PIPESIZE \<longleftrightarrow> unat (p_nwrite p - p_nread p) = PIPESIZE"
  by (rule counter_eq) (simp add: PIPESIZE_def)

lemma empty_iff: "p_nread p = p_nwrite p \<longleftrightarrow> contents p = []"
  by (auto simp: contents_def unat_eq_zero simp flip: length_0_conv)

lemma put_byte:
  fixes b :: byte
  assumes "pipe_ok p" "p_nwrite p \<noteq> p_nread p + word_of_nat PIPESIZE"
  defines "q \<equiv> p\<lparr>p_data := (p_data p)[ring_slot PIPESIZE (p_nwrite p) := b], p_nwrite := p_nwrite p + 1\<rparr>"
  shows "pipe_ok q" "contents q = contents p @ [b]"
proof -
  let ?n = "unat (p_nwrite p - p_nread p)"
  have n: "?n < PIPESIZE" and len: "length (p_data p) = PIPESIZE" using assms(1,2) full_iff [of p] by (auto simp: pipe_ok_def)
  have "?n < 2 ^ 32 - 1" using n by (simp add: PIPESIZE_def)
  note d = dist_inc [OF this]
  show "pipe_ok q" using n len d by (simp add: q_def pipe_ok_def)
  show "contents q = contents p @ [b]"
    using pring.ring_push [OF n len, of "p_nread p" b] d by (simp add: q_def contents_def)
qed

lemma get_byte:
  assumes "pipe_ok p" "p_nread p \<noteq> p_nwrite p"
  defines "q \<equiv> p\<lparr>p_nread := p_nread p + 1\<rparr>"
  shows "pipe_ok q" "contents p = p_data p ! ring_slot PIPESIZE (p_nread p) # contents q"
proof -
  have d: "unat (p_nwrite p - (p_nread p + 1)) = unat (p_nwrite p - p_nread p) - 1" by (rule dist_inc_left [OF assms(2)])
  have "unat (p_nwrite p - p_nread p) \<noteq> 0" using assms(2) by (simp add: unat_eq_zero)
  then have "unat (p_nwrite p - p_nread p) = Suc (unat (p_nwrite p - (p_nread p + 1)))" using d by simp
  then show "contents p = p_data p ! ring_slot PIPESIZE (p_nread p) # contents q" by (simp add: contents_def q_def ring_seg_Cons)
  show "pipe_ok q" using assms(1) d unfolding pipe_ok_def q_def by simp linarith
qed

text \<open>One pass of the writer appends a prefix of its bytes and stops early only when the pipe is full.\<close>

lemma pipewrite_pass_ok:
  assumes "pipe_ok p" "pipewrite_pass killed bs p = (rest, fail, q)"
  shows "pipe_ok q \<and> (\<exists>ds. bs = ds @ rest \<and> contents q = contents p @ ds) \<and> p_readopen q = p_readopen p \<and>
    p_writeopen q = p_writeopen p \<and> (rest \<noteq> [] \<longrightarrow> length (contents q) = PIPESIZE) \<and>
    (fail \<longleftrightarrow> rest \<noteq> [] \<and> (\<not> p_readopen p \<or> killed))"
  using assms
proof (induction killed bs p rule: pipewrite_pass.induct)
  case (2 killed b bs p)
  let ?q = "p\<lparr>p_data := (p_data p)[ring_slot PIPESIZE (p_nwrite p) := b], p_nwrite := p_nwrite p + 1\<rparr>"
  show ?case
  proof (cases "p_nwrite p = p_nread p + word_of_nat PIPESIZE")
    case True
    with 2(2,3) full_iff [of p] show ?thesis by (auto simp: contents_def)
  next
    case False
    note pb = put_byte [OF 2(2) False, of b]
    have "pipewrite_pass killed bs ?q = (rest, fail, q)" using 2(3) False by simp
    from 2(1) [OF False pb(1) this] pb(2) show ?thesis by auto
  qed
qed auto

lemma piperead_copy_ok:
  assumes "pipe_ok p" "piperead_copy n p = (bs, q)"
  shows "pipe_ok q \<and> contents p = bs @ contents q \<and> p_readopen q = p_readopen p \<and> p_writeopen q = p_writeopen p \<and>
    (length bs < n \<longrightarrow> contents q = []) \<and> length bs \<le> n"
  using assms
proof (induction n arbitrary: p bs q)
  case (Suc n)
  show ?case
  proof (cases "p_nread p = p_nwrite p")
    case True
    with Suc.prems show ?thesis by (auto simp: empty_iff)
  next
    case False
    note gb = get_byte [OF Suc.prems(1) False]
    obtain ds r where r: "piperead_copy n (p\<lparr>p_nread := p_nread p + 1\<rparr>) = (ds, r)" by fastforce
    from Suc.IH [OF gb(1) r] Suc.prems(2) False r gb(2) show ?thesis by (auto simp: Let_def)
  qed
qed auto

section \<open>Any interleaving of writers and readers\<close>

record pipe_sys =
  ps_pipe :: pipe
  ps_sent :: bytes
  ps_got :: bytes

text \<open>
  The steps of all processes with the pipe: the bytes that entered and left it are recorded in their
  order.
\<close>

inductive pipe_step :: "pipe_sys \<Rightarrow> pipe_sys \<Rightarrow> bool" where
  put: "pipewrite_pass killed bs (ps_pipe s) = (rest, fail, p) \<Longrightarrow>
    pipe_step s (s\<lparr>ps_pipe := p, ps_sent := ps_sent s @ take (length bs - length rest) bs\<rparr>)"
| get: "piperead_pass killed n (ps_pipe s) = (RDone bs, p) \<Longrightarrow> pipe_step s (s\<lparr>ps_pipe := p, ps_got := ps_got s @ bs\<rparr>)"
| shut: "pipe_step s (s\<lparr>ps_pipe := pipe_close_end writable (ps_pipe s)\<rparr>)"

definition fresh_pipe :: "pipe_sys \<Rightarrow> bool" where
  "fresh_pipe s \<longleftrightarrow> length (p_data (ps_pipe s)) = PIPESIZE \<and> p_nread (ps_pipe s) = 0 \<and> p_nwrite (ps_pipe s) = 0 \<and>
     ps_sent s = [] \<and> ps_got s = []"

definition pipe_inv :: "pipe_sys \<Rightarrow> bool" where
  "pipe_inv s \<longleftrightarrow> pipe_ok (ps_pipe s) \<and> ps_sent s = ps_got s @ contents (ps_pipe s)"

interpretation pfifo: step_invariant fresh_pipe pipe_step pipe_inv
proof
  show "pipe_inv s" if "fresh_pipe s" for s using that by (simp add: fresh_pipe_def pipe_inv_def pipe_ok_def contents_def)
  fix s t assume inv: "pipe_inv s" and "pipe_step s t"
  then have ok: "pipe_ok (ps_pipe s)" by (simp add: pipe_inv_def)
  from \<open>pipe_step s t\<close> show "pipe_inv t"
  proof (cases rule: pipe_step.cases)
    case (put killed bs rest fail p)
    with pipewrite_pass_ok [OF ok put(2)] inv show ?thesis by (auto simp: pipe_inv_def)
  next
    case (get killed n bs p)
    then have "piperead_copy n (ps_pipe s) = (bs, p)" by (auto simp: piperead_pass_def split: if_splits prod.splits)
    from piperead_copy_ok [OF ok this] inv get(1) show ?thesis by (auto simp: pipe_inv_def)
  next
    case (shut writable)
    with inv show ?thesis by (simp add: pipe_inv_def pipe_close_end_def pipe_ok_def contents_def)
  qed
qed

text \<open>C4. A pipe is a bounded first-in first-out queue under every interleaving of writers, readers and
  closes, and however often its counters wrap around: what has been read is a prefix of what has been
  written, the rest is in the buffer, at most 512 bytes; a read that returns fewer bytes than it asked for
  has emptied the pipe, and it returns none only when the pipe is empty and the writers are gone, or
  when it asked for none.\<close>

theorem pipe_fifo:
  assumes "reach fresh_pipe pipe_step s"
  shows "\<exists>q. ps_sent s = ps_got s @ q \<and> length q \<le> PIPESIZE \<and>
    (\<forall>killed n bs p. piperead_pass killed n (ps_pipe s) = (RDone bs, p) \<longrightarrow>
       bs = take n q \<and> (bs = [] \<longrightarrow> n = 0 \<or> q = [] \<and> \<not> p_writeopen (ps_pipe s)))"
proof -
  have ok: "pipe_ok (ps_pipe s)" and q: "ps_sent s = ps_got s @ contents (ps_pipe s)" using pfifo.reach_inv [OF assms] by (simp_all add: pipe_inv_def)
  have "bs = take n (contents (ps_pipe s)) \<and> (bs = [] \<longrightarrow> n = 0 \<or> contents (ps_pipe s) = [] \<and> \<not> p_writeopen (ps_pipe s))"
    if "piperead_pass killed n (ps_pipe s) = (RDone bs, p)" for killed n bs p
  proof -
    have c: "piperead_copy n (ps_pipe s) = (bs, p)" and w: "contents (ps_pipe s) = [] \<longrightarrow> \<not> p_writeopen (ps_pipe s)"
      using that empty_iff [of "ps_pipe s"] by (auto simp: piperead_pass_def split: if_splits prod.splits)
    note r = piperead_copy_ok [OF ok c]
    then have "bs = take n (contents (ps_pipe s))" by (cases "length bs < n") auto
    with r w show ?thesis by auto
  qed
  with q ok show ?thesis by (intro exI [of _ "contents (ps_pipe s)"]) (simp add: pipe_ok_def contents_def)
qed

definition new_pipe_sys :: pipe_sys where
  "new_pipe_sys = \<lparr>ps_pipe = \<lparr>p_data = replicate PIPESIZE 0, p_nread = 0, p_nwrite = 0, p_readopen = True, p_writeopen = True\<rparr>,
     ps_sent = [], ps_got = []\<rparr>"

definition used_pipe_sys :: pipe_sys where
  "used_pipe_sys = \<lparr>ps_pipe = \<lparr>p_data = (replicate PIPESIZE 0)[0 := 1, 1 := 2], p_nread = 0, p_nwrite = 2, p_readopen = True, p_writeopen = True\<rparr>,
     ps_sent = [1, 2], ps_got = []\<rparr>"

theorem pipe_fifo_witness:
  "reach fresh_pipe pipe_step used_pipe_sys \<and>
   (\<exists>q. [1, 2] = q \<and> length q \<le> PIPESIZE \<and>
    (\<forall>killed n bs p. piperead_pass killed n (ps_pipe used_pipe_sys) = (RDone bs, p) \<longrightarrow> bs = take n q))"
proof -
  have "pipewrite_pass False [1, 2] (ps_pipe new_pipe_sys) = ([], False, ps_pipe used_pipe_sys)"
    by (simp add: new_pipe_sys_def used_pipe_sys_def ring_slot_def PIPESIZE_def list_update_swap)
  from pipe_step.put [OF this] have "pipe_step new_pipe_sys used_pipe_sys" by (simp add: new_pipe_sys_def used_pipe_sys_def)
  moreover have "fresh_pipe new_pipe_sys" by (simp add: fresh_pipe_def new_pipe_sys_def)
  ultimately have r: "reach fresh_pipe pipe_step used_pipe_sys" by (blast intro: reach.intros)
  have "ps_sent used_pipe_sys = [1, 2]" "ps_got used_pipe_sys = []" by (simp_all add: used_pipe_sys_def)
  with pipe_fifo [OF r] r show ?thesis by auto
qed

end
