(* ===== verification/Xv6_Kernel.thy ===== *)
theory Xv6_Kernel
  imports Xv6_Fs Xv6_Pipe Xv6_Uvm
begin

text \<open>
  The state of the kernel, \<^verbatim>\<open>hw3/xv6/proc.h\<close> and \<^verbatim>\<open>file.h\<close>, the wake-up of processes from \<^verbatim>\<open>proc.c\<close>,
  the calls of \<^verbatim>\<open>pipe.c\<close> on it, and the open files of \<^verbatim>\<open>file.c\<close>. A process pointer is an index of the process table,
  a file pointer an index of the file table, a pipe pointer the address of its page. \<open>None\<close> is a panic, or a
  wait for the disk log, a lock, or input from the console. A call that sleeps on a channel is cut into passes: the result
  \<open>Blocked\<close> means that the process sleeps and goes on with the next pass when it is woken. The spinlocks that a
  pass holds from its beginning to its end are not part of this state; \<open>cur\<close> is the process of the one processor
  that runs, and the contents of a pipe are kept apart from the page that the pipe owns. Fields of type \<^verbatim>\<open>int\<close> are
  integers; the operations that count them up (\<^verbatim>\<open>nextpid\<close>, \<^verbatim>\<open>switch_cnt\<close>) wrap around with \<open>int32\<close>.
\<close>

definition NPROC :: nat where "NPROC = 64"
definition NOFILE :: nat where "NOFILE = 16"
definition NFILE :: nat where "NFILE = 100"

datatype procstate = UNUSED | EMBRYO | SLEEPING | RUNNABLE | RUNNING | ZOMBIE

text \<open>The addresses that processes sleep on.\<close>

datatype chan = ChPipeRead nat | ChPipeWrite nat | ChProc nat | ChInput | ChTicks

text \<open>The registers of a trap frame; \<open>tf_rest\<close> are those the C code of the kernel never looks at.\<close>

record trapframe =
  tf_eax :: u32
  tf_es :: u16
  tf_ds :: u16
  tf_eip :: u32
  tf_cs :: u16
  tf_eflags :: u32
  tf_esp :: u32
  tf_ss :: u16
  tf_trapno :: u32
  tf_rest :: "u32 list"

record proc =
  sz :: nat
  pgdir :: nat
  kstack :: nat
  state :: procstate
  pid :: int
  parent :: "nat option"
  tf :: trapframe
  ctx_eip :: nat
  chan :: "chan option"
  killed :: bool
  ofile :: "nat option list"
  cwd :: "nat option"
  pname :: bytes
  switch_cnt :: int
  priority :: int

datatype ftype = FD_NONE | FD_PIPE | FD_INODE

record kfile =
  f_type :: ftype
  f_ref :: int
  f_readable :: bool
  f_writable :: bool
  f_pipe :: nat
  f_ip :: nat
  f_off :: nat

record kern =
  km :: kmem
  fs :: fsys
  files :: "kfile list"
  pipes :: "nat \<Rightarrow> pipe"
  procs :: "proc list"
  nextpid :: int
  initproc :: "nat option"
  ticks :: u32
  cur :: nat
  cr3 :: nat
  tss_ss0 :: u16
  tss_esp0 :: nat
  tss_iomb :: u16
  kpgdir :: nat
  forkret_sym :: nat
  first_ret :: bool

datatype 'a blk = Ret 'a | Blocked

abbreviation self :: "kern \<Rightarrow> proc" where "self k \<equiv> procs k ! cur k"
abbreviation upd_proc :: "nat \<Rightarrow> (proc \<Rightarrow> proc) \<Rightarrow> kern \<Rightarrow> kern" where
  "upd_proc i f k \<equiv> k\<lparr>procs := (procs k)[i := f (procs k ! i)]\<rparr>"
abbreviation upd_file :: "nat \<Rightarrow> (kfile \<Rightarrow> kfile) \<Rightarrow> kern \<Rightarrow> kern" where
  "upd_file i f k \<equiv> k\<lparr>files := (files k)[i := f (files k ! i)]\<rparr>"

section \<open>Sleeping and waking\<close>

definition wakeup1 :: "chan \<Rightarrow> kern \<Rightarrow> kern" where
  "wakeup1 ch k = k\<lparr>procs := map (\<lambda>p. if state p = SLEEPING \<and> chan p = Some ch then p\<lparr>state := RUNNABLE\<rparr> else p) (procs k)\<rparr>"

definition wakeup :: "chan \<Rightarrow> kern \<Rightarrow> kern" where
  "wakeup ch k = wakeup1 ch k"

text \<open>The two halves of \<^verbatim>\<open>sleep\<close>, before and after the processor is given up.\<close>

definition sleep :: "chan \<Rightarrow> kern \<Rightarrow> kern" where
  "sleep ch k = upd_proc (cur k) (\<lambda>p. p\<lparr>chan := Some ch, state := SLEEPING\<rparr>) k"

definition sleep_end :: "kern \<Rightarrow> kern" where
  "sleep_end k = upd_proc (cur k) (\<lambda>p. p\<lparr>chan := None\<rparr>) k"

section \<open>Memory of the current process\<close>

text \<open>A byte of user memory through the page tables; an address that is not mapped is a fault in the kernel.\<close>

definition user_load :: "nat \<Rightarrow> nat \<Rightarrow> nat \<Rightarrow> memory \<Rightarrow> bytes option" where
  "user_load d va n m =
     (if \<forall>x\<in>set [va..<va + n]. aspace m d x \<noteq> None then Some (map (\<lambda>x. the (aspace m d x)) [va..<va + n]) else None)"

fun user_store :: "nat \<Rightarrow> nat \<Rightarrow> bytes \<Rightarrow> memory \<Rightarrow> memory option" where
  "user_store d va [] m = Some m"
| "user_store d va (b # bs) m =
     (if aspace m d va = None then None
      else user_store d (va + 1) bs (m(frame (pte m d va) + va mod PGSIZE := b)))"

definition to_user :: "nat \<Rightarrow> bytes \<Rightarrow> kern \<Rightarrow> kern option" where
  "to_user va bs k =
     do { m \<leftarrow> user_store (pgdir (self k)) va bs (mem (km k)); Some (k\<lparr>km := (km k)\<lparr>mem := m\<rparr>\<rparr>) }"

definition from_user :: "nat \<Rightarrow> nat \<Rightarrow> kern \<Rightarrow> bytes option" where
  "from_user va n k = user_load (pgdir (self k)) va n (mem (km k))"

section \<open>The file system from the kernel\<close>

definition kfs :: "(fsys \<Rightarrow> fsys option) \<Rightarrow> kern \<Rightarrow> kern option" where
  "kfs f k = do { s \<leftarrow> f (fs k); Some (k\<lparr>fs := s\<rparr>) }"

definition kfsr :: "(fsys \<Rightarrow> ('a \<times> fsys) option) \<Rightarrow> kern \<Rightarrow> ('a \<times> kern) option" where
  "kfsr f k = do { (r, s) \<leftarrow> f (fs k); Some (r, k\<lparr>fs := s\<rparr>) }"

definition kbegin_op :: "kern \<Rightarrow> kern option" where
  "kbegin_op k = kfs (\<lambda>s. do { l \<leftarrow> begin_op (lg s); Some (s\<lparr>lg := l\<rparr>) }) k"

definition kend_op :: "kern \<Rightarrow> kern option" where
  "kend_op k = kfs (\<lambda>s. do { (l, x) \<leftarrow> end_op (pid (self k)) (lg s) (io s); Some (s\<lparr>lg := l, io := x\<rparr>) }) k"

section \<open>Pipes\<close>

definition filealloc :: "kern \<Rightarrow> (nat \<times> kern) option" where
  "filealloc k =
     (case first_idx (\<lambda>f. f_ref f = 0) (files k) of
       Some i \<Rightarrow> Some (i, upd_file i (\<lambda>f. f\<lparr>f_ref := 1\<rparr>) k)
     | None \<Rightarrow> None)"

definition pipeclose :: "nat \<Rightarrow> bool \<Rightarrow> kern \<Rightarrow> kern option" where
  "pipeclose p writable k =
     (let k = k\<lparr>pipes := (pipes k)(p := pipe_close_end writable (pipes k p))\<rparr>;
          k = wakeup (if writable then ChPipeRead p else ChPipeWrite p) k
      in if \<not> p_readopen (pipes k p) \<and> \<not> p_writeopen (pipes k p)
         then do { x \<leftarrow> kfree p (km k); Some (k\<lparr>km := x\<rparr>) }
         else Some k)"

definition fileclose :: "nat \<Rightarrow> kern \<Rightarrow> kern option" where
  "fileclose i k =
     (if f_ref (files k ! i) < 1 then None
      else
        let k = upd_file i (\<lambda>f. f\<lparr>f_ref := f_ref f - 1\<rparr>) k in
        if f_ref (files k ! i) > 0 then Some k
        else
          let ff = files k ! i;
              k = upd_file i (\<lambda>f. f\<lparr>f_ref := 0, f_type := FD_NONE\<rparr>) k
          in case f_type ff of
               FD_PIPE \<Rightarrow> pipeclose (f_pipe ff) (f_writable ff) k
             | FD_INODE \<Rightarrow> do { k \<leftarrow> kbegin_op k; k \<leftarrow> kfs (iput (pid (self k)) (f_ip ff)) k; kend_op k }
             | FD_NONE \<Rightarrow> Some k)"

text \<open>The two files, or an error after everything has been given back.\<close>

definition pipealloc :: "kern \<Rightarrow> ((nat \<times> nat) option \<times> kern) option" where
  "pipealloc k =
     (case filealloc k of
       None \<Rightarrow> Some (None, k)
     | Some (f0, k) \<Rightarrow>
         (case filealloc k of
           None \<Rightarrow> do { k \<leftarrow> fileclose f0 k; Some (None, k) }
         | Some (f1, k) \<Rightarrow>
             let (p, x) = kalloc (km k); k = k\<lparr>km := x\<rparr> in
             if p = 0 then do { k \<leftarrow> fileclose f0 k; k \<leftarrow> fileclose f1 k; Some (None, k) }
             else
               let k = k\<lparr>pipes := (pipes k)(p := \<lparr>p_data = map (mem (km k)) [p + 52..<p + 52 + PIPESIZE], p_nread = 0, p_nwrite = 0,
                         p_readopen = True, p_writeopen = True\<rparr>)\<rparr>;
                   k = upd_file f0 (\<lambda>f. f\<lparr>f_type := FD_PIPE, f_readable := True, f_writable := False, f_pipe := p\<rparr>) k;
                   k = upd_file f1 (\<lambda>f. f\<lparr>f_type := FD_PIPE, f_readable := False, f_writable := True, f_pipe := p\<rparr>) k
               in Some (Some (f0, f1), k)))"

text \<open>A pass of \<^verbatim>\<open>pipewrite\<close> with the bytes that remain of \<open>n\<close>; when it blocks, the bytes that still remain.\<close>

definition pipewrite :: "nat \<Rightarrow> bytes \<Rightarrow> int \<Rightarrow> kern \<Rightarrow> (int blk \<times> bytes) \<times> kern" where
  "pipewrite p bs n k =
     (let (rest, fail, q) = pipewrite_pass (killed (self k)) bs (pipes k p);
          k = k\<lparr>pipes := (pipes k)(p := q)\<rparr>
      in if fail then ((Ret (- 1), rest), k)
         else
           let k = wakeup (ChPipeRead p) k in
           if rest \<noteq> [] then ((Blocked, rest), sleep (ChPipeWrite p) k) else ((Ret n, []), k))"

definition piperead :: "nat \<Rightarrow> nat \<Rightarrow> int \<Rightarrow> kern \<Rightarrow> (int blk \<times> kern) option" where
  "piperead p addr n k =
     (let (r, q) = piperead_pass (killed (self k)) (nat n) (pipes k p);
          k = k\<lparr>pipes := (pipes k)(p := q)\<rparr>
      in case r of
           RFail \<Rightarrow> Some (Ret (- 1), k)
         | RSleep \<Rightarrow> Some (Blocked, sleep (ChPipeRead p) k)
         | RDone bs \<Rightarrow> do { k \<leftarrow> to_user addr bs k; Some (Ret (int (length bs)), wakeup (ChPipeWrite p) k) })"

section \<open>Open files\<close>

definition filedup :: "nat \<Rightarrow> kern \<Rightarrow> kern option" where
  "filedup i k =
     (if f_ref (files k ! i) < 1 then None else Some (upd_file i (\<lambda>f. f\<lparr>f_ref := f_ref f + 1\<rparr>) k))"

definition filestat :: "nat \<Rightarrow> kern \<Rightarrow> (stat option \<times> kern) option" where
  "filestat i k =
     (let f = files k ! i in
      if f_type f = FD_INODE then
        do {
          k \<leftarrow> kfs (ilock (pid (self k)) (f_ip f)) k;
          let st = stati (ino (fs k) (f_ip f));
          k \<leftarrow> kfs (iunlock (pid (self k)) (f_ip f)) k;
          Some (Some st, k)
        }
      else Some (None, k))"

definition fileread :: "nat \<Rightarrow> nat \<Rightarrow> int \<Rightarrow> kern \<Rightarrow> (int blk \<times> kern) option" where
  "fileread i addr n k =
     (let f = files k ! i; me = pid (self k) in
      if \<not> f_readable f then Some (Ret (- 1), k)
      else case f_type f of
        FD_PIPE \<Rightarrow> piperead (f_pipe f) addr n k
      | FD_INODE \<Rightarrow>
          do {
            k \<leftarrow> kfs (ilock me (f_ip f)) k;
            ((r, bs), k) \<leftarrow> kfsr (\<lambda>s. map_option (\<lambda>(r, bs, s). ((r, bs), s)) (readi me (killed (self k)) (f_ip f) (f_off f) (nat (n mod 2 ^ 32)) s)) k;
            k \<leftarrow> to_user addr bs k;
            let k = (if r > 0 then upd_file i (\<lambda>f. f\<lparr>f_off := (f_off f + nat r) mod 2 ^ 32\<rparr>) k else k);
            k \<leftarrow> kfs (iunlock me (f_ip f)) k;
            Some (Ret r, k)
          }
      | FD_NONE \<Rightarrow> None)"

definition FILEMAX :: nat where "FILEMAX = ((MAXOPBLOCKS - 1 - 1 - 2) div 2) * 512"

text \<open>The loop of \<^verbatim>\<open>filewrite\<close> with the bytes that remain; whether all of them were written.\<close>

function filewrite_loop :: "nat \<Rightarrow> bytes \<Rightarrow> kern \<Rightarrow> (bool \<times> kern) option" where
  "filewrite_loop i bs k =
     (if bs = [] then Some (True, k)
      else do {
        let ip = f_ip (files k ! i);
        let me = pid (self k);
        let part = take FILEMAX bs;
        k \<leftarrow> kbegin_op k;
        k \<leftarrow> kfs (ilock me ip) k;
        (r, k) \<leftarrow> kfsr (writei me ip part (f_off (files k ! i))) k;
        let k = (if r > 0 then upd_file i (\<lambda>f. f\<lparr>f_off := (f_off f + nat r) mod 2 ^ 32\<rparr>) k else k);
        k \<leftarrow> kfs (iunlock me ip) k;
        k \<leftarrow> kend_op k;
        if r < 0 then Some (False, k)
        else if r \<noteq> int (length part) then None
        else filewrite_loop i (drop FILEMAX bs) k
      })"
  by pat_completeness auto
termination
  by (relation "measure (\<lambda>(i, bs, k). length bs)") (auto simp: FILEMAX_def MAXOPBLOCKS_def)

declare filewrite_loop.simps [simp del]

text \<open>The second component of the result are the bytes that remain when the write to a pipe blocks.\<close>

definition filewrite :: "nat \<Rightarrow> nat \<Rightarrow> int \<Rightarrow> kern \<Rightarrow> ((int blk \<times> bytes) \<times> kern) option" where
  "filewrite i addr n k =
     (let f = files k ! i in
      if \<not> f_writable f then Some ((Ret (- 1), []), k)
      else case f_type f of
        FD_PIPE \<Rightarrow> do { bs \<leftarrow> from_user addr (nat n) k; Some (pipewrite (f_pipe f) bs n k) }
      | FD_INODE \<Rightarrow>
          do {
            bs \<leftarrow> from_user addr (nat n) k;
            (all, k) \<leftarrow> filewrite_loop i bs k;
            Some ((Ret (if all \<and> n \<ge> 0 then n else - 1), []), k)
          }
      | FD_NONE \<Rightarrow> None)"

end
