(* ===== verification/Xv6_Proc.thy ===== *)
theory Xv6_Proc
  imports Xv6_Kernel "HOL-Library.Multiset"
begin

text \<open>
  Processes, \<^verbatim>\<open>hw3/xv6/proc.c\<close>, with the loading of the page-table register from \<^verbatim>\<open>vm.c\<close>. The trap
  frame and the context of a process lie on its kernel stack, where nothing else is stored, and are fields of the process here.
  \<^verbatim>\<open>nextpid\<close> and \<^verbatim>\<open>switch_cnt\<close> wrap around as an \<^verbatim>\<open>int\<close> does.
  \<open>None\<close> is a panic or an access through a null pointer.
\<close>

section \<open>Page tables of processes\<close>

definition KSTACKSIZE :: nat where "KSTACKSIZE = 4096"

definition switchkvm :: "kern \<Rightarrow> kern" where
  "switchkvm k = k\<lparr>cr3 := V2P (kpgdir k)\<rparr>"

definition kvmalloc :: "kern \<Rightarrow> kern option" where
  "kvmalloc k = do { (d, x) \<leftarrow> setupkvm (km k); Some (switchkvm (k\<lparr>kpgdir := d, km := x\<rparr>)) }"

definition SEG_KDATA :: u16 where "SEG_KDATA = 2"

text \<open>The fields of the task state and the page-table register; the descriptor of the task state in the GDT is not modelled.\<close>

definition switchuvm :: "nat \<Rightarrow> kern \<Rightarrow> kern option" where
  "switchuvm i k =
     (if kstack (procs k ! i) = 0 then None
      else if pgdir (procs k ! i) = 0 then None
      else Some (k\<lparr>tss_ss0 := push_bit 3 SEG_KDATA, tss_esp0 := kstack (procs k ! i) + KSTACKSIZE, tss_iomb := 0xFFFF,
                  cr3 := V2P (pgdir (procs k ! i))\<rparr>))"

section \<open>Creating processes\<close>

definition allocproc :: "kern \<Rightarrow> nat option \<times> kern" where
  "allocproc k =
     (case first_idx (\<lambda>p. state p = UNUSED) (procs k) of
       None \<Rightarrow> (None, k)
     | Some i \<Rightarrow>
         let k = (upd_proc i (\<lambda>p. p\<lparr>state := EMBRYO, pid := nextpid k, switch_cnt := 0, priority := 0\<rparr>) k)\<lparr>nextpid := int32 (nextpid k + 1)\<rparr>;
             (st, x) = kalloc (km k);
             k = upd_proc i (\<lambda>p. p\<lparr>kstack := st\<rparr>) (k\<lparr>km := x\<rparr>)
         in if st = 0 then (None, upd_proc i (\<lambda>p. p\<lparr>state := UNUSED\<rparr>) k)
            else (Some i, upd_proc i (\<lambda>p. p\<lparr>ctx_eip := forkret_sym k\<rparr>) k))"

text \<open>\<^verbatim>\<open>safestrcpy\<close> into the 16 bytes of a name.\<close>

definition proc_name :: "bytes \<Rightarrow> bytes" where
  "proc_name s = take 15 s"

definition SEG_UCODE :: u16 where "SEG_UCODE = 3"
definition SEG_UDATA :: u16 where "SEG_UDATA = 4"
definition DPL_USER :: u16 where "DPL_USER = 3"
definition FL_IF :: u32 where "FL_IF = 0x200"

definition user_frame :: trapframe where
  "user_frame = \<lparr>tf_eax = 0, tf_es = push_bit 3 SEG_UDATA OR DPL_USER, tf_ds = push_bit 3 SEG_UDATA OR DPL_USER, tf_eip = 0,
     tf_cs = push_bit 3 SEG_UCODE OR DPL_USER, tf_eflags = FL_IF, tf_esp = word_of_nat PGSIZE,
     tf_ss = push_bit 3 SEG_UDATA OR DPL_USER, tf_trapno = 0, tf_rest = replicate 10 0\<rparr>"

definition userinit :: "bytes \<Rightarrow> kern \<Rightarrow> kern option" where
  "userinit initcode k =
     (case allocproc k of
       (None, k) \<Rightarrow> None
     | (Some i, k) \<Rightarrow>
         do {
           let k = k\<lparr>initproc := Some i\<rparr>;
           (d, x) \<leftarrow> setupkvm (km k);
           if d = 0 then None
           else do {
             x \<leftarrow> inituvm d initcode x;
             let k = upd_proc i (\<lambda>p. p\<lparr>pgdir := d, sz := PGSIZE, tf := user_frame, pname := proc_name (str ''initcode'')\<rparr>) (k\<lparr>km := x\<rparr>);
             (ip, k) \<leftarrow> kfsr (namei (pid (self k)) (killed (self k)) 0 (str ''/'')) k;
             Some (upd_proc i (\<lambda>p. p\<lparr>cwd := ip, state := RUNNABLE\<rparr>) k)
           }
         })"

definition growproc :: "int \<Rightarrow> kern \<Rightarrow> (int \<times> kern) option" where
  "growproc n k =
     (let s = sz (self k); new = nat ((int s + n) mod 2 ^ 32) in
      do {
        (s, x) \<leftarrow>
          (if n > 0 then allocuvm (pgdir (self k)) s new (km k)
           else if n < 0 then deallocuvm (pgdir (self k)) s new (km k)
           else Some (s, km k));
        let k = k\<lparr>km := x\<rparr>;
        if n \<noteq> 0 \<and> s = 0 then Some (- 1, k)
        else do {
          k \<leftarrow> switchuvm (cur k) (upd_proc (cur k) (\<lambda>p. p\<lparr>sz := s\<rparr>) k);
          Some (0, k)
        }
      })"

fun fork_files :: "nat \<Rightarrow> nat list \<Rightarrow> kern \<Rightarrow> kern option" where
  "fork_files np [] k = Some k"
| "fork_files np (fd # fds) k =
     (case ofile (self k) ! fd of
       None \<Rightarrow> fork_files np fds k
     | Some f \<Rightarrow>
         do {
           k \<leftarrow> filedup f k;
           fork_files np fds (upd_proc np (\<lambda>p. p\<lparr>ofile := (ofile p)[fd := Some f]\<rparr>) k)
         })"

definition fork :: "kern \<Rightarrow> (int \<times> kern) option" where
  "fork k =
     (case allocproc k of
       (None, k) \<Rightarrow> Some (- 1, k)
     | (Some np, k) \<Rightarrow>
         do {
           (d, x) \<leftarrow> copyuvm (pgdir (self k)) (sz (self k)) (km k);
           let k = upd_proc np (\<lambda>p. p\<lparr>pgdir := d\<rparr>) (k\<lparr>km := x\<rparr>);
           if d = 0 then
             do {
               x \<leftarrow> kfree (kstack (procs k ! np)) (km k);
               Some (- 1, upd_proc np (\<lambda>p. p\<lparr>kstack := 0, state := UNUSED\<rparr>) (k\<lparr>km := x\<rparr>))
             }
           else do {
             let k = upd_proc np (\<lambda>p. p\<lparr>sz := sz (self k), parent := Some (cur k), tf := (tf (self k))\<lparr>tf_eax := 0\<rparr>\<rparr>) k;
             k \<leftarrow> fork_files np [0..<NOFILE] k;
             ip \<leftarrow> cwd (self k);
             let k = k\<lparr>fs := idup ip (fs k)\<rparr>;
             let k = upd_proc np (\<lambda>p. p\<lparr>cwd := Some ip, pname := proc_name (pname (self k)), state := RUNNABLE\<rparr>) k;
             Some (pid (procs k ! np), k)
           }
         })"

section \<open>Ending processes\<close>

fun exit_files :: "nat list \<Rightarrow> kern \<Rightarrow> kern option" where
  "exit_files [] k = Some k"
| "exit_files (fd # fds) k =
     (case ofile (self k) ! fd of
       None \<Rightarrow> exit_files fds k
     | Some f \<Rightarrow> do { k \<leftarrow> fileclose f k; exit_files fds (upd_proc (cur k) (\<lambda>p. p\<lparr>ofile := (ofile p)[fd := None]\<rparr>) k) })"

fun reparent :: "nat list \<Rightarrow> kern \<Rightarrow> kern" where
  "reparent [] k = k"
| "reparent (i # is) k =
     (if parent (procs k ! i) = Some (cur k) then
        let k = upd_proc i (\<lambda>p. p\<lparr>parent := initproc k\<rparr>) k
        in reparent is (case initproc k of Some j \<Rightarrow> if state (procs k ! i) = ZOMBIE then wakeup1 (ChProc j) k else k | None \<Rightarrow> k)
      else reparent is k)"

text \<open>Up to the switch to the scheduler, from which the process does not return.\<close>

definition exit :: "kern \<Rightarrow> kern option" where
  "exit k =
     (if initproc k = Some (cur k) then None
      else do {
        k \<leftarrow> exit_files [0..<NOFILE] k;
        k \<leftarrow> kbegin_op k;
        ip \<leftarrow> cwd (self k);
        k \<leftarrow> kfs (iput (pid (self k)) ip) k;
        k \<leftarrow> kend_op k;
        let k = upd_proc (cur k) (\<lambda>p. p\<lparr>cwd := None\<rparr>) k;
        let k = (case parent (self k) of Some j \<Rightarrow> wakeup1 (ChProc j) k | None \<Rightarrow> k);
        let k = reparent [0..<NPROC] k;
        Some (upd_proc (cur k) (\<lambda>p. p\<lparr>state := ZOMBIE\<rparr>) k)
      })"

definition wait :: "kern \<Rightarrow> (int blk \<times> kern) option" where
  "wait k =
     (case first_idx (\<lambda>p. parent p = Some (cur k) \<and> state p = ZOMBIE) (procs k) of
       Some i \<Rightarrow>
         do {
           let r = pid (procs k ! i);
           x \<leftarrow> kfree (kstack (procs k ! i)) (km k);
           x \<leftarrow> freevm (pgdir (procs k ! i)) x;
           Some (Ret r, upd_proc i (\<lambda>p. p\<lparr>kstack := 0, pid := 0, parent := None, pname := [], killed := False, state := UNUSED\<rparr>) (k\<lparr>km := x\<rparr>))
         }
     | None \<Rightarrow>
         if \<not> (\<exists>p\<in>set (procs k). parent p = Some (cur k)) \<or> killed (self k) then Some (Ret (- 1), k)
         else Some (Blocked, sleep (ChProc (cur k)) k))"

section \<open>The scheduler\<close>

text \<open>The first \<open>n\<close> comparisons of adjacent entries, with the exchanges.\<close>

fun bubble :: "nat \<Rightarrow> int list \<Rightarrow> int list" where
  "bubble (Suc n) (x # y # q) = (if x < y then y # bubble n (x # q) else x # bubble n (y # q))"
| "bubble _ q = q"

definition sort_queue :: "int list \<Rightarrow> int list" where
  "sort_queue q = (let n = length q in fold (\<lambda>i q. bubble (n - i - 1) q) [0..<n - 1] q)"

text \<open>
  One process is considered with the threshold \<open>prio\<close>. \<open>run i\<close> is the time between the switch to the
  process and its return to the scheduler, in which the process may do anything.
\<close>

definition sched_one :: "(nat \<Rightarrow> kern \<Rightarrow> kern) \<Rightarrow> int \<Rightarrow> nat \<Rightarrow> kern \<Rightarrow> kern option" where
  "sched_one run prio i k =
     (if state (procs k ! i) \<noteq> RUNNABLE then Some k
      else if priority (procs k ! i) \<ge> prio then
        do {
          k \<leftarrow> switchuvm i (k\<lparr>cur := i\<rparr>);
          let k = run i (upd_proc i (\<lambda>p. p\<lparr>state := RUNNING\<rparr>) k);
          let k = switchkvm k;
          Some (upd_proc i (\<lambda>p. p\<lparr>switch_cnt := int32 (switch_cnt p + 1)\<rparr>) k)
        }
      else Some k)"

fun sched_pass :: "(nat \<Rightarrow> kern \<Rightarrow> kern) \<Rightarrow> int \<Rightarrow> nat list \<Rightarrow> kern \<Rightarrow> kern option" where
  "sched_pass run prio [] k = Some k"
| "sched_pass run prio (i # is) k = do { k \<leftarrow> sched_one run prio i k; sched_pass run prio is k }"

fun sched_passes :: "(nat \<Rightarrow> kern \<Rightarrow> kern) \<Rightarrow> int list \<Rightarrow> kern \<Rightarrow> kern option" where
  "sched_passes run [] k = Some k"
| "sched_passes run (q # qs) k = do { k \<leftarrow> sched_pass run q [0..<NPROC] k; sched_passes run qs k }"

definition ready_prios :: "kern \<Rightarrow> int list" where
  "ready_prios k = map priority (filter (\<lambda>p. state p = RUNNABLE) (procs k))"

text \<open>One turn of the endless loop.\<close>

definition scheduler :: "(nat \<Rightarrow> kern \<Rightarrow> kern) \<Rightarrow> kern \<Rightarrow> kern option" where
  "scheduler run k = sched_passes run (sort_queue (ready_prios k)) k"

text \<open>
  The checks before a process gives up its processor, with the lock of the process table. \<open>swtch\<close> is what happens to
  the state of the processor until the process runs again; the saved flag of the interrupts is put back then.
\<close>

definition sched :: "(cpu \<Rightarrow> cpu) \<Rightarrow> nat \<Rightarrow> spinlock \<Rightarrow> procstate \<Rightarrow> cpu \<Rightarrow> cpu option" where
  "sched swtch me lk st c =
     do {
       (h, c) \<leftarrow> holding me lk c;
       if \<not> h then None else if ncli c \<noteq> 1 then None else if st = RUNNING then None else if eflags_if c then None
       else Some ((swtch c)\<lparr>intena := intena c\<rparr>)
     }"

definition yield :: "kern \<Rightarrow> kern" where
  "yield k = upd_proc (cur k) (\<lambda>p. p\<lparr>state := RUNNABLE\<rparr>) k"

definition forkret :: "kern \<Rightarrow> kern option" where
  "forkret k =
     (if first_ret k then
        do {
          let k = k\<lparr>first_ret := False\<rparr>;
          k \<leftarrow> kfs (iinit (pid (self k)) ROOTDEV) k;
          kfs (\<lambda>s. do { (l, x) \<leftarrow> initlog (pid (self k)) ROOTDEV (lg s) (io s); Some (s\<lparr>lg := l, io := x\<rparr>) }) k
        }
      else Some k)"

section \<open>Information about processes\<close>

definition kill :: "int \<Rightarrow> kern \<Rightarrow> int \<times> kern" where
  "kill n k =
     (case first_idx (\<lambda>p. pid p = n) (procs k) of
       Some i \<Rightarrow> (0, upd_proc i (\<lambda>p. p\<lparr>killed := True, state := (if state p = SLEEPING then RUNNABLE else state p)\<rparr>) k)
     | None \<Rightarrow> (- 1, k))"

definition get_num_proc :: "kern \<Rightarrow> int" where
  "get_num_proc k = int (length (filter (\<lambda>p. state p \<noteq> UNUSED) (procs k)))"

definition get_max_pid :: "kern \<Rightarrow> int" where
  "get_max_pid k = fold (\<lambda>p m. if pid p > m then pid p else m) (procs k) 0"

record processInfo =
  ppid :: int
  psize :: nat
  numberContextSwitches :: int

definition get_proc_info :: "int \<Rightarrow> kern \<Rightarrow> (int \<times> processInfo option) option" where
  "get_proc_info n k =
     (case first_idx (\<lambda>p. pid p = n) (procs k) of
       None \<Rightarrow> Some (- 1, None)
     | Some i \<Rightarrow>
         let p = procs k ! i in
         do {
           pp \<leftarrow> (if n = 1 then Some 0 else do { j \<leftarrow> parent p; Some (pid (procs k ! j)) });
           Some (0, Some \<lparr>ppid = pp, psize = sz p, numberContextSwitches = switch_cnt p\<rparr>)
         })"

definition set_prio :: "int \<Rightarrow> kern \<Rightarrow> int \<times> kern" where
  "set_prio n k = (0, upd_proc (cur k) (\<lambda>p. p\<lparr>priority := n\<rparr>) k)"

definition get_prio :: "kern \<Rightarrow> int" where
  "get_prio k = priority (self k)"

end
