(* ===== verification/Xv6_Syscall.thy ===== *)
theory Xv6_Syscall
  imports Xv6_Proc
begin

text \<open>
  Arguments of system calls, \<^verbatim>\<open>hw3/xv6/syscall.c\<close>, and the system calls of \<^verbatim>\<open>sysproc.c\<close>. An
  argument that is refused is \<open>Some None\<close>, where the C code returns -1; \<open>None\<close> is a fault on an address that is not mapped.
\<close>

section \<open>Arguments\<close>

definition fetchint :: "nat \<Rightarrow> kern \<Rightarrow> u32 option option" where
  "fetchint addr k =
     (if addr \<ge> sz (self k) \<or> (addr + 4) mod 2 ^ 32 > sz (self k) then Some None
      else do { bs \<leftarrow> from_user addr 4 k; Some (Some (de32 bs)) })"

function fetchstr_loop :: "nat \<Rightarrow> nat \<Rightarrow> nat \<Rightarrow> kern \<Rightarrow> nat option option" where
  "fetchstr_loop addr s ep k =
     (if s < ep then
        do { bs \<leftarrow> from_user s 1 k; if bs = [0] then Some (Some (s - addr)) else fetchstr_loop addr (s + 1) ep k }
      else Some None)"
  by pat_completeness auto
termination
  by (relation "measure (\<lambda>(addr, s, ep, k). ep - s)") auto

declare fetchstr_loop.simps [simp del]

text \<open>The length of the string.\<close>

definition fetchstr :: "nat \<Rightarrow> kern \<Rightarrow> nat option option" where
  "fetchstr addr k = (if addr \<ge> sz (self k) then Some None else fetchstr_loop addr addr (sz (self k)) k)"

definition argint :: "nat \<Rightarrow> kern \<Rightarrow> u32 option option" where
  "argint n k = fetchint (unat (tf_esp (tf (self k)) + 4 + 4 * word_of_nat n)) k"

definition argptr :: "nat \<Rightarrow> int \<Rightarrow> kern \<Rightarrow> nat option option" where
  "argptr n len k =
     do {
       r \<leftarrow> argint n k;
       case r of
         None \<Rightarrow> Some None
       | Some i \<Rightarrow>
           if len < 0 \<or> unat i \<ge> sz (self k) \<or> nat ((int (unat i) + len) mod 2 ^ 32) > sz (self k) then Some None
           else Some (Some (unat i))
     }"

text \<open>The bytes of the string that the argument points to.\<close>

definition argstr :: "nat \<Rightarrow> kern \<Rightarrow> bytes option option" where
  "argstr n k =
     do {
       r \<leftarrow> argint n k;
       case r of
         None \<Rightarrow> Some None
       | Some addr \<Rightarrow>
           do {
             l \<leftarrow> fetchstr (unat addr) k;
             case l of None \<Rightarrow> Some None | Some l \<Rightarrow> do { s \<leftarrow> from_user (unat addr) l k; Some (Some s) }
           }
     }"

text \<open>A call whose arguments were refused returns -1.\<close>

definition refused :: "kern \<Rightarrow> (int blk \<times> kern) option" where
  "refused k = Some (Ret (- 1), k)"

definition with_int :: "nat \<Rightarrow> kern \<Rightarrow> (int \<Rightarrow> (int blk \<times> kern) option) \<Rightarrow> (int blk \<times> kern) option" where
  "with_int n k f = do { r \<leftarrow> argint n k; case r of None \<Rightarrow> refused k | Some w \<Rightarrow> f (sint w) }"

section \<open>Processes\<close>

definition sys_fork :: "kern \<Rightarrow> (int blk \<times> kern) option" where
  "sys_fork k = do { (r, k) \<leftarrow> fork k; Some (Ret r, k) }"

text \<open>The process does not return; the result is not used.\<close>

definition sys_exit :: "kern \<Rightarrow> (int blk \<times> kern) option" where
  "sys_exit k = do { k \<leftarrow> exit k; Some (Blocked, k) }"

definition sys_wait :: "kern \<Rightarrow> (int blk \<times> kern) option" where
  "sys_wait k = wait k"

definition sys_kill :: "kern \<Rightarrow> (int blk \<times> kern) option" where
  "sys_kill k = with_int 0 k (\<lambda>n. let (r, k) = kill n k in Some (Ret r, k))"

definition sys_getpid :: "kern \<Rightarrow> (int blk \<times> kern) option" where
  "sys_getpid k = Some (Ret (pid (self k)), k)"

definition sys_sbrk :: "kern \<Rightarrow> (int blk \<times> kern) option" where
  "sys_sbrk k =
     with_int 0 k (\<lambda>n.
       do {
         let addr = int (sz (self k));
         (r, k) \<leftarrow> growproc n k;
         Some (Ret (if r < 0 then - 1 else addr), k)
       })"

text \<open>One test of the loop of \<^verbatim>\<open>sys_sleep\<close>: the comparison is unsigned.\<close>

definition sys_sleep_pass :: "u32 \<Rightarrow> u32 \<Rightarrow> kern \<Rightarrow> int blk \<times> kern" where
  "sys_sleep_pass n ticks0 k =
     (if ticks k - ticks0 < n then
        (if killed (self k) then (Ret (- 1), k) else (Blocked, sleep ChTicks k))
      else (Ret 0, k))"

definition sys_sleep :: "kern \<Rightarrow> (int blk \<times> kern) option" where
  "sys_sleep k = do { r \<leftarrow> argint 0 k; case r of None \<Rightarrow> refused k | Some n \<Rightarrow> Some (sys_sleep_pass n (ticks k) k) }"

definition sys_uptime :: "kern \<Rightarrow> (int blk \<times> kern) option" where
  "sys_uptime k = Some (Ret (sint (ticks k)), k)"

definition kprint :: "bytes \<Rightarrow> carg list \<Rightarrow> kern \<Rightarrow> kern option" where
  "kprint fmt args k = kfs (\<lambda>s. do { c \<leftarrow> cprintf fmt args (con s); Some (s\<lparr>con := c\<rparr>) }) k"

definition sys_hello :: "kern \<Rightarrow> (int blk \<times> kern) option" where
  "sys_hello k = do { k \<leftarrow> kprint (str ''helloxv6'' @ [10]) [] k; Some (Ret 0, k) }"

definition sys_hello_name :: "kern \<Rightarrow> (int blk \<times> kern) option" where
  "sys_hello_name k =
     do {
       r \<leftarrow> argstr 0 k;
       case r of
         None \<Rightarrow> refused k
       | Some name \<Rightarrow> do { k \<leftarrow> kprint (str ''hello %s'' @ [10]) [CStr (Some name)] k; Some (Ret 0, k) }
     }"

definition sys_get_num_proc :: "kern \<Rightarrow> (int blk \<times> kern) option" where
  "sys_get_num_proc k = Some (Ret (get_num_proc k), k)"

definition sys_get_max_pid :: "kern \<Rightarrow> (int blk \<times> kern) option" where
  "sys_get_max_pid k = Some (Ret (get_max_pid k), k)"

definition info_bytes :: "processInfo \<Rightarrow> bytes" where
  "info_bytes i = le32 (word_of_int (ppid i)) @ le32 (word_of_nat (psize i)) @ le32 (word_of_int (numberContextSwitches i))"

definition sys_get_proc_info :: "kern \<Rightarrow> (int blk \<times> kern) option" where
  "sys_get_proc_info k =
     with_int 0 k (\<lambda>n.
       do {
         r \<leftarrow> argptr 1 12 k;
         case r of
           None \<Rightarrow> refused k
         | Some addr \<Rightarrow>
             do {
               (r, info) \<leftarrow> get_proc_info n k;
               k \<leftarrow> (case info of None \<Rightarrow> Some k | Some i \<Rightarrow> to_user addr (info_bytes i) k);
               Some (Ret r, k)
             }
       })"

definition sys_set_prio :: "kern \<Rightarrow> (int blk \<times> kern) option" where
  "sys_set_prio k = with_int 0 k (\<lambda>n. let (r, k) = set_prio n k in Some (Ret r, k))"

definition sys_get_prio :: "kern \<Rightarrow> (int blk \<times> kern) option" where
  "sys_get_prio k = Some (Ret (get_prio k), k)"

end
