(* ===== verification/Xv6_Sysfile.thy ===== *)
theory Xv6_Sysfile
  imports Xv6_Syscall
begin

text \<open>
  The system calls on files, \<^verbatim>\<open>hw3/xv6/sysfile.c\<close>, \<^verbatim>\<open>exec.c\<close> with \<^verbatim>\<open>loaduvm\<close> of \<^verbatim>\<open>vm.c\<close>, and the dispatch of
  \<^verbatim>\<open>syscall.c\<close>. A read from the console that has to wait for input is \<open>None\<close>.
\<close>

definition O_RDONLY :: u32 where "O_RDONLY = 0x000"
definition O_WRONLY :: u32 where "O_WRONLY = 0x001"
definition O_RDWR :: u32 where "O_RDWR = 0x002"
definition O_CREATE :: u32 where "O_CREATE = 0x200"
definition MAXARG :: nat where "MAXARG = 32"

abbreviation me :: "kern \<Rightarrow> int" where "me k \<equiv> pid (self k)"
abbreviation kd :: "kern \<Rightarrow> bool" where "kd k \<equiv> killed (self k)"

section \<open>Descriptors\<close>

definition argfd :: "nat \<Rightarrow> kern \<Rightarrow> (nat \<times> nat) option option" where
  "argfd n k =
     do {
       r \<leftarrow> argint n k;
       case r of
         None \<Rightarrow> Some None
       | Some w \<Rightarrow>
           if sint w < 0 \<or> sint w \<ge> int NOFILE then Some None
           else case ofile (self k) ! nat (sint w) of
             None \<Rightarrow> Some None
           | Some f \<Rightarrow> Some (Some (nat (sint w), f))
     }"

definition fdalloc :: "nat \<Rightarrow> kern \<Rightarrow> (nat \<times> kern) option" where
  "fdalloc f k =
     (case first_idx (\<lambda>x. x = None) (ofile (self k)) of
       None \<Rightarrow> None
     | Some fd \<Rightarrow> Some (fd, upd_proc (cur k) (\<lambda>p. p\<lparr>ofile := (ofile p)[fd := Some f]\<rparr>) k))"

definition with_fd :: "nat \<Rightarrow> kern \<Rightarrow> (nat \<Rightarrow> nat \<Rightarrow> (int blk \<times> kern) option) \<Rightarrow> (int blk \<times> kern) option" where
  "with_fd n k g = do { r \<leftarrow> argfd n k; case r of None \<Rightarrow> refused k | Some (fd, f) \<Rightarrow> g fd f }"

definition with_ptr :: "nat \<Rightarrow> int \<Rightarrow> kern \<Rightarrow> (nat \<Rightarrow> (int blk \<times> kern) option) \<Rightarrow> (int blk \<times> kern) option" where
  "with_ptr n len k g = do { r \<leftarrow> argptr n len k; case r of None \<Rightarrow> refused k | Some a \<Rightarrow> g a }"

definition with_str :: "nat \<Rightarrow> kern \<Rightarrow> (bytes \<Rightarrow> (int blk \<times> kern) option) \<Rightarrow> (int blk \<times> kern) option" where
  "with_str n k g = do { r \<leftarrow> argstr n k; case r of None \<Rightarrow> refused k | Some s \<Rightarrow> g s }"

definition sys_dup :: "kern \<Rightarrow> (int blk \<times> kern) option" where
  "sys_dup k =
     with_fd 0 k (\<lambda>fd f.
       case fdalloc f k of
         None \<Rightarrow> refused k
       | Some (fd, k) \<Rightarrow> do { k \<leftarrow> filedup f k; Some (Ret (int fd), k) })"

definition sys_read :: "kern \<Rightarrow> (int blk \<times> kern) option" where
  "sys_read k = with_fd 0 k (\<lambda>fd f. with_int 2 k (\<lambda>n. with_ptr 1 n k (\<lambda>p. fileread f p n k)))"

text \<open>A write that blocks on a pipe goes on with \<open>pipewrite\<close> and the bytes that remain.\<close>

definition sys_write :: "kern \<Rightarrow> (int blk \<times> kern) option" where
  "sys_write k =
     with_fd 0 k (\<lambda>fd f. with_int 2 k (\<lambda>n. with_ptr 1 n k (\<lambda>p. do { ((r, rest), k) \<leftarrow> filewrite f p n k; Some (r, k) })))"

definition sys_close :: "kern \<Rightarrow> (int blk \<times> kern) option" where
  "sys_close k =
     with_fd 0 k (\<lambda>fd f.
       do { k \<leftarrow> fileclose f (upd_proc (cur k) (\<lambda>p. p\<lparr>ofile := (ofile p)[fd := None]\<rparr>) k); Some (Ret 0, k) })"

text \<open>The fields of a \<^verbatim>\<open>struct stat\<close>; the padding behind each \<^verbatim>\<open>short\<close> is not written.\<close>

definition put_stat :: "nat \<Rightarrow> stat \<Rightarrow> kern \<Rightarrow> kern option" where
  "put_stat a st k =
     do {
       k \<leftarrow> to_user (a + 4) (le32 (word_of_nat (st_dev st)) @ le32 (word_of_nat (st_ino st))) k;
       k \<leftarrow> to_user a (le16 (st_type st)) k;
       k \<leftarrow> to_user (a + 12) (le16 (st_nlink st)) k;
       to_user (a + 16) (le32 (word_of_nat (st_size st))) k
     }"

definition sys_fstat :: "kern \<Rightarrow> (int blk \<times> kern) option" where
  "sys_fstat k =
     with_fd 0 k (\<lambda>fd f. with_ptr 1 20 k (\<lambda>a.
       do {
         (st, k) \<leftarrow> filestat f k;
         case st of None \<Rightarrow> refused k | Some st \<Rightarrow> do { k \<leftarrow> put_stat a st k; Some (Ret 0, k) }
       }))"

section \<open>Names\<close>

text \<open>The calls of the file system for the current process; a null \<^verbatim>\<open>cwd\<close> is an error in the kernel.\<close>

definition knamei :: "bytes \<Rightarrow> kern \<Rightarrow> (nat option \<times> kern) option" where
  "knamei path k = do { d \<leftarrow> cwd (self k); kfsr (namei (me k) (kd k) d path) k }"

definition knameiparent :: "bytes \<Rightarrow> kern \<Rightarrow> ((nat \<times> bytes) option \<times> kern) option" where
  "knameiparent path k = do { d \<leftarrow> cwd (self k); kfsr (nameiparent (me k) (kd k) d path) k }"

definition kilock :: "nat \<Rightarrow> kern \<Rightarrow> kern option" where "kilock ip k = kfs (ilock (me k) ip) k"
definition kiunlock :: "nat \<Rightarrow> kern \<Rightarrow> kern option" where "kiunlock ip k = kfs (iunlock (me k) ip) k"
definition kiunlockput :: "nat \<Rightarrow> kern \<Rightarrow> kern option" where "kiunlockput ip k = kfs (iunlockput (me k) ip) k"
definition kiput :: "nat \<Rightarrow> kern \<Rightarrow> kern option" where "kiput ip k = kfs (iput (me k) ip) k"
definition kiupdate :: "nat \<Rightarrow> kern \<Rightarrow> kern option" where "kiupdate ip k = kfs (iupdate (me k) ip) k"

abbreviation kino :: "kern \<Rightarrow> nat \<Rightarrow> inode" where "kino k ip \<equiv> ino (fs k) ip"
abbreviation upd_kino :: "nat \<Rightarrow> (inode \<Rightarrow> inode) \<Rightarrow> kern \<Rightarrow> kern" where "upd_kino ip f k \<equiv> k\<lparr>fs := upd_ino ip f (fs k)\<rparr>"

definition op_fails :: "kern \<Rightarrow> (int blk \<times> kern) option" where
  "op_fails k = do { k \<leftarrow> kend_op k; Some (Ret (- 1), k) }"

definition link_bad :: "nat \<Rightarrow> kern \<Rightarrow> (int blk \<times> kern) option" where
  "link_bad ip k =
     do {
       k \<leftarrow> kilock ip k;
       k \<leftarrow> kiupdate ip (upd_kino ip (\<lambda>i. i\<lparr>i_nlink := i_nlink i - 1\<rparr>) k);
       k \<leftarrow> kiunlockput ip k;
       op_fails k
     }"

definition sys_link :: "kern \<Rightarrow> (int blk \<times> kern) option" where
  "sys_link k =
     with_str 0 k (\<lambda>old. with_str 1 k (\<lambda>new.
       do {
         k \<leftarrow> kbegin_op k;
         (r, k) \<leftarrow> knamei old k;
         case r of
           None \<Rightarrow> op_fails k
         | Some ip \<Rightarrow>
             do {
               k \<leftarrow> kilock ip k;
               if i_type (kino k ip) = T_DIR then do { k \<leftarrow> kiunlockput ip k; op_fails k }
               else do {
                 k \<leftarrow> kiupdate ip (upd_kino ip (\<lambda>i. i\<lparr>i_nlink := i_nlink i + 1\<rparr>) k);
                 k \<leftarrow> kiunlock ip k;
                 (r, k) \<leftarrow> knameiparent new k;
                 case r of
                   None \<Rightarrow> link_bad ip k
                 | Some (dp, name) \<Rightarrow>
                     do {
                       k \<leftarrow> kilock dp k;
                       (r, k) \<leftarrow>
                         (if i_dev (kino k dp) \<noteq> i_dev (kino k ip) then Some (- 1, k)
                          else kfsr (dirlink (me k) (kd k) dp name (i_inum (kino k ip))) k);
                       if r < 0 then do { k \<leftarrow> kiunlockput dp k; link_bad ip k }
                       else do {
                         k \<leftarrow> kiunlockput dp k;
                         k \<leftarrow> kiput ip k;
                         k \<leftarrow> kend_op k;
                         Some (Ret 0, k)
                       }
                     }
               }
             }
       }))"

function isdirempty_loop :: "nat \<Rightarrow> nat \<Rightarrow> nat \<Rightarrow> kern \<Rightarrow> (bool \<times> kern) option" where
  "isdirempty_loop dp len off k =
     (if off < len then
        do {
          ((r, de), k) \<leftarrow> kfsr (\<lambda>s. map_option (\<lambda>(r, de, s). ((r, de), s)) (readi (me k) (kd k) dp off 16 s)) k;
          if r \<noteq> 16 then None else if de_inum de \<noteq> 0 then Some (False, k) else isdirempty_loop dp len (off + 16) k
        }
      else Some (True, k))"
  by pat_completeness auto
termination
  by (relation "measure (\<lambda>(dp, len, off, k). len - off)") auto

declare isdirempty_loop.simps [simp del]

definition isdirempty :: "nat \<Rightarrow> kern \<Rightarrow> (bool \<times> kern) option" where
  "isdirempty dp k = isdirempty_loop dp (i_size (kino k dp)) 32 k"

definition unlink_bad :: "nat \<Rightarrow> kern \<Rightarrow> (int blk \<times> kern) option" where
  "unlink_bad dp k = do { k \<leftarrow> kiunlockput dp k; op_fails k }"

definition sys_unlink :: "kern \<Rightarrow> (int blk \<times> kern) option" where
  "sys_unlink k =
     with_str 0 k (\<lambda>path.
       do {
         k \<leftarrow> kbegin_op k;
         (r, k) \<leftarrow> knameiparent path k;
         case r of
           None \<Rightarrow> op_fails k
         | Some (dp, name) \<Rightarrow>
             do {
               k \<leftarrow> kilock dp k;
               if namecmp name (str ''.'') = 0 \<or> namecmp name (str ''..'') = 0 then unlink_bad dp k
               else do {
                 (r, k) \<leftarrow> kfsr (dirlookup (me k) (kd k) dp name) k;
                 case r of
                   None \<Rightarrow> unlink_bad dp k
                 | Some (ip, off) \<Rightarrow>
                     do {
                       k \<leftarrow> kilock ip k;
                       if sint (i_nlink (kino k ip)) < 1 then None
                       else do {
                         (empty, k) \<leftarrow> (if i_type (kino k ip) = T_DIR then isdirempty ip k else Some (True, k));
                         if \<not> empty then do { k \<leftarrow> kiunlockput ip k; unlink_bad dp k }
                         else do {
                           (r, k) \<leftarrow> kfsr (writei (me k) dp (replicate 16 0) off) k;
                           if r \<noteq> 16 then None
                           else do {
                             k \<leftarrow>
                               (if i_type (kino k ip) = T_DIR
                                then kiupdate dp (upd_kino dp (\<lambda>i. i\<lparr>i_nlink := i_nlink i - 1\<rparr>) k) else Some k);
                             k \<leftarrow> kiunlockput dp k;
                             k \<leftarrow> kiupdate ip (upd_kino ip (\<lambda>i. i\<lparr>i_nlink := i_nlink i - 1\<rparr>) k);
                             k \<leftarrow> kiunlockput ip k;
                             k \<leftarrow> kend_op k;
                             Some (Ret 0, k)
                           }
                         }
                       }
                     }
               }
             }
       })"

text \<open>The inode is locked when there is one.\<close>

definition create :: "bytes \<Rightarrow> u16 \<Rightarrow> u16 \<Rightarrow> u16 \<Rightarrow> kern \<Rightarrow> (nat option \<times> kern) option" where
  "create path type major minor k =
     do {
       (r, k) \<leftarrow> knameiparent path k;
       case r of
         None \<Rightarrow> Some (None, k)
       | Some (dp, name) \<Rightarrow>
           do {
             k \<leftarrow> kilock dp k;
             (r, k) \<leftarrow> kfsr (dirlookup (me k) (kd k) dp name) k;
             case r of
               Some (ip, off) \<Rightarrow>
                 do {
                   k \<leftarrow> kiunlockput dp k;
                   k \<leftarrow> kilock ip k;
                   if type = T_FILE \<and> i_type (kino k ip) = T_FILE then Some (Some ip, k)
                   else do { k \<leftarrow> kiunlockput ip k; Some (None, k) }
                 }
             | None \<Rightarrow>
                 do {
                   (ip, k) \<leftarrow> kfsr (ialloc (me k) (i_dev (kino k dp)) type) k;
                   k \<leftarrow> kilock ip k;
                   k \<leftarrow> kiupdate ip (upd_kino ip (\<lambda>i. i\<lparr>i_major := major, i_minor := minor, i_nlink := 1\<rparr>) k);
                   k \<leftarrow>
                     (if type = T_DIR then
                        do {
                          k \<leftarrow> kiupdate dp (upd_kino dp (\<lambda>i. i\<lparr>i_nlink := i_nlink i + 1\<rparr>) k);
                          (r, k) \<leftarrow> kfsr (dirlink (me k) (kd k) ip (str ''.'') (i_inum (kino k ip))) k;
                          if r < 0 then None
                          else do {
                            (r, k) \<leftarrow> kfsr (dirlink (me k) (kd k) ip (str ''..'') (i_inum (kino k dp))) k;
                            if r < 0 then None else Some k
                          }
                        }
                      else Some k);
                   (r, k) \<leftarrow> kfsr (dirlink (me k) (kd k) dp name (i_inum (kino k ip))) k;
                   if r < 0 then None else do { k \<leftarrow> kiunlockput dp k; Some (Some ip, k) }
                 }
           }
     }"

text \<open>A new file with a descriptor for it; an error gives the file back.\<close>

definition open_file :: "kern \<Rightarrow> ((nat \<times> nat) option \<times> kern) option" where
  "open_file k =
     (case filealloc k of
       None \<Rightarrow> Some (None, k)
     | Some (f, k) \<Rightarrow>
         (case fdalloc f k of
           None \<Rightarrow> do { k \<leftarrow> fileclose f k; Some (None, k) }
         | Some (fd, k) \<Rightarrow> Some (Some (f, fd), k)))"

definition sys_open :: "kern \<Rightarrow> (int blk \<times> kern) option" where
  "sys_open k =
     with_str 0 k (\<lambda>path.
       do {
         r \<leftarrow> argint 1 k;
         case r of
           None \<Rightarrow> refused k
         | Some omode \<Rightarrow>
             do {
               k \<leftarrow> kbegin_op k;
               (r, k) \<leftarrow>
                 (if omode AND O_CREATE \<noteq> 0 then create path T_FILE 0 0 k
                  else do {
                    (r, k) \<leftarrow> knamei path k;
                    case r of
                      None \<Rightarrow> Some (None, k)
                    | Some ip \<Rightarrow>
                        do {
                          k \<leftarrow> kilock ip k;
                          if i_type (kino k ip) = T_DIR \<and> omode \<noteq> O_RDONLY then do { k \<leftarrow> kiunlockput ip k; Some (None, k) }
                          else Some (Some ip, k)
                        }
                  });
               case r of
                 None \<Rightarrow> op_fails k
               | Some ip \<Rightarrow>
                   do {
                     (r, k) \<leftarrow> open_file k;
                     case r of
                       None \<Rightarrow> do { k \<leftarrow> kiunlockput ip k; op_fails k }
                     | Some (f, fd) \<Rightarrow>
                         do {
                           k \<leftarrow> kiunlock ip k;
                           k \<leftarrow> kend_op k;
                           Some (Ret (int fd), upd_file f (\<lambda>x. x\<lparr>f_type := FD_INODE, f_ip := ip, f_off := 0,
                             f_readable := (omode AND O_WRONLY = 0),
                             f_writable := (omode AND O_WRONLY \<noteq> 0 \<or> omode AND O_RDWR \<noteq> 0)\<rparr>) k)
                         }
                   }
             }
       })"

text \<open>The end of the calls that only create.\<close>

definition created :: "(nat option \<times> kern) option \<Rightarrow> (int blk \<times> kern) option" where
  "created c =
     do {
       (r, k) \<leftarrow> c;
       case r of
         None \<Rightarrow> op_fails k
       | Some ip \<Rightarrow> do { k \<leftarrow> kiunlockput ip k; k \<leftarrow> kend_op k; Some (Ret 0, k) }
     }"

definition sys_mkdir :: "kern \<Rightarrow> (int blk \<times> kern) option" where
  "sys_mkdir k =
     do {
       k \<leftarrow> kbegin_op k;
       r \<leftarrow> argstr 0 k;
       created (case r of None \<Rightarrow> Some (None, k) | Some path \<Rightarrow> create path T_DIR 0 0 k)
     }"

definition sys_mknod :: "kern \<Rightarrow> (int blk \<times> kern) option" where
  "sys_mknod k =
     do {
       k \<leftarrow> kbegin_op k;
       a \<leftarrow> argstr 0 k;
       case a of
         None \<Rightarrow> op_fails k
       | Some path \<Rightarrow>
           do {
             b \<leftarrow> argint 1 k;
             case b of
               None \<Rightarrow> op_fails k
             | Some major \<Rightarrow>
                 do {
                   c \<leftarrow> argint 2 k;
                   case c of
                     None \<Rightarrow> op_fails k
                   | Some minor \<Rightarrow> created (create path T_DEV (ucast major) (ucast minor) k)
                 }
           }
     }"

definition sys_chdir :: "kern \<Rightarrow> (int blk \<times> kern) option" where
  "sys_chdir k =
     do {
       k \<leftarrow> kbegin_op k;
       a \<leftarrow> argstr 0 k;
       (r, k) \<leftarrow> (case a of None \<Rightarrow> Some (None, k) | Some path \<Rightarrow> knamei path k);
       case r of
         None \<Rightarrow> op_fails k
       | Some ip \<Rightarrow>
           do {
             k \<leftarrow> kilock ip k;
             if i_type (kino k ip) \<noteq> T_DIR then do { k \<leftarrow> kiunlockput ip k; op_fails k }
             else do {
               k \<leftarrow> kiunlock ip k;
               d \<leftarrow> cwd (self k);
               k \<leftarrow> kiput d k;
               k \<leftarrow> kend_op k;
               Some (Ret 0, upd_proc (cur k) (\<lambda>p. p\<lparr>cwd := Some ip\<rparr>) k)
             }
           }
     }"

definition sys_pipe :: "kern \<Rightarrow> (int blk \<times> kern) option" where
  "sys_pipe k =
     with_ptr 0 8 k (\<lambda>a.
       do {
         (r, k) \<leftarrow> pipealloc k;
         case r of
           None \<Rightarrow> refused k
         | Some (rf, wrf) \<Rightarrow>
             (case fdalloc rf k of
               None \<Rightarrow> do { k \<leftarrow> fileclose rf k; k \<leftarrow> fileclose wrf k; refused k }
             | Some (fd0, k) \<Rightarrow>
                 (case fdalloc wrf k of
                   None \<Rightarrow>
                     do {
                       k \<leftarrow> fileclose rf (upd_proc (cur k) (\<lambda>p. p\<lparr>ofile := (ofile p)[fd0 := None]\<rparr>) k);
                       k \<leftarrow> fileclose wrf k;
                       refused k
                     }
                 | Some (fd1, k) \<Rightarrow>
                     do { k \<leftarrow> to_user a (le32 (word_of_nat fd0) @ le32 (word_of_nat fd1)) k; Some (Ret 0, k) }))
       })"

section \<open>Running a program\<close>

definition kreadi :: "nat \<Rightarrow> nat \<Rightarrow> nat \<Rightarrow> kern \<Rightarrow> ((int \<times> bytes) \<times> kern) option" where
  "kreadi ip off n k = kfsr (\<lambda>s. map_option (\<lambda>(r, bs, s). ((r, bs), s)) (readi (me k) (kd k) ip off n s)) k"

text \<open>Whether all pages could be read; the loop goes over the pages of the segment.\<close>

fun loaduvm_loop :: "nat \<Rightarrow> nat \<Rightarrow> nat \<Rightarrow> nat \<Rightarrow> nat \<Rightarrow> nat list \<Rightarrow> kern \<Rightarrow> (bool \<times> kern) option" where
  "loaduvm_loop d addr ip offset len [] k = Some (True, k)"
| "loaduvm_loop d addr ip offset len (i # is) k =
     (let (pt, x) = walkpgdir d (addr + i) False (km k) in
      if pt = 0 then None
      else do {
        let pa = unat (PTE_ADDR (get32 (mem x) pt));
        let n = (if len - i < PGSIZE then len - i else PGSIZE);
        ((r, bs), k) \<leftarrow> kreadi ip ((offset + i) mod 2 ^ 32) n k;
        let k = k\<lparr>km := (km k)\<lparr>mem := put_bytes (P2V pa) bs (mem (km k))\<rparr>\<rparr>;
        if r \<noteq> int n then Some (False, k) else loaduvm_loop d addr ip offset len is k
      })"

definition loaduvm :: "nat \<Rightarrow> nat \<Rightarrow> nat \<Rightarrow> nat \<Rightarrow> nat \<Rightarrow> kern \<Rightarrow> (bool \<times> kern) option" where
  "loaduvm d addr ip offset len k =
     (if addr mod PGSIZE \<noteq> 0 then None
      else loaduvm_loop d addr ip offset len (map (\<lambda>j. j * PGSIZE) [0..<(len + PGSIZE - 1) div PGSIZE]) k)"

definition ELF_MAGIC :: nat where "ELF_MAGIC = 0x464C457F"
definition ELF_PROG_LOAD :: nat where "ELF_PROG_LOAD = 1"

definition u32_add :: "nat \<Rightarrow> nat \<Rightarrow> nat" where
  "u32_add a b = (a + b) mod 2 ^ 32"

text \<open>The loop over the program headers from offset \<open>off\<close>: the size of the image, or \<open>None\<close> for \<^verbatim>\<open>goto bad\<close>.\<close>

primrec exec_load :: "nat \<Rightarrow> nat \<Rightarrow> nat \<Rightarrow> nat \<Rightarrow> nat \<Rightarrow> kern \<Rightarrow> (nat option \<times> kern) option" where
  "exec_load 0 d ip off len k = Some (Some len, k)"
| "exec_load (Suc n) d ip off len k =
     do {
       ((r, ph), k) \<leftarrow> kreadi ip off 32 k;
       if r \<noteq> 32 then Some (None, k)
       else if field32 0 ph \<noteq> ELF_PROG_LOAD then exec_load n d ip (u32_add off 32) len k
       else do {
         let vaddr = field32 2 ph;
         let filesz = field32 4 ph;
         let memsz = field32 5 ph;
         if memsz < filesz then Some (None, k)
         else if u32_add vaddr memsz < vaddr then Some (None, k)
         else do {
           (len, x) \<leftarrow> allocuvm d len (u32_add vaddr memsz) (km k);
           let k = k\<lparr>km := x\<rparr>;
           if len = 0 then Some (None, k)
           else if vaddr mod PGSIZE \<noteq> 0 then Some (None, k)
           else do {
             (ok, k) \<leftarrow> loaduvm d vaddr ip (field32 1 ph) filesz k;
             if ok then exec_load n d ip (u32_add off 32) len k else Some (None, k)
           }
         }
       }
     }"

text \<open>The arguments on the stack: the stack pointer and the addresses of the strings.\<close>

fun exec_args :: "nat \<Rightarrow> nat \<Rightarrow> bytes list \<Rightarrow> u32 \<Rightarrow> u32 list \<Rightarrow> kern \<Rightarrow> ((u32 \<times> u32 list) option \<times> kern) option" where
  "exec_args d argc [] sp addrs k = Some (Some (sp, addrs), k)"
| "exec_args d argc (s # ss) sp addrs k =
     (if argc \<ge> MAXARG then Some (None, k)
      else do {
        let sp = (sp - word_of_nat (length s + 1)) AND NOT 3;
        (r, x) \<leftarrow> copyout d (unat sp) (s @ [0]) (km k);
        let k = k\<lparr>km := x\<rparr>;
        if r < 0 then Some (None, k) else exec_args d (argc + 1) ss sp (addrs @ [sp]) k
      })"

text \<open>The part of a path behind its last slash.\<close>

definition last_elem :: "bytes \<Rightarrow> bytes" where
  "last_elem path = rev (takeWhile (\<lambda>b. b \<noteq> 0x2f) (rev path))"

definition exec_bad :: "nat \<Rightarrow> nat option \<Rightarrow> kern \<Rightarrow> (int blk \<times> kern) option" where
  "exec_bad d ip k =
     do {
       k \<leftarrow> (if d \<noteq> 0 then do { x \<leftarrow> freevm d (km k); Some (k\<lparr>km := x\<rparr>) } else Some k);
       k \<leftarrow> (case ip of None \<Rightarrow> Some k | Some ip \<Rightarrow> do { k \<leftarrow> kiunlockput ip k; kend_op k });
       refused k
     }"

text \<open>From the stack on, when the file has been closed.\<close>

definition exec_stack :: "nat \<Rightarrow> nat \<Rightarrow> u32 \<Rightarrow> bytes \<Rightarrow> bytes list \<Rightarrow> kern \<Rightarrow> (int blk \<times> kern) option" where
  "exec_stack d len entry path argv k =
     do {
       let len = PGROUNDUP len mod 2 ^ 32;
       (len, x) \<leftarrow> allocuvm d len (u32_add len (2 * PGSIZE)) (km k);
       let k = k\<lparr>km := x\<rparr>;
       if len = 0 then exec_bad d None k
       else do {
         x \<leftarrow> clearpteu d (len - 2 * PGSIZE) (km k);
         (r, k) \<leftarrow> exec_args d 0 argv (word_of_nat len) [] (k\<lparr>km := x\<rparr>);
         case r of
           None \<Rightarrow> exec_bad d None k
         | Some (sp, addrs) \<Rightarrow>
             do {
               let argc = word_of_nat (length argv);
               let ustack = [0xffffffff, argc, sp - (argc + 1) * 4] @ addrs @ [0];
               let sp = sp - (3 + argc + 1) * 4;
               (r, x) \<leftarrow> copyout d (unat sp) (concat (map le32 ustack)) (km k);
               let k = k\<lparr>km := x\<rparr>;
               if r < 0 then exec_bad d None k
               else do {
                 let old = pgdir (self k);
                 let k = upd_proc (cur k) (\<lambda>p. p\<lparr>pname := proc_name (last_elem path), pgdir := d, sz := len,
                           tf := (tf p)\<lparr>tf_eip := entry, tf_esp := sp\<rparr>\<rparr>) k;
                 k \<leftarrow> switchuvm (cur k) k;
                 x \<leftarrow> freevm old (km k);
                 Some (Ret 0, k\<lparr>km := x\<rparr>)
               }
             }
       }
     }"

definition exec :: "bytes \<Rightarrow> bytes list \<Rightarrow> kern \<Rightarrow> (int blk \<times> kern) option" where
  "exec path argv k =
     do {
       k \<leftarrow> kbegin_op k;
       (r, k) \<leftarrow> knamei path k;
       case r of
         None \<Rightarrow> do { k \<leftarrow> kend_op k; k \<leftarrow> kprint (str ''exec: fail'' @ [10]) [] k; refused k }
       | Some ip \<Rightarrow>
           do {
             k \<leftarrow> kilock ip k;
             ((r, elf), k) \<leftarrow> kreadi ip 0 52 k;
             if r \<noteq> 52 then exec_bad 0 (Some ip) k
             else if field32 0 elf \<noteq> ELF_MAGIC then exec_bad 0 (Some ip) k
             else do {
               (d, x) \<leftarrow> setupkvm (km k);
               let k = k\<lparr>km := x\<rparr>;
               if d = 0 then exec_bad 0 (Some ip) k
               else do {
                 (r, k) \<leftarrow> exec_load (unat (de16 (dread 44 2 elf))) d ip (field32 7 elf) 0 k;
                 case r of
                   None \<Rightarrow> exec_bad d (Some ip) k
                 | Some len \<Rightarrow>
                     do {
                       k \<leftarrow> kiunlockput ip k;
                       k \<leftarrow> kend_op k;
                       exec_stack d len (word_of_nat (field32 6 elf)) path argv k
                     }
               }
             }
           }
     }"

text \<open>The argument strings of \<^verbatim>\<open>exec\<close>, fetched from the array at \<open>uargv\<close>.\<close>

primrec exec_argv :: "nat \<Rightarrow> nat \<Rightarrow> nat \<Rightarrow> kern \<Rightarrow> bytes list option option" where
  "exec_argv 0 uargv i k = Some None"
| "exec_argv (Suc n) uargv i k =
     do {
       r \<leftarrow> fetchint (u32_add uargv (4 * i)) k;
       case r of
         None \<Rightarrow> Some None
       | Some uarg \<Rightarrow>
           if uarg = 0 then Some (Some [])
           else do {
             l \<leftarrow> fetchstr (unat uarg) k;
             case l of
               None \<Rightarrow> Some None
             | Some l \<Rightarrow>
                 do {
                   s \<leftarrow> from_user (unat uarg) l k;
                   ss \<leftarrow> exec_argv n uargv (i + 1) k;
                   Some (map_option ((#) s) ss)
                 }
           }
     }"

definition sys_exec :: "kern \<Rightarrow> (int blk \<times> kern) option" where
  "sys_exec k =
     with_str 0 k (\<lambda>path.
       do {
         r \<leftarrow> argint 1 k;
         case r of
           None \<Rightarrow> refused k
         | Some uargv \<Rightarrow>
             do {
               a \<leftarrow> exec_argv MAXARG (unat uargv) 0 k;
               case a of None \<Rightarrow> refused k | Some argv \<Rightarrow> exec path argv k
             }
       })"

section \<open>Dispatch\<close>

definition syscalls :: "(kern \<Rightarrow> (int blk \<times> kern) option) list" where
  "syscalls =
     [sys_fork, sys_exit, sys_wait, sys_pipe, sys_read, sys_kill, sys_exec, sys_fstat, sys_chdir, sys_dup, sys_getpid,
      sys_sbrk, sys_sleep, sys_uptime, sys_open, sys_write, sys_mknod, sys_unlink, sys_link, sys_mkdir, sys_close,
      sys_hello, sys_hello_name, sys_get_num_proc, sys_get_max_pid, sys_get_proc_info, sys_set_prio, sys_get_prio]"

text \<open>A call that blocks or does not return leaves the register alone.\<close>

definition syscall :: "kern \<Rightarrow> (int blk \<times> kern) option" where
  "syscall k =
     (let num = sint (tf_eax (tf (self k))) in
      if 0 < num \<and> num \<le> int (length syscalls) then
        do {
          (r, k) \<leftarrow> (syscalls ! (nat num - 1)) k;
          case r of
            Blocked \<Rightarrow> Some (Blocked, k)
          | Ret v \<Rightarrow> Some (Ret v, upd_proc (cur k) (\<lambda>p. p\<lparr>tf := (tf p)\<lparr>tf_eax := word_of_int v\<rparr>\<rparr>) k)
        }
      else do {
        k \<leftarrow> kprint (str ''%d %s: unknown sys call %d'' @ [10])
          [CInt (word_of_int (pid (self k))), CStr (Some (pname (self k))), CInt (word_of_int num)] k;
        Some (Ret (- 1), upd_proc (cur k) (\<lambda>p. p\<lparr>tf := (tf p)\<lparr>tf_eax := - 1\<rparr>\<rparr>) k)
      })"

end
