(* ===== verification/Xv6_Trap.thy ===== *)
theory Xv6_Trap
  imports Xv6_Sysfile
begin

text \<open>
  Traps and interrupts, \<^verbatim>\<open>hw3/xv6/trap.c\<close>. The handler ends with the return to the interrupted code, with
  the process off the processor (asleep, ended, or yielded), or with a panic. The interrupt of the disk changes nothing
  here: a read or write of the disk (\<^verbatim>\<open>ide.c\<close>) is one step of the buffer cache. \<^verbatim>\<open>lapiceoi\<close> only talks to the
  interrupt controller.
\<close>

definition T_SYSCALL :: u32 where "T_SYSCALL = 64"
definition T_IRQ0 :: u32 where "T_IRQ0 = 32"
definition IRQ_TIMER :: u32 where "IRQ_TIMER = 0"
definition IRQ_KBD :: u32 where "IRQ_KBD = 1"
definition IRQ_COM1 :: u32 where "IRQ_COM1 = 4"
definition IRQ_IDE :: u32 where "IRQ_IDE = 14"
definition IRQ_SPURIOUS :: u32 where "IRQ_SPURIOUS = 31"

datatype trap_end = Resumes | Off_cpu

definition exits :: "kern \<Rightarrow> (trap_end \<times> kern) option" where
  "exits k = do { k \<leftarrow> exit k; Some (Off_cpu, k) }"

text \<open>The interrupt of the keyboard or the serial port, with the characters it delivers; the listing of processes is not modelled.\<close>

definition input_intr :: "int list \<Rightarrow> kern \<Rightarrow> kern option" where
  "input_intr chars k =
     do {
       (c, wake, dump) \<leftarrow> consoleintr chars (con (fs k));
       let k = k\<lparr>fs := (fs k)\<lparr>con := c\<rparr>\<rparr>;
       Some (if wake then wakeup ChInput k else k)
     }"

definition from_user_mode :: "trapframe \<Rightarrow> bool" where
  "from_user_mode f \<longleftrightarrow> tf_cs f AND 3 = DPL_USER"

text \<open>
  The switch on the number of the trap. \<open>hasproc\<close> says whether a process runs on this processor \<open>c\<close>,
  \<open>cr2\<close> is the address of a page fault, and \<open>err\<close> the error code.
\<close>

definition trap_switch :: "nat \<Rightarrow> bool \<Rightarrow> int list \<Rightarrow> u32 \<Rightarrow> u32 \<Rightarrow> trapframe \<Rightarrow> kern \<Rightarrow> kern option" where
  "trap_switch c hasproc chars cr2 err f k =
     (if tf_trapno f = T_IRQ0 + IRQ_TIMER then
        Some (if c = 0 then wakeup ChTicks (k\<lparr>ticks := ticks k + 1\<rparr>) else k)
      else if tf_trapno f = T_IRQ0 + IRQ_IDE \<or> tf_trapno f = T_IRQ0 + IRQ_IDE + 1 then Some k
      else if tf_trapno f = T_IRQ0 + IRQ_KBD \<or> tf_trapno f = T_IRQ0 + IRQ_COM1 then input_intr chars k
      else if tf_trapno f = T_IRQ0 + 7 \<or> tf_trapno f = T_IRQ0 + IRQ_SPURIOUS then
        kprint (str ''cpu%d: spurious interrupt at %x:%x'' @ [10]) [CInt (word_of_nat c), CInt (ucast (tf_cs f)), CInt (tf_eip f)] k
      else if \<not> hasproc \<or> tf_cs f AND 3 = 0 then None
      else do {
        k \<leftarrow> kprint (str ''pid %d %s: trap %d err %d on cpu %d eip 0x%x addr 0x%x--kill proc'' @ [10])
          [CInt (word_of_int (pid (self k))), CStr (Some (pname (self k))), CInt (tf_trapno f), CInt err,
           CInt (word_of_nat c), CInt (tf_eip f), CInt cr2] k;
        Some (upd_proc (cur k) (\<lambda>p. p\<lparr>killed := True\<rparr>) k)
      })"

definition trap :: "nat \<Rightarrow> bool \<Rightarrow> int list \<Rightarrow> u32 \<Rightarrow> u32 \<Rightarrow> trapframe \<Rightarrow> kern \<Rightarrow> (trap_end \<times> kern) option" where
  "trap c hasproc chars cr2 err f k =
     (if tf_trapno f = T_SYSCALL then
        (if killed (self k) then exits k
         else do {
           (r, k) \<leftarrow> syscall (upd_proc (cur k) (\<lambda>p. p\<lparr>tf := f\<rparr>) k);
           case r of
             Blocked \<Rightarrow> Some (Off_cpu, k)
           | Ret v \<Rightarrow> if killed (self k) then exits k else Some (Resumes, k)
         })
      else do {
        k \<leftarrow> trap_switch c hasproc chars cr2 err f k;
        if hasproc \<and> killed (self k) \<and> from_user_mode f then exits k
        else if hasproc \<and> state (self k) = RUNNING \<and> tf_trapno f = T_IRQ0 + IRQ_TIMER then Some (Off_cpu, yield k)
        else Some (Resumes, k)
      })"

text \<open>What is left of the handler when a process that yielded runs again.\<close>

definition trap_again :: "trapframe \<Rightarrow> kern \<Rightarrow> (trap_end \<times> kern) option" where
  "trap_again f k = (if killed (self k) \<and> from_user_mode f then exits k else Some (Resumes, k))"

end
