(* ===== verification/Xv6_Boot.thy ===== *)
theory Xv6_Boot
  imports Xv6_Proc
begin

text \<open>
  The state of the kernel before the first process: the static data of a C program is zero, so every slot of the process
  table (\<^verbatim>\<open>hw3/xv6/proc.c\<close>) is unused and every file closed; \<^verbatim>\<open>nextpid\<close> is 1 and the first return to user space is still to come.
\<close>

definition zero_frame :: trapframe where
  "zero_frame = \<lparr>tf_eax = 0, tf_es = 0, tf_ds = 0, tf_eip = 0, tf_cs = 0, tf_eflags = 0, tf_esp = 0, tf_ss = 0, tf_trapno = 0,
     tf_rest = replicate 10 0\<rparr>"

definition zero_proc :: proc where
  "zero_proc = \<lparr>sz = 0, pgdir = 0, kstack = 0, state = UNUSED, pid = 0, parent = None, tf = zero_frame, ctx_eip = 0, chan = None,
     killed = False, ofile = replicate NOFILE None, cwd = None, pname = [], switch_cnt = 0, priority = 0\<rparr>"

definition zero_file :: kfile where
  "zero_file = \<lparr>f_type = FD_NONE, f_ref = 0, f_readable = False, f_writable = False, f_pipe = 0, f_ip = 0, f_off = 0\<rparr>"

definition zero_lock :: sleeplock where
  "zero_lock = \<lparr>sl_locked = False, sl_pid = 0\<rparr>"

definition zero_fs :: fsys where
  "zero_fs =
     \<lparr>io = \<lparr>bufs = replicate NBUF \<lparr>b_valid = False, b_dirty = False, b_dev = 0, b_blockno = 0, b_lock = zero_lock, b_refcnt = 0,
              b_data = replicate BSIZE 0\<rparr>, mru = [0..<NBUF], disk = (\<lambda>b. replicate BSIZE 0), disksize = 0, writes = []\<rparr>,
      lg = \<lparr>lg_start = 0, lg_size = 0, lg_outstanding = 0, lg_committing = False, lg_dev = 0, lg_lh = []\<rparr>,
      sb = \<lparr>sb_size = 0, sb_nblocks = 0, sb_ninodes = 0, sb_nlog = 0, sb_logstart = 0, sb_inodestart = 0, sb_bmapstart = 0\<rparr>,
      icache = replicate NINODE \<lparr>i_dev = 0, i_inum = 0, i_ref = 0, i_lock = zero_lock, i_valid = False, i_type = 0, i_major = 0,
              i_minor = 0, i_nlink = 0, i_size = 0, i_addrs = replicate (NDIRECT + 1) 0\<rparr>,
      con = \<lparr>c_buf = replicate INPUT_BUF 0, c_r = 0, c_w = 0, c_e = 0, c_panicked = False, uart = True, c_uart = [],
              c_crt = replicate (25 * 80) 0, c_pos = 0\<rparr>\<rparr>"

definition boot_kern :: "kmem \<Rightarrow> kern" where
  "boot_kern x = \<lparr>km = x, fs = zero_fs, files = replicate NFILE zero_file,
     pipes = (\<lambda>_. \<lparr>p_data = replicate PIPESIZE 0, p_nread = 0, p_nwrite = 0, p_readopen = False, p_writeopen = False\<rparr>),
     procs = replicate NPROC zero_proc, nextpid = 1, initproc = None, ticks = 0, cur = 0, cr3 = 0, tss_ss0 = 0, tss_esp0 = 0,
     tss_iomb = 0, kpgdir = 0, forkret_sym = 0x80103d00, first_ret = True\<rparr>"

lemma boot_kern_simps [simp]:
  "procs (boot_kern x) = replicate NPROC zero_proc" "files (boot_kern x) = replicate NFILE zero_file"
  "nextpid (boot_kern x) = 1" "km (boot_kern x) = x" "initproc (boot_kern x) = None" "cur (boot_kern x) = 0"
  by (simp_all add: boot_kern_def)

lemma zero_proc_simps [simp]:
  "state zero_proc = UNUSED" "pid zero_proc = 0" "ofile zero_proc = replicate NOFILE None" "parent zero_proc = None"
  "killed zero_proc = False" "switch_cnt zero_proc = 0" "priority zero_proc = 0" "kstack zero_proc = 0" "pgdir zero_proc = 0"
  "sz zero_proc = 0" "cwd zero_proc = None"
  by (simp_all add: zero_proc_def)

end
