(* ===== verification/Xv6_Sched.thy ===== *)
theory Xv6_Sched
  imports Xv6_Boot
begin

text \<open>
  The scheduler of \<^verbatim>\<open>hw3/xv6/proc.c\<close>: its bubble sort orders the priorities, and in one turn of its loop a
  process that stays ready is run once for every ready process whose priority is not above its own.
\<close>

section \<open>The sort\<close>

lemma mset_bubble [simp]: "mset (bubble n q) = mset q"
  by (induction n q rule: bubble.induct) auto

lemma length_bubble [simp]: "length (bubble n q) = length q"
  by (metis mset_bubble size_mset)

text \<open>The comparisons carry the least of the first \<open>n + 1\<close> entries to place \<open>n\<close> and leave the rest alone.\<close>

lemma drop_bubble: "drop (Suc n) (bubble n q) = drop (Suc n) q"
  by (induction n q rule: bubble.induct) auto

lemma bubble_least:
  "n < length q \<Longrightarrow> x \<in> set (take (Suc n) q) \<Longrightarrow> bubble n q ! n \<le> x"
proof (induction n q arbitrary: x rule: bubble.induct)
  case (1 n a b q)
  show ?case
  proof (cases "a < b")
    case True
    have "bubble n (a # q) ! n \<le> y" if "y \<in> set (take (Suc n) (a # q))" for y
      using "1.IH"(1) [OF True _ that] "1.prems"(1) by simp
    then show ?thesis using True "1.prems"(2) by fastforce
  next
    case False
    have "bubble n (b # q) ! n \<le> y" if "y \<in> set (take (Suc n) (b # q))" for y
      using "1.IH"(2) [OF False _ that] "1.prems"(1) by simp
    then show ?thesis using False "1.prems"(2) by fastforce
  qed
qed (auto simp: take_Suc hd_conv_nth)

definition tail_sorted :: "nat \<Rightarrow> int list \<Rightarrow> bool" where
  "tail_sorted m q \<longleftrightarrow> sorted_wrt (\<ge>) (drop m q) \<and> (\<forall>x\<in>set (take m q). \<forall>y\<in>set (drop m q). y \<le> x)"

lemma bubble_step:
  assumes "tail_sorted (Suc m) q" "Suc m \<le> length q"
  shows "tail_sorted m (bubble m q)"
proof -
  let ?b = "bubble m q"
  have d: "drop (Suc m) ?b = drop (Suc m) q" by (rule drop_bubble)
  have t: "mset (take (Suc m) ?b) = mset (take (Suc m) q)"
    using d mset_bubble [of m q] by (metis add_right_imp_eq append_take_drop_id mset_append)
  then have st: "set (take (Suc m) ?b) = set (take (Suc m) q)" by (metis set_mset_mset)
  have dm: "drop m ?b = ?b ! m # drop (Suc m) q"
    using assms(2) d by (metis Cons_nth_drop_Suc Suc_le_eq length_bubble)
  have mem: "?b ! m \<in> set (take (Suc m) q)"
    using assms(2) st by (metis in_set_conv_nth length_bubble length_take lessI min.absorb2 nth_take)
  have sub: "set (take m ?b) \<subseteq> set (take (Suc m) q)"
    using st set_take_subset_set_take [of m "Suc m" ?b] by simp
  have least: "?b ! m \<le> x" if "x \<in> set (take (Suc m) q)" for x
    using bubble_least [OF _ that] assms(2) by simp
  show ?thesis
    using assms(1) mem sub least unfolding tail_sorted_def dm by fastforce
qed

lemma sort_queue_steps:
  "k \<le> length q - 1 \<Longrightarrow> tail_sorted (length q - k) (fold (\<lambda>i q'. bubble (length q - i - 1) q') [0..<k] q) \<and>
     mset (fold (\<lambda>i q'. bubble (length q - i - 1) q') [0..<k] q) = mset q"
proof (induction k)
  case 0
  show ?case by (simp add: tail_sorted_def)
next
  case (Suc k)
  let ?f = "fold (\<lambda>i q'. bubble (length q - i - 1) q') [0..<k] q"
  have ih: "tail_sorted (length q - k) ?f" "mset ?f = mset q" using Suc by auto
  have l: "length ?f = length q" using ih(2) by (metis size_mset)
  have e: "length q - k = Suc (length q - k - 1)" using Suc.prems by simp
  have "tail_sorted (length q - k - 1) (bubble (length q - k - 1) ?f)"
    using bubble_step [of "length q - k - 1" ?f] ih(1) e l by simp
  then show ?case using ih(2) by simp
qed

lemma mset_sort_queue [simp]: "mset (sort_queue q) = mset q"
  using sort_queue_steps [of "length q - 1" q] by (simp add: sort_queue_def Let_def)

lemma sort_queue_desc: "sorted_wrt (\<ge>) (sort_queue q)"
proof (cases "length q")
  case 0
  then show ?thesis by (simp add: sort_queue_def)
next
  case (Suc n)
  have "tail_sorted 1 (sort_queue q)"
    using sort_queue_steps [of "length q - 1" q] Suc by (simp add: sort_queue_def Let_def)
  then show ?thesis
    by (cases "sort_queue q") (auto simp: tail_sorted_def)
qed

text \<open>C33. The bubble sort of the scheduler is a sort: it gives the priorities of the queue in descending order, each as often as it was there.\<close>

theorem sort_queue_sorts: "sort_queue q = rev (sort q)"
proof -
  have "sorted (rev (sort_queue q))" using sort_queue_desc [of q] by (simp add: sorted_wrt_rev)
  then have "sort q = rev (sort_queue q)" by (intro properties_for_sort) simp_all
  then show ?thesis by simp
qed

section \<open>One turn of the loop\<close>

text \<open>\<open>ran c k k'\<close>: process \<open>j\<close> was run \<open>c j\<close> times between \<open>k\<close> and \<open>k'\<close>, and is as ready as it was.
  The counter of its runs wraps around.\<close>

definition ran :: "(nat \<Rightarrow> nat) \<Rightarrow> kern \<Rightarrow> kern \<Rightarrow> bool" where
  "ran c k k' \<longleftrightarrow> length (procs k') = length (procs k) \<and>
     (\<forall>j<length (procs k).
        state (procs k' ! j) = state (procs k ! j) \<and> priority (procs k' ! j) = priority (procs k ! j) \<and>
        kstack (procs k' ! j) = kstack (procs k ! j) \<and> pgdir (procs k' ! j) = pgdir (procs k ! j) \<and>
        switch_cnt (procs k' ! j) = (if c j = 0 then switch_cnt (procs k ! j) else int32 (switch_cnt (procs k ! j) + int (c j))))"

lemma ran_refl: "ran (\<lambda>_. 0) k k"
  by (simp add: ran_def)

text \<open>A ready process has a stack and a page directory.\<close>

definition can_run :: "kern \<Rightarrow> bool" where
  "can_run k \<longleftrightarrow> (\<forall>p\<in>set (procs k). state p = RUNNABLE \<longrightarrow> kstack p \<noteq> 0 \<and> pgdir p \<noteq> 0)"

lemma can_run_nth: "can_run k \<longleftrightarrow>
    (\<forall>j<length (procs k). state (procs k ! j) = RUNNABLE \<longrightarrow> kstack (procs k ! j) \<noteq> 0 \<and> pgdir (procs k ! j) \<noteq> 0)"
  by (simp add: can_run_def all_set_conv_all_nth)

lemma ran_can_run: "ran c k k' \<Longrightarrow> can_run k \<Longrightarrow> can_run k'"
  by (simp add: ran_def can_run_nth)

abbreviation picked :: "kern \<Rightarrow> int \<Rightarrow> nat \<Rightarrow> bool" where
  "picked k q j \<equiv> state (procs k ! j) = RUNNABLE \<and> priority (procs k ! j) \<ge> q"

text \<open>Processes that use up their time: when one comes back it is ready again, and it has touched no other process.\<close>

locale cpu_bound =
  fixes run :: "nat \<Rightarrow> kern \<Rightarrow> kern"
  assumes run_length: "cur k = i \<Longrightarrow> length (procs (run i k)) = length (procs k)"
    and run_other: "cur k = i \<Longrightarrow> j \<noteq> i \<Longrightarrow> procs (run i k) ! j = procs k ! j"
    and run_self: "cur k = i \<Longrightarrow> i < length (procs k) \<Longrightarrow> state (procs (run i k) ! i) = RUNNABLE \<and>
          priority (procs (run i k) ! i) = priority (procs k ! i) \<and> kstack (procs (run i k) ! i) = kstack (procs k ! i) \<and>
          pgdir (procs (run i k) ! i) = pgdir (procs k ! i) \<and> switch_cnt (procs (run i k) ! i) = switch_cnt (procs k ! i)"
begin

lemma sched_one_ran:
  assumes "i < length (procs k)" "can_run k"
  shows "\<exists>k'. sched_one run q i k = Some k' \<and> ran (\<lambda>j. if j = i \<and> picked k q i then 1 else 0) k k'"
proof (cases "picked k q i")
  case True
  obtain K where u: "switchuvm i (k\<lparr>cur := i\<rparr>) = Some K" and K: "procs K = procs k" "cur K = i"
    using assms True by (simp add: switchuvm_def can_run_nth)
  let ?r = "upd_proc i (\<lambda>p. p\<lparr>state := RUNNING\<rparr>) K"
  define R where "R = run i ?r"
  have c: "cur ?r = i" using K by simp
  have l: "i < length (procs ?r)" using assms(1) K by simp
  have e: "sched_one run q i k = Some (upd_proc i (\<lambda>p. p\<lparr>switch_cnt := int32 (switch_cnt p + 1)\<rparr>) (switchkvm R))"
    using True u by (simp add: sched_one_def R_def Let_def)
  have len: "length (procs R) = length (procs k)" using run_length [OF c] K by (simp add: R_def)
  have other: "procs R ! j = procs k ! j" if "j \<noteq> i" for j using run_other [OF c that] that K by (simp add: R_def)
  have own: "state (procs R ! i) = RUNNABLE" "priority (procs R ! i) = priority (procs k ! i)"
      "kstack (procs R ! i) = kstack (procs k ! i)" "pgdir (procs R ! i) = pgdir (procs k ! i)"
      "switch_cnt (procs R ! i) = switch_cnt (procs k ! i)"
    using run_self [OF c l] assms(1) K by (simp_all add: R_def)
  show ?thesis
    unfolding e using True len other own assms(1) by (simp add: ran_def switchkvm_def nth_list_update)
next
  case False
  then show ?thesis using ran_refl [of k] by (auto simp: sched_one_def)
qed

lemma sched_pass_ran:
  assumes "set is \<subseteq> {..<length (procs k)}" "distinct is" "can_run k"
  shows "\<exists>k'. sched_pass run q is k = Some k' \<and> ran (\<lambda>j. if j \<in> set is \<and> picked k q j then 1 else 0) k k'"
  using assms
proof (induction "is" arbitrary: k)
  case Nil
  then show ?case using ran_refl by simp
next
  case (Cons i "is")
  have i: "i < length (procs k)" using Cons.prems(1) by simp
  obtain k1 where k1: "sched_one run q i k = Some k1" "ran (\<lambda>j. if j = i \<and> picked k q i then 1 else 0) k k1"
    using sched_one_ran [OF i Cons.prems(3)] by blast
  have "set is \<subseteq> {..<length (procs k1)}" "can_run k1"
    using Cons.prems k1(2) ran_can_run [OF k1(2)] by (simp_all add: ran_def)
  then obtain k2 where k2: "sched_pass run q is k1 = Some k2" "ran (\<lambda>j. if j \<in> set is \<and> picked k1 q j then 1 else 0) k1 k2"
    using Cons.IH Cons.prems(2) by fastforce
  have "ran (\<lambda>j. if j \<in> set (i # is) \<and> picked k q j then 1 else 0) k k2"
    using k1(2) k2(2) Cons.prems(2) unfolding ran_def by (auto simp: add.assoc)
  then show ?case using k1(1) k2(1) by simp
qed

lemma sched_passes_ran:
  assumes "length (procs k) = NPROC" "can_run k"
  shows "\<exists>k'. sched_passes run qs k = Some k' \<and> ran (\<lambda>j. length (filter (\<lambda>q. picked k q j) qs)) k k'"
  using assms
proof (induction qs arbitrary: k)
  case Nil
  then show ?case using ran_refl by simp
next
  case (Cons q qs)
  obtain k1 where k1: "sched_pass run q [0..<NPROC] k = Some k1" "ran (\<lambda>j. if j \<in> set [0..<NPROC] \<and> picked k q j then 1 else 0) k k1"
    using sched_pass_ran [of "[0..<NPROC]" k q] Cons.prems by (auto simp: atLeast0LessThan)
  have "length (procs k1) = NPROC" "can_run k1"
    using Cons.prems k1(2) ran_can_run [OF k1(2)] by (simp_all add: ran_def)
  then obtain k2 where k2: "sched_passes run qs k1 = Some k2" "ran (\<lambda>j. length (filter (\<lambda>q. picked k1 q j) qs)) k1 k2"
    using Cons.IH by blast
  have "ran (\<lambda>j. length (filter (\<lambda>q. picked k q j) (q # qs))) k k2"
    using k1(2) k2(2) Cons.prems(1) unfolding ran_def by (auto simp: add.assoc)
  then show ?case using k1(1) k2(1) by auto
qed

end

interpretation yielding: cpu_bound "\<lambda>i. yield"
  by unfold_locales (auto simp: yield_def)

definition ready_below :: "kern \<Rightarrow> int \<Rightarrow> nat" where
  "ready_below k q = length (filter (\<lambda>p. state p = RUNNABLE \<and> priority p \<le> q) (procs k))"

lemma length_filter_mset: "length (filter P xs) = size (filter_mset P (mset xs))"
  by (metis mset_filter size_mset)

lemma queue_below: "length (filter (\<lambda>x. x \<le> q) (sort_queue (ready_prios k))) = ready_below k q"
proof -
  have "length (filter (\<lambda>x. x \<le> q) (sort_queue (ready_prios k))) = length (filter (\<lambda>x. x \<le> q) (ready_prios k))"
    by (simp add: length_filter_mset)
  also have "\<dots> = ready_below k q"
    by (simp add: ready_prios_def ready_below_def filter_map o_def conj_commute)
  finally show ?thesis .
qed

text \<open>C6. When every ready process has a stack and a page directory and the processes use up their time, one turn of the scheduler ends, and it has run every ready process
  once for each ready process whose priority is not above its own (so at least once, and more often the higher its
  priority is), and no other process: the counter of its runs has gone up by that number, as an \<^verbatim>\<open>int\<close>, so it is larger than
  before unless it wraps around.
\<close>

theorem scheduler_shares:
  assumes "length (procs k) = NPROC" "can_run k"
  shows "\<exists>k'. scheduler (\<lambda>i. yield) k = Some k' \<and>
    (\<forall>i<NPROC. state (procs k' ! i) = state (procs k ! i) \<and>
       switch_cnt (procs k' ! i) = (if state (procs k ! i) = RUNNABLE
         then int32 (switch_cnt (procs k ! i) + int (ready_below k (priority (procs k ! i)))) else switch_cnt (procs k ! i))) \<and>
    (\<forall>i<NPROC. state (procs k ! i) = RUNNABLE \<and> 0 \<le> switch_cnt (procs k ! i) \<and> switch_cnt (procs k ! i) + int NPROC < 2 ^ 31 \<longrightarrow>
       switch_cnt (procs k ! i) < switch_cnt (procs k' ! i))"
proof -
  obtain k' where k': "scheduler (\<lambda>i. yield) k = Some k'"
      "ran (\<lambda>j. length (filter (\<lambda>q. picked k q j) (sort_queue (ready_prios k)))) k k'"
    using yielding.sched_passes_ran [OF assms] unfolding scheduler_def by blast
  have n: "length (filter (\<lambda>q. picked k q j) (sort_queue (ready_prios k))) =
      (if state (procs k ! j) = RUNNABLE then ready_below k (priority (procs k ! j)) else 0)" for j
    using queue_below by simp
  have pos: "0 < ready_below k (priority (procs k ! j))" if "j < NPROC" "state (procs k ! j) = RUNNABLE" for j
    using that assms(1) nth_mem [of j "procs k"] by (force simp: ready_below_def filter_empty_conv)
  have cnt: "state (procs k' ! i) = state (procs k ! i) \<and>
       switch_cnt (procs k' ! i) = (if state (procs k ! i) = RUNNABLE
         then int32 (switch_cnt (procs k ! i) + int (ready_below k (priority (procs k ! i)))) else switch_cnt (procs k ! i))"
    if "i < NPROC" for i
    using k'(2) pos [OF that] that assms(1) unfolding ran_def n by auto
  have le: "ready_below k q \<le> NPROC" for q
    using assms(1) by (metis ready_below_def length_filter_le)
  have "int32 (c + int (ready_below k q)) = c + int (ready_below k q)" if "0 \<le> c" "c + int NPROC < 2 ^ 31" for c q
    using that le [of q] by (intro int32_small) linarith+
  with k'(1) cnt pos show ?thesis by auto
qed

text \<open>Two ready processes, the first with the higher priority: it runs twice.\<close>

definition two_ready :: kern where
  "two_ready = (boot_kern boot_kmem)\<lparr>procs := zero_proc\<lparr>state := RUNNABLE, kstack := 0x80200000, pgdir := 0x80201000, priority := 5\<rparr> #
     zero_proc\<lparr>state := RUNNABLE, kstack := 0x80202000, pgdir := 0x80203000\<rparr> # replicate (NPROC - 2) zero_proc\<rparr>"

theorem scheduler_shares_witness:
  "\<exists>k'. scheduler (\<lambda>i. yield) two_ready = Some k' \<and> switch_cnt (procs k' ! 0) = 2 \<and> switch_cnt (procs k' ! 1) = 1"
proof -
  have l: "length (procs two_ready) = NPROC" by (simp add: two_ready_def NPROC_def)
  have c: "can_run two_ready" by (auto simp: can_run_def two_ready_def)
  have n: "ready_below two_ready 5 = 2" "ready_below two_ready 0 = 1" by (simp_all add: ready_below_def two_ready_def)
  obtain k' where k': "scheduler (\<lambda>i. yield) two_ready = Some k'"
      "\<forall>i<NPROC. switch_cnt (procs k' ! i) = (if state (procs two_ready ! i) = RUNNABLE
         then int32 (switch_cnt (procs two_ready ! i) + int (ready_below two_ready (priority (procs two_ready ! i)))) else switch_cnt (procs two_ready ! i))"
    using scheduler_shares [OF l c] by blast
  have "switch_cnt (procs k' ! 0) = 2" "switch_cnt (procs k' ! 1) = 1"
    using k'(2) [rule_format, of 0] k'(2) [rule_format, of 1] n by (simp_all add: two_ready_def NPROC_def int32_small)
  with k'(1) show ?thesis by blast
qed

end
