(* ===== verification/Xv6_Pids.thy ===== *)
theory Xv6_Pids
  imports Xv6_Boot Xv6_Syscall
begin

text \<open>
  Process identifiers, \<^verbatim>\<open>hw3/xv6/proc.c\<close>: whatever the processes do, two slots of the process table that are in
  use never have the same pid. The file system and the memory of the kernel do not touch the process table.
\<close>

section \<open>What leaves the process table alone\<close>

named_theorems procs_kept

lemma kfs_procs [procs_kept]: "kfs f k = Some k' \<Longrightarrow> procs k' = procs k \<and> nextpid k' = nextpid k \<and> cur k' = cur k \<and> initproc k' = initproc k"
  by (auto simp: kfs_def split: bind_splits)

lemma kbegin_op_procs [procs_kept]: "kbegin_op k = Some k' \<Longrightarrow> procs k' = procs k \<and> nextpid k' = nextpid k \<and> cur k' = cur k \<and> initproc k' = initproc k"
  by (auto simp: kbegin_op_def dest: kfs_procs)

lemma kend_op_procs [procs_kept]: "kend_op k = Some k' \<Longrightarrow> procs k' = procs k \<and> nextpid k' = nextpid k \<and> cur k' = cur k \<and> initproc k' = initproc k"
  by (auto simp: kend_op_def dest: kfs_procs)

lemma filedup_procs [procs_kept]: "filedup i k = Some k' \<Longrightarrow> procs k' = procs k \<and> nextpid k' = nextpid k \<and> cur k' = cur k \<and> initproc k' = initproc k"
  by (auto simp: filedup_def split: if_splits)

section \<open>Slots in use and their pids\<close>

text \<open>A slot seen from outside: its pid while it is in use.\<close>

definition slot_pid :: "proc \<Rightarrow> int option" where
  "slot_pid p = (if state p = UNUSED then None else Some (pid p))"

definition pids :: "kern \<Rightarrow> int option list" where
  "pids k = map slot_pid (procs k)"

text \<open>The pids in use are positive, were all given out, and differ.\<close>

definition uniq :: "int option list \<Rightarrow> int \<Rightarrow> bool" where
  "uniq ps nxt \<longleftrightarrow> 0 < nxt \<and> (\<forall>i<length ps. \<forall>n. ps ! i = Some n \<longrightarrow>
     0 < n \<and> n < nxt \<and> (\<forall>j<length ps. ps ! j = Some n \<longrightarrow> j = i))"

definition pids_ok :: "kern \<Rightarrow> bool" where
  "pids_ok k \<longleftrightarrow> uniq (pids k) (nextpid k)"

lemma uniq_later: "uniq ps nxt \<Longrightarrow> nxt \<le> nxt' \<Longrightarrow> uniq ps nxt'"
  unfolding uniq_def by force

lemma nth_update_cases: "xs[i := v] ! j = (if i = j \<and> j < length xs then v else xs ! j)"
  by (cases "i < length xs") (auto simp: nth_list_update list_update_beyond)

lemma uniqD:
  assumes "uniq ps nxt" "i < length ps" "ps ! i = Some n"
  shows "0 < n" "n < nxt" "\<And>j. j < length ps \<Longrightarrow> ps ! j = Some n \<Longrightarrow> j = i"
  using assms unfolding uniq_def by blast+

lemma uniqI:
  assumes "0 < nxt" "\<And>i n. i < length ps \<Longrightarrow> ps ! i = Some n \<Longrightarrow> 0 < n \<and> n < nxt"
    "\<And>i j n. i < length ps \<Longrightarrow> j < length ps \<Longrightarrow> ps ! i = Some n \<Longrightarrow> ps ! j = Some n \<Longrightarrow> j = i"
  shows "uniq ps nxt"
  using assms unfolding uniq_def by blast

lemma uniq_new:
  assumes "uniq ps nxt"
  shows "uniq (ps[i := Some nxt]) (nxt + 1)"
proof (rule uniqI)
  show "0 < nxt + 1" using assms by (simp add: uniq_def)
  have pos: "0 < nxt" using assms by (simp add: uniq_def)

  fix j n
  assume "j < length (ps[i := Some nxt])" "ps[i := Some nxt] ! j = Some n"
  then show "0 < n \<and> n < nxt + 1"
    using uniqD(1,2) [OF assms, of j n] pos by (auto simp: nth_update_cases split: if_split_asm)
next
  fix a b n
  assume "a < length (ps[i := Some nxt])" "b < length (ps[i := Some nxt])"
    "ps[i := Some nxt] ! a = Some n" "ps[i := Some nxt] ! b = Some n"
  then show "b = a"
    using uniqD(2) [OF assms, of a nxt] uniqD(2) [OF assms, of b nxt] uniqD(3) [OF assms, of a n b]
    by (auto simp: nth_update_cases split: if_split_asm)
qed

lemma uniq_drop:
  assumes "uniq ps nxt" "nxt \<le> nxt'"
  shows "uniq (ps[i := None]) nxt'"
proof (rule uniqI)
  show "0 < nxt'" using assms by (simp add: uniq_def)
next
  fix j n
  assume "j < length (ps[i := None])" "ps[i := None] ! j = Some n"
  then show "0 < n \<and> n < nxt'"
    using uniqD(1,2) [OF assms(1), of j n] assms(2) by (auto simp: nth_update_cases split: if_split_asm)
next
  fix a b n
  assume "a < length (ps[i := None])" "b < length (ps[i := None])" "ps[i := None] ! a = Some n" "ps[i := None] ! b = Some n"
  then show "b = a" using uniqD(3) [OF assms(1), of a n b] by (auto simp: nth_update_cases split: if_split_asm)
qed

definition pids_same :: "kern \<Rightarrow> kern \<Rightarrow> bool" where
  "pids_same k k' \<longleftrightarrow> pids k' = pids k \<and> nextpid k' = nextpid k \<and> cur k' = cur k \<and> initproc k' = initproc k"

lemma pids_same_refl [simp]: "pids_same k k"
  by (simp add: pids_same_def)

lemma pids_same_trans: "pids_same k k' \<Longrightarrow> pids_same k' k'' \<Longrightarrow> pids_same k k''"
  by (simp add: pids_same_def)

lemma pids_same_ok: "pids_same k k' \<Longrightarrow> pids_ok k \<Longrightarrow> pids_ok k'"
  by (simp add: pids_same_def pids_ok_def)

lemma pids_sameI: "procs k' = procs k \<and> nextpid k' = nextpid k \<and> cur k' = cur k \<and> initproc k' = initproc k \<Longrightarrow> pids_same k k'"
  by (simp add: pids_same_def pids_def)

lemma wakeup_pids: "pids_same k (wakeup ch k)"
  by (auto simp: pids_same_def pids_def wakeup_def wakeup1_def slot_pid_def)

lemma pids_upd_proc: "pids (upd_proc i f k) = (pids k)[i := slot_pid (f (procs k ! i))]"
  by (simp add: pids_def map_update)

lemma pids_nth: "i < length (procs k) \<Longrightarrow> pids k ! i = slot_pid (procs k ! i)"
  by (simp add: pids_def)

lemma pids_self: "(pids k)[i := slot_pid (procs k ! i)] = pids k"
proof (cases "i < length (procs k)")
  case True
  then show ?thesis using list_update_id [of "pids k" i] by (simp only: pids_nth)
next
  case False
  then show ?thesis by (simp add: pids_def list_update_beyond)
qed

lemma upd_proc_pids: "slot_pid (f (procs k ! i)) = slot_pid (procs k ! i) \<Longrightarrow> pids_same k (upd_proc i f k)"
  unfolding pids_same_def pids_upd_proc by (simp add: pids_self)

lemma slot_pid_update [simp]:
  "slot_pid (p\<lparr>ofile := a\<rparr>) = slot_pid p" "slot_pid (p\<lparr>cwd := c\<rparr>) = slot_pid p" "slot_pid (p\<lparr>killed := b\<rparr>) = slot_pid p"
  "slot_pid (p\<lparr>priority := n\<rparr>) = slot_pid p" "slot_pid (p\<lparr>parent := q\<rparr>) = slot_pid p" "slot_pid (p\<lparr>chan := x\<rparr>) = slot_pid p"
  "slot_pid (p\<lparr>sz := s\<rparr>) = slot_pid p"
  by (simp_all add: slot_pid_def)

section \<open>Files and memory\<close>

lemma pids_same_fields [simp]:
  "pids_same k (k\<lparr>km := x\<rparr>)" "pids_same k (k\<lparr>pipes := y\<rparr>)" "pids_same k (k\<lparr>files := z\<rparr>)" "pids_same k (k\<lparr>fs := s\<rparr>)"
  by (simp_all add: pids_same_def pids_def)

lemma pipeclose_pids:
  assumes "pipeclose p w k = Some k'"
  shows "pids_same k k'"
proof -
  let ?a = "k\<lparr>pipes := (pipes k)(p := pipe_close_end w (pipes k p))\<rparr>"
  let ?b = "wakeup (if w then ChPipeRead p else ChPipeWrite p) ?a"
  have b: "pids_same k ?b" by (rule pids_same_trans [OF pids_same_fields(2) wakeup_pids])
  have "k' = ?b \<or> (\<exists>x. k' = ?b\<lparr>km := x\<rparr>)"
    using assms by (auto simp only: pipeclose_def Let_def bind_eq_Some_conv option.inject split: if_split_asm)
  then show ?thesis using b pids_same_trans [OF b pids_same_fields(1)] by metis
qed

text \<open>The ways through \<^verbatim>\<open>fileclose\<close>: the file stays open, or this was the last reference.\<close>

lemma fileclose_cases:
  assumes "fileclose f k = Some k'"
  obtains (keep) "f_ref (files k ! f) \<ge> 1" "k' = upd_file f (\<lambda>x. x\<lparr>f_ref := f_ref x - 1\<rparr>) k" "f_ref (files k' ! f) > 0"
    | (last) b where "f_ref (files k ! f) \<ge> 1" "\<not> f_ref (files (upd_file f (\<lambda>x. x\<lparr>f_ref := f_ref x - 1\<rparr>) k) ! f) > 0"
        "b = upd_file f (\<lambda>x. x\<lparr>f_ref := 0, f_type := FD_NONE\<rparr>) (upd_file f (\<lambda>x. x\<lparr>f_ref := f_ref x - 1\<rparr>) k)"
        "k' = b \<or> (\<exists>q w. pipeclose q w b = Some k') \<or>
         (\<exists>ip k1 k2. kbegin_op b = Some k1 \<and> kfs (iput (pid (self k1)) ip) k1 = Some k2 \<and> kend_op k2 = Some k')"
proof -
  define a where "a = upd_file f (\<lambda>x. x\<lparr>f_ref := f_ref x - 1\<rparr>) k"
  define b where "b = upd_file f (\<lambda>x. x\<lparr>f_ref := 0, f_type := FD_NONE\<rparr>) a"
  have e: "fileclose f k =
      (if f_ref (files k ! f) < 1 then None else if f_ref (files a ! f) > 0 then Some a
       else case f_type (files a ! f) of
          FD_PIPE \<Rightarrow> pipeclose (f_pipe (files a ! f)) (f_writable (files a ! f)) b
        | FD_INODE \<Rightarrow> do { k \<leftarrow> kbegin_op b; k \<leftarrow> kfs (iput (pid (self k)) (f_ip (files a ! f))) k; kend_op k }
        | FD_NONE \<Rightarrow> Some b)"
    unfolding fileclose_def Let_def a_def b_def by (rule refl)
  have r: "f_ref (files k ! f) \<ge> 1" using assms unfolding e by (auto split: if_split_asm)
  show thesis
  proof (cases "f_ref (files a ! f) > 0")
    case True
    then have "k' = a" using assms r unfolding e by simp
    with True r keep show thesis unfolding a_def by simp
  next
    case False
    have "k' = b \<or> (\<exists>q w. pipeclose q w b = Some k') \<or>
         (\<exists>ip k1 k2. kbegin_op b = Some k1 \<and> kfs (iput (pid (self k1)) ip) k1 = Some k2 \<and> kend_op k2 = Some k')"
      using assms r False unfolding e by (cases "f_type (files a ! f)") (auto simp: bind_eq_Some_conv)
    with False r last [of b] show thesis unfolding a_def b_def by blast
  qed
qed

lemma op_pids:
  assumes "kbegin_op b = Some k1" "kfs g k1 = Some k2" "kend_op k2 = Some k'"
  shows "procs k' = procs b \<and> nextpid k' = nextpid b \<and> cur k' = cur b \<and> initproc k' = initproc b"
  using kbegin_op_procs [OF assms(1)] kfs_procs [OF assms(2)] kend_op_procs [OF assms(3)] by simp

lemma fileclose_pids:
  assumes "fileclose f k = Some k'"
  shows "pids_same k k'"
  using assms
proof (cases rule: fileclose_cases)
  case keep
  then show ?thesis by simp
next
  case (last b)
  have b: "pids_same k b" unfolding last(3) by (simp add: pids_same_def pids_def)
  from last(4) have "pids_same b k'"
  proof (elim disjE exE conjE)
    fix q w
    assume "pipeclose q w b = Some k'"
    then show ?thesis by (rule pipeclose_pids)
  next
    fix ip k1 k2
    assume "kbegin_op b = Some k1" "kfs (iput (pid (self k1)) ip) k1 = Some k2" "kend_op k2 = Some k'"
    from op_pids [OF this] show ?thesis by (rule pids_sameI)
  qed simp
  with b show ?thesis by (rule pids_same_trans)
qed

lemma fork_files_pids: "fork_files np fds k = Some k' \<Longrightarrow> pids_same k k'"
proof (induction np fds k arbitrary: k' rule: fork_files.induct)
  case (2 np fd fds k)
  show ?case
  proof (cases "ofile (self k) ! fd")
    case None
    with 2 show ?thesis by simp
  next
    case (Some f)
    let ?u = "\<lambda>k1. upd_proc np (\<lambda>p. p\<lparr>ofile := (ofile p)[fd := Some f]\<rparr>) k1"
    from "2.prems" Some obtain k1 where k1: "filedup f k = Some k1" "fork_files np fds (?u k1) = Some k'"
      by (auto simp: bind_eq_Some_conv)
    have "pids_same k k1" using filedup_procs [OF k1(1)] by (rule pids_sameI)
    moreover have "pids_same k1 (?u k1)" by (rule upd_proc_pids) simp
    moreover have "pids_same (?u k1) k'" using "2.IH"(2) [OF Some k1] .
    ultimately show ?thesis using pids_same_trans by blast
  qed
qed simp

lemma exit_files_pids: "exit_files fds k = Some k' \<Longrightarrow> pids_same k k'"
proof (induction fds k arbitrary: k' rule: exit_files.induct)
  case (2 fd fds k)
  show ?case
  proof (cases "ofile (self k) ! fd")
    case None
    with 2 show ?thesis by simp
  next
    case (Some f)
    let ?u = "\<lambda>k1. upd_proc (cur k1) (\<lambda>p. p\<lparr>ofile := (ofile p)[fd := None]\<rparr>) k1"
    from "2.prems" Some obtain k1 where k1: "fileclose f k = Some k1" "exit_files fds (?u k1) = Some k'"
      by (auto simp: bind_eq_Some_conv)
    have "pids_same k k1" using k1(1) by (rule fileclose_pids)
    moreover have "pids_same k1 (?u k1)" by (rule upd_proc_pids) simp
    moreover have "pids_same (?u k1) k'" using "2.IH"(2) [OF Some k1] .
    ultimately show ?thesis using pids_same_trans by blast
  qed
qed simp

lemma reparent_pids: "pids_same k (reparent is k)"
proof (induction "is" k rule: reparent.induct)
  case (2 i "is" k)
  let ?u = "upd_proc i (\<lambda>p. p\<lparr>parent := initproc k\<rparr>) k"
  let ?w = "case initproc ?u of Some j \<Rightarrow> if state (procs ?u ! i) = ZOMBIE then wakeup1 (ChProc j) ?u else ?u | None \<Rightarrow> ?u"
  have u: "pids_same k ?u" by (rule upd_proc_pids) simp
  have w: "pids_same ?u ?w" using wakeup_pids [unfolded wakeup_def] by (auto split: option.splits)
  show ?case
    using 2 pids_same_trans [OF u pids_same_trans [OF w]] by (auto simp: Let_def)
qed simp

section \<open>Creating and ending processes\<close>

lemma length_pids [simp]: "length (pids k) = length (procs k)"
  by (simp add: pids_def)

text \<open>The ways through \<^verbatim>\<open>allocproc\<close>: no slot, no page for the stack, or a new process.\<close>

lemma allocproc_cases:
  assumes "allocproc k = (r, k')"
  obtains (no_slot) "r = None" "k' = k"
    | (no_page) i x where "r = None" "i < length (procs k)" "state (procs k ! i) = UNUSED"
        "k' = k\<lparr>nextpid := int32 (nextpid k + 1), km := x,
           procs := (procs k)[i := (procs k ! i)\<lparr>pid := nextpid k, switch_cnt := 0, priority := 0, kstack := 0, state := UNUSED\<rparr>]\<rparr>"
    | (new) i st x where "r = Some i" "i < length (procs k)" "state (procs k ! i) = UNUSED"
        "k' = k\<lparr>nextpid := int32 (nextpid k + 1), km := x,
           procs := (procs k)[i := (procs k ! i)\<lparr>state := EMBRYO, pid := nextpid k, switch_cnt := 0, priority := 0, kstack := st,
             ctx_eip := forkret_sym k\<rparr>]\<rparr>"
proof (cases "first_idx (\<lambda>p. state p = UNUSED) (procs k)")
  case None
  then show thesis using assms no_slot by (auto simp: allocproc_def)
next
  case (Some i)
  then have i: "i < length (procs k)" "state (procs k ! i) = UNUSED" by (auto dest: first_idx_SomeD)
  obtain st x where x: "kalloc (km k) = (st, x)" by (cases "kalloc (km k)")
  show thesis
  proof (cases "st = 0")
    case True
    then show thesis using assms i Some x no_page [of i x] by (simp add: allocproc_def Let_def)
  next
    case False
    then show thesis using assms i Some x new [of i st x] by (simp add: allocproc_def Let_def)
  qed
qed

lemma allocproc_pids:
  assumes "allocproc k = (r, k')"
  shows "(r = None \<and> pids k' = pids k \<and> nextpid k' \<in> {nextpid k, int32 (nextpid k + 1)} \<or>
      (\<exists>i. r = Some i \<and> pids k' = (pids k)[i := Some (nextpid k)] \<and> nextpid k' = int32 (nextpid k + 1) \<and> i < length (procs k))) \<and>
    cur k' = cur k"
  using assms
proof (cases rule: allocproc_cases)
  case no_slot
  then show ?thesis by simp
next
  case (no_page i x)
  have "pids k' = (pids k)[i := None]" unfolding no_page(4) by (simp add: pids_def map_update slot_pid_def)
  moreover have "(pids k)[i := None] = pids k" using pids_self [of k i] no_page(3) by (simp add: slot_pid_def)
  ultimately show ?thesis using no_page(1) by (simp add: no_page(4))
next
  case (new i st x)
  have "pids k' = (pids k)[i := Some (nextpid k)]" unfolding new(4) by (simp add: pids_def map_update slot_pid_def)
  then show ?thesis using new(1,2) by (simp add: new(4))
qed

text \<open>The ways through \<^verbatim>\<open>fork\<close>: no process, no memory for the copy, or a child.\<close>

lemma fork_cases:
  assumes "fork k = Some (r, k')"
  obtains (no_proc) "allocproc k = (None, k')"
    | (no_mem) np k1 x y where "allocproc k = (Some np, k1)"
        "k' = upd_proc np (\<lambda>p. p\<lparr>kstack := 0, state := UNUSED\<rparr>) (upd_proc np (\<lambda>p. p\<lparr>pgdir := 0\<rparr>) (k1\<lparr>km := x\<rparr>)\<lparr>km := y\<rparr>)"
    | (child) np k1 d x k3 k4 ip where "allocproc k = (Some np, k1)" "copyuvm (pgdir (self k1)) (sz (self k1)) (km k1) = Some (d, x)"
        "k3 = (let k2 = upd_proc np (\<lambda>p. p\<lparr>pgdir := d\<rparr>) (k1\<lparr>km := x\<rparr>)
               in upd_proc np (\<lambda>p. p\<lparr>sz := sz (self k2), parent := Some (cur k2), tf := (tf (self k2))\<lparr>tf_eax := 0\<rparr>\<rparr>) k2)"
        "fork_files np [0..<NOFILE] k3 = Some k4"
        "k' = upd_proc np (\<lambda>p. p\<lparr>cwd := Some ip, pname := proc_name (pname (self k4)), state := RUNNABLE\<rparr>) (k4\<lparr>fs := idup ip (fs k4)\<rparr>)"
proof -
  obtain o1 k1 where a: "allocproc k = (o1, k1)" by (cases "allocproc k")
  show thesis
  proof (cases o1)
    case None
    then show thesis using assms a no_proc by (auto simp: fork_def)
  next
    case (Some np)
    then have a: "allocproc k = (Some np, k1)" using a by simp
    obtain d x where c: "copyuvm (pgdir (self k1)) (sz (self k1)) (km k1) = Some (d, x)"
      using assms a by (auto simp: fork_def bind_eq_Some_conv)
    show thesis
    proof (cases "d = 0")
      case True
      from assms a c True obtain y where
        "k' = upd_proc np (\<lambda>p. p\<lparr>kstack := 0, state := UNUSED\<rparr>) (upd_proc np (\<lambda>p. p\<lparr>pgdir := 0\<rparr>) (k1\<lparr>km := x\<rparr>)\<lparr>km := y\<rparr>)"
        by (auto simp: fork_def bind_eq_Some_conv Let_def)
      then show thesis by (rule no_mem [OF a])
    next
      case False
      define k2 where "k2 = upd_proc np (\<lambda>p. p\<lparr>pgdir := d\<rparr>) (k1\<lparr>km := x\<rparr>)"
      define k3 where "k3 = upd_proc np (\<lambda>p. p\<lparr>sz := sz (self k2), parent := Some (cur k2), tf := (tf (self k2))\<lparr>tf_eax := 0\<rparr>\<rparr>) k2"
      from assms a c False obtain k4 ip where k4: "fork_files np [0..<NOFILE] k3 = Some k4"
        "k' = upd_proc np (\<lambda>p. p\<lparr>cwd := Some ip, pname := proc_name (pname (self k4)), state := RUNNABLE\<rparr>) (k4\<lparr>fs := idup ip (fs k4)\<rparr>)"
        by (auto simp: fork_def bind_eq_Some_conv k2_def k3_def Let_def)
      show thesis by (rule child [OF a c _ k4]) (simp only: k3_def k2_def Let_def)
    qed
  qed
qed

lemma fork_pids:
  assumes "fork k = Some (r, k')"
  shows "pids k' = pids k \<and> nextpid k' \<in> {nextpid k, int32 (nextpid k + 1)} \<or>
    (\<exists>i. pids k' = (pids k)[i := None] \<and> nextpid k' = int32 (nextpid k + 1)) \<or>
    (\<exists>i. pids k' = (pids k)[i := Some (nextpid k)] \<and> nextpid k' = int32 (nextpid k + 1))"
  using assms
proof (cases rule: fork_cases)
  case no_proc
  then show ?thesis using allocproc_pids [OF no_proc] by auto
next
  case (no_mem np k1 x y)
  have n: "pids k1 = (pids k)[np := Some (nextpid k)]" "nextpid k1 = int32 (nextpid k + 1)" using allocproc_pids [OF no_mem(1)] by auto
  have "pids k' = (pids k1)[np := None]" "nextpid k' = nextpid k1"
    unfolding no_mem(2) by (simp_all add: pids_def map_update slot_pid_def)
  then show ?thesis using n by auto
next
  case (child np k1 d x k3 k4 ip)
  have n: "pids k1 = (pids k)[np := Some (nextpid k)]" "nextpid k1 = int32 (nextpid k + 1)" "np < length (pids k)"
    using allocproc_pids [OF child(1)] by auto
  define k2 where "k2 = upd_proc np (\<lambda>p. p\<lparr>pgdir := d\<rparr>) (k1\<lparr>km := x\<rparr>)"
  have "pids_same (k1\<lparr>km := x\<rparr>) k2" unfolding k2_def by (rule upd_proc_pids) (simp add: slot_pid_def)
  then have k2: "pids_same k1 k2" by (rule pids_same_trans [OF pids_same_fields(1)])
  have k3: "pids_same k2 k3" unfolding child(3) Let_def k2_def [symmetric] by (rule upd_proc_pids) (simp add: slot_pid_def)
  have p4: "pids k4 = (pids k)[np := Some (nextpid k)]" "nextpid k4 = int32 (nextpid k + 1)"
    using pids_same_trans [OF k2 pids_same_trans [OF k3 fork_files_pids [OF child(4)]]] n by (simp_all add: pids_same_def)
  have "slot_pid (procs k4 ! np) = Some (nextpid k)"
    using pids_nth [of np k4] p4(1) n(3) by (metis length_list_update length_pids nth_list_update_eq)
  then have "pid (procs k4 ! np) = nextpid k" by (simp add: slot_pid_def split: if_split_asm)
  then have "pids k' = (pids k4)[np := Some (nextpid k)]" "nextpid k' = nextpid k4"
    unfolding child(5) by (simp_all add: pids_def map_update slot_pid_def)
  then have "pids k' = (pids k)[np := Some (nextpid k)]" "nextpid k' = int32 (nextpid k + 1)" using p4 by simp_all
  then show ?thesis by blast
qed

text \<open>The one way through \<^verbatim>\<open>exit\<close> that does not panic.\<close>

lemma exit_steps:
  assumes "exit k = Some k'"
  obtains k1 k2 k3 k4 k5 k6 k7 ip where "exit_files [0..<NOFILE] k = Some k1" "kbegin_op k1 = Some k2"
      "kfs (iput (pid (self k2)) ip) k2 = Some k3" "kend_op k3 = Some k4"
      "k5 = upd_proc (cur k4) (\<lambda>p. p\<lparr>cwd := None\<rparr>) k4"
      "k6 = (case parent (self k5) of Some j \<Rightarrow> wakeup (ChProc j) k5 | None \<Rightarrow> k5)"
      "k7 = reparent [0..<NPROC] k6" "k' = upd_proc (cur k7) (\<lambda>p. p\<lparr>state := ZOMBIE\<rparr>) k7"
proof -
  from assms obtain k1 k2 k3 k4 ip where e: "exit_files [0..<NOFILE] k = Some k1" "kbegin_op k1 = Some k2"
      "kfs (iput (pid (self k2)) ip) k2 = Some k3" "kend_op k3 = Some k4"
    and k': "k' = (let k = upd_proc (cur k4) (\<lambda>p. p\<lparr>cwd := None\<rparr>) k4;
        k = (case parent (self k) of Some j \<Rightarrow> wakeup1 (ChProc j) k | None \<Rightarrow> k);
        k = reparent [0..<NPROC] k in upd_proc (cur k) (\<lambda>p. p\<lparr>state := ZOMBIE\<rparr>) k)"
    unfolding exit_def by (auto simp: bind_eq_Some_conv Let_def split: if_split_asm)
  show thesis by (rule that [OF e refl refl refl]) (simp only: k' Let_def wakeup_def)
qed

lemma exit_pids:
  assumes "exit k = Some k'" "state (self k) \<noteq> UNUSED" "cur k < length (procs k)"
  shows "pids_same k k'"
proof -
  from assms(1) obtain k1 k2 k3 k4 k5 k6 k7 ip where e: "exit_files [0..<NOFILE] k = Some k1" "kbegin_op k1 = Some k2"
      "kfs (iput (pid (self k2)) ip) k2 = Some k3" "kend_op k3 = Some k4"
    and k5: "k5 = upd_proc (cur k4) (\<lambda>p. p\<lparr>cwd := None\<rparr>) k4"
    and k6: "k6 = (case parent (self k5) of Some j \<Rightarrow> wakeup (ChProc j) k5 | None \<Rightarrow> k5)"
    and k7: "k7 = reparent [0..<NPROC] k6" and k': "k' = upd_proc (cur k7) (\<lambda>p. p\<lparr>state := ZOMBIE\<rparr>) k7"
    by (rule exit_steps)
  have s4: "pids_same k k4"
    using pids_same_trans [OF exit_files_pids [OF e(1)] pids_sameI [OF op_pids [OF e(2-4)]]] .
  have "pids_same k4 k5" unfolding k5 by (rule upd_proc_pids) simp
  moreover have "pids_same k5 k6" using wakeup_pids by (simp add: k6 split: option.split)
  moreover have "pids_same k6 k7" unfolding k7 by (rule reparent_pids)
  ultimately have s7: "pids_same k k7" using s4 pids_same_trans by blast
  have "slot_pid (self k7) = slot_pid (self k)"
    using s7 assms(3) pids_nth [of "cur k" k] pids_nth [of "cur k" k7] length_pids [of k7] length_pids [of k]
    unfolding pids_same_def by metis
  then have "slot_pid ((self k7)\<lparr>state := ZOMBIE\<rparr>) = slot_pid (self k7)"
    using assms(2) by (simp add: slot_pid_def split: if_split_asm)
  then have "pids_same k7 k'" unfolding k' by (rule upd_proc_pids)
  with s7 show ?thesis by (rule pids_same_trans)
qed

lemma self_pids: "state (self k) \<noteq> UNUSED \<Longrightarrow> st \<noteq> UNUSED \<Longrightarrow>
    pids_same k (upd_proc (cur k) (\<lambda>p. p\<lparr>chan := c, state := st\<rparr>) k)"
  by (rule upd_proc_pids) (simp add: slot_pid_def)

lemma wait_pids:
  assumes "wait k = Some (r, k')" "state (self k) \<noteq> UNUSED"
  shows "pids_same k k' \<or> (\<exists>i. pids k' = (pids k)[i := None] \<and> nextpid k' = nextpid k)"
proof (cases "first_idx (\<lambda>p. parent p = Some (cur k) \<and> state p = ZOMBIE) (procs k)")
  case None
  then have "k' = k \<or> k' = sleep (ChProc (cur k)) k" using assms(1) by (auto simp: wait_def split: if_split_asm)
  then show ?thesis using self_pids [OF assms(2)] by (auto simp: sleep_def)
next
  case (Some i)
  from assms(1) Some obtain x where
    "k' = upd_proc i (\<lambda>p. p\<lparr>kstack := 0, pid := 0, parent := None, pname := [], killed := False, state := UNUSED\<rparr>) (k\<lparr>km := x\<rparr>)"
    by (auto simp: wait_def bind_eq_Some_conv)
  then have "pids k' = (pids k)[i := None]" "nextpid k' = nextpid k" by (simp_all add: pids_def map_update slot_pid_def)
  then show ?thesis by blast
qed

lemma kill_pids: "pids_same k (snd (kill n k))"
  by (auto simp: kill_def slot_pid_def split: option.split intro!: upd_proc_pids)

section \<open>Every run\<close>

text \<open>
  The steps that change the process table: the first process, a system call of the process that runs, an interrupt that wakes
  processes or takes the processor away, and the scheduler that gives it to another process.
\<close>

inductive pstep :: "kern \<Rightarrow> kern \<Rightarrow> bool" where
  first: "userinit code k = Some k' \<Longrightarrow> pstep k k'"
| fork: "state (self k) = RUNNING \<Longrightarrow> fork k = Some (r, k') \<Longrightarrow> pstep k k'"
| exit: "state (self k) = RUNNING \<Longrightarrow> cur k < length (procs k) \<Longrightarrow> exit k = Some k' \<Longrightarrow> pstep k k'"
| wait: "state (self k) = RUNNING \<Longrightarrow> wait k = Some (b, k') \<Longrightarrow> pstep k k'"
| kill: "pstep k (snd (kill n k))"
| set_prio: "pstep k (snd (set_prio n k))"
| sleep: "state (self k) = RUNNING \<Longrightarrow> pstep k (sleep ch k)"
| woken: "pstep k (sleep_end k)"
| yield: "state (self k) = RUNNING \<Longrightarrow> pstep k (yield k)"
| wakeup: "pstep k (wakeup ch k)"
| switch: "i < length (procs k) \<Longrightarrow> state (procs k ! i) = RUNNABLE \<Longrightarrow>
    pstep k (upd_proc i (\<lambda>p. p\<lparr>state := RUNNING\<rparr>) (k\<lparr>cur := i\<rparr>))"

lemma userinit_pids:
  assumes "userinit code k = Some k'"
  shows "\<exists>i. pids k' = (pids k)[i := Some (nextpid k)] \<and> nextpid k' = int32 (nextpid k + 1)"
proof -
  obtain i k1 where a: "allocproc k = (Some i, k1)"
    using assms by (cases "allocproc k") (auto simp: userinit_def split: option.split_asm)
  have n: "pids k1 = (pids k)[i := Some (nextpid k)]" "nextpid k1 = int32 (nextpid k + 1)" "i < length (pids k)"
    using allocproc_pids [OF a] by auto
  from assms a obtain d x k3 ip where
      k3: "kfsr (namei (pid (self (upd_proc i (\<lambda>p. p\<lparr>pgdir := d, sz := PGSIZE, tf := user_frame, pname := proc_name (str ''initcode'')\<rparr>)
             (k1\<lparr>initproc := Some i, km := x\<rparr>))))
             (killed (self (upd_proc i (\<lambda>p. p\<lparr>pgdir := d, sz := PGSIZE, tf := user_frame, pname := proc_name (str ''initcode'')\<rparr>)
             (k1\<lparr>initproc := Some i, km := x\<rparr>)))) 0 (str ''/''))
             (upd_proc i (\<lambda>p. p\<lparr>pgdir := d, sz := PGSIZE, tf := user_frame, pname := proc_name (str ''initcode'')\<rparr>)
             (k1\<lparr>initproc := Some i, km := x\<rparr>)) = Some (ip, k3)"
    and k': "k' = upd_proc i (\<lambda>p. p\<lparr>cwd := ip, state := RUNNABLE\<rparr>) k3"
    unfolding userinit_def by (auto simp: bind_eq_Some_conv Let_def split: if_split_asm)
  let ?k2 = "upd_proc i (\<lambda>p. p\<lparr>pgdir := d, sz := PGSIZE, tf := user_frame, pname := proc_name (str ''initcode'')\<rparr>)
             (k1\<lparr>initproc := Some i, km := x\<rparr>)"
  have "pids ?k2 = (pids k1)[i := slot_pid (procs k1 ! i)]" by (simp add: pids_def map_update slot_pid_def)
  then have k2: "pids ?k2 = pids k1" by (simp only: pids_self)
  have k3': "procs k3 = procs ?k2" "nextpid k3 = nextpid k1" using k3 by (auto simp: kfsr_def bind_eq_Some_conv)
  have p3: "pids k3 = (pids k)[i := Some (nextpid k)]" using k3'(1) k2 n(1) by (simp add: pids_def)
  have "slot_pid (procs k3 ! i) = Some (nextpid k)"
    using pids_nth [of i k3] p3 n(3) by (metis length_list_update length_pids nth_list_update_eq)
  then have "pid (procs k3 ! i) = nextpid k" by (simp add: slot_pid_def split: if_split_asm)
  then have "pids k' = (pids k3)[i := Some (nextpid k)]" "nextpid k' = nextpid k3"
    unfolding k' by (simp_all add: pids_def map_update slot_pid_def)
  then show ?thesis using p3 k3'(2) n(2) by auto
qed

text \<open>A step leaves \<^verbatim>\<open>nextpid\<close> alone, or it gives out one pid.\<close>

definition pids_step :: "kern \<Rightarrow> kern \<Rightarrow> bool" where
  "pids_step k k' \<longleftrightarrow> nextpid k' = nextpid k \<and> pids_ok k' \<or>
     nextpid k' = int32 (nextpid k + 1) \<and> (nextpid k + 1 < 2 ^ 31 \<longrightarrow> pids_ok k')"

lemma pids_ok_pos: "pids_ok k \<Longrightarrow> 0 < nextpid k"
  by (simp add: pids_ok_def uniq_def)

lemma next_pid: "pids_ok k \<Longrightarrow> nextpid k + 1 < 2 ^ 31 \<Longrightarrow> int32 (nextpid k + 1) = nextpid k + 1"
  using pids_ok_pos [of k] by (intro int32_small) auto

lemma pids_step_same: "pids_same k k' \<Longrightarrow> pids_ok k \<Longrightarrow> pids_step k k'"
  using pids_same_ok by (auto simp: pids_step_def pids_same_def)

lemma pids_step_new:
  assumes "pids_ok k" "nextpid k' = int32 (nextpid k + 1)" "pids k' \<in> {pids k, (pids k)[i := None], (pids k)[i := Some (nextpid k)]}"
  shows "pids_step k k'"
proof -
  have u: "uniq (pids k) (nextpid k)"
    using assms(1) by (simp add: pids_ok_def)
  have "pids_ok k'" if "nextpid k + 1 < 2 ^ 31"
  proof -
    have n: "nextpid k' = nextpid k + 1"
      using assms(1,2) that by (simp add: next_pid)
    consider "pids k' = pids k" | "pids k' = (pids k)[i := None]" | "pids k' = (pids k)[i := Some (nextpid k)]"
      using assms(3) by blast
    then show ?thesis
      unfolding pids_ok_def n
      by cases (simp_all add: uniq_later [OF u] uniq_drop [OF u] uniq_new [OF u])
  qed
  then show ?thesis
    using assms(2) by (simp add: pids_step_def)
qed

lemma pids_step_drop: "pids_ok k \<Longrightarrow> nextpid k' = nextpid k \<Longrightarrow> pids k' = (pids k)[i := None] \<Longrightarrow> pids_step k k'"
  using uniq_drop [of "pids k" "nextpid k" "nextpid k" i] by (simp add: pids_step_def pids_ok_def)

lemma pstep_pids:
  assumes "pstep k k'" "pids_ok k"
  shows "pids_step k k'"
  using assms
proof (induction rule: pstep.induct)
  case (first code k k')
  from userinit_pids [OF first(1)] obtain i where
    "pids k' = (pids k)[i := Some (nextpid k)]" "nextpid k' = int32 (nextpid k + 1)" by blast
  then show ?case using pids_step_new [OF first(2), of k' i] by blast
next
  case (fork k r k')
  from fork_pids [OF fork(2)] show ?case
  proof (elim disjE exE conjE)
    assume "pids k' = pids k" "nextpid k' \<in> {nextpid k, int32 (nextpid k + 1)}"
    then show ?case using pids_step_new [OF fork(3), of k'] fork(3) by (auto simp: pids_step_def pids_ok_def)
  qed (use pids_step_new [OF fork(3)] in blast)+
next
  case (exit k k')
  then have "pids_same k k'" by (intro exit_pids) simp_all
  then show ?case using exit.prems by (rule pids_step_same)
next
  case (wait k b k')
  then show ?case using wait_pids [OF wait(2)] pids_step_drop [OF wait(3)] pids_step_same [OF _ wait(3)] by force
next
  case (kill k n)
  show ?case using kill_pids kill by (rule pids_step_same)
next
  case (set_prio k n)
  have "pids_same k (snd (set_prio n k))" unfolding set_prio_def snd_conv by (rule upd_proc_pids) simp
  then show ?case using set_prio by (rule pids_step_same)
next
  case (sleep k ch)
  then show ?case using pids_step_same [OF self_pids] by (simp add: sleep_def)
next
  case (woken k)
  have "pids_same k (sleep_end k)" unfolding sleep_end_def by (rule upd_proc_pids) simp
  then show ?case using woken by (rule pids_step_same)
next
  case (yield k)
  have "pids_same k (yield k)" unfolding yield_def by (rule upd_proc_pids) (simp add: slot_pid_def yield(1))
  then show ?case using yield(2) by (rule pids_step_same)
next
  case (wakeup k ch)
  show ?case using wakeup_pids wakeup by (rule pids_step_same)
next
  case (switch i k)
  let ?k = "k\<lparr>cur := i\<rparr>"
  have "pids_same ?k (upd_proc i (\<lambda>p. p\<lparr>state := RUNNING\<rparr>) ?k)" by (rule upd_proc_pids) (simp add: slot_pid_def switch)
  moreover have "pids_ok ?k" using switch(3) by (simp add: pids_ok_def pids_def)
  ultimately have "pids_step ?k (upd_proc i (\<lambda>p. p\<lparr>state := RUNNING\<rparr>) ?k)" by (rule pids_step_same)
  then show ?case by (simp add: pids_step_def)
qed

text \<open>
  A run of the system with the number \<open>n\<close> that \<^verbatim>\<open>nextpid\<close> would have if it did not wrap around: it goes up by one with every
  pid that is given out.
\<close>

inductive pcount :: "kern \<times> int \<Rightarrow> kern \<times> int \<Rightarrow> bool" where
  pcount: "pstep k k' \<Longrightarrow> pcount (k, n) (k', if nextpid k' = nextpid k then n else n + 1)"

definition pids_start :: "kern \<times> int \<Rightarrow> bool" where
  "pids_start c \<longleftrightarrow> pids_ok (fst c) \<and> snd c = nextpid (fst c)"

definition pids_inv :: "kern \<times> int \<Rightarrow> bool" where
  "pids_inv c \<longleftrightarrow> (snd c < 2 ^ 31 \<longrightarrow> pids_ok (fst c) \<and> snd c = nextpid (fst c))"

interpretation pid_inv: step_invariant pids_start pcount pids_inv
proof
  show "pids_inv c" if "pids_start c" for c
    using that by (simp add: pids_start_def pids_inv_def)
  fix c d
  assume inv: "pids_inv c" and "pcount c d"
  from this(2) show "pids_inv d"
  proof cases
    case (pcount k k' n)
    have "pids_ok k \<and> n = nextpid k" if "n < 2 ^ 31"
      using inv that pcount(1) by (simp add: pids_inv_def)
    then show ?thesis
      using pstep_pids [OF pcount(3)] next_pid [of k] unfolding pcount(2) pids_inv_def pids_step_def
      by (auto simp: int32_Suc int32_Suc [symmetric])
  qed
qed

lemma boot_pids_ok: "pids_ok (boot_kern x)"
  by (simp add: pids_ok_def uniq_def pids_def slot_pid_def)

text \<open>C5. Pids are unique as long as \<^verbatim>\<open>nextpid\<close> has not wrapped around. From a state in which they are (such as the one at boot,
  where \<^verbatim>\<open>nextpid\<close> is 1), however the processes fork, exit, wait, kill, sleep and are scheduled, while the number of the next
  pid is below 2 to the 31: two slots of the process table in use with the same pid are the same slot, and a pid in use
  is positive and was given out by \<^verbatim>\<open>nextpid\<close>.
\<close>

theorem pids_unique:
  assumes "reach pids_start pcount (k, n)" "n < 2 ^ 31"
    and "i < length (procs k)" "j < length (procs k)" "state (procs k ! i) \<noteq> UNUSED" "state (procs k ! j) \<noteq> UNUSED"
    and "pid (procs k ! i) = pid (procs k ! j)"
  shows "i = j \<and> 0 < pid (procs k ! i) \<and> pid (procs k ! i) < nextpid k \<and> nextpid k = n"
proof -
  have ok: "pids_ok k" "n = nextpid k"
    using pid_inv.reach_inv [OF assms(1)] assms(2) by (simp_all add: pids_inv_def)
  then have u: "uniq (pids k) (nextpid k)"
    by (simp add: pids_ok_def)
  have "pids k ! i = Some (pid (procs k ! i))" "pids k ! j = Some (pid (procs k ! i))"
    using assms by (simp_all add: pids_nth slot_pid_def)
  then show ?thesis using uniqD [OF u, of i "pid (procs k ! i)"] assms(3,4) ok(2) by auto
qed

text \<open>A process with pid 1 runs, and another with pid 2 is killed.\<close>

definition two_procs :: kern where
  "two_procs = (boot_kern boot_kmem)\<lparr>nextpid := 3,
     procs := zero_proc\<lparr>state := RUNNING, pid := 1\<rparr> # zero_proc\<lparr>state := SLEEPING, pid := 2, chan := Some ChTicks\<rparr> # replicate 62 zero_proc\<rparr>"

lemma two_procs_ok: "pids_ok two_procs"
  by (auto simp: pids_ok_def uniq_def pids_def two_procs_def slot_pid_def nth_Cons split: nat.splits if_splits)

theorem pids_unique_witness:
  "state (procs (snd (kill 2 two_procs)) ! 1) = RUNNABLE \<and> pid (procs (snd (kill 2 two_procs)) ! 1) < 3"
proof -
  let ?k = "snd (kill 2 two_procs)"
  have "reach pids_start pcount (two_procs, 3)"
    by (rule reach_init) (simp add: pids_start_def two_procs_ok, simp add: two_procs_def)
  then have r: "reach pids_start pcount (?k, if nextpid ?k = nextpid two_procs then 3 else 3 + 1)"
    using pcount.pcount [OF pstep.kill] by (rule reach_step)
  have f: "length (procs ?k) = 64" "state (procs ?k ! 1) = RUNNABLE" "nextpid ?k = nextpid two_procs"
    by (simp_all add: kill_def two_procs_def)
  from pids_unique [OF r, of 1 1] f show ?thesis by simp
qed

text \<open>\<^verbatim>\<open>kill\<close> does not ask whether a slot is in use. A slot that was never used has pid 0, so \<^verbatim>\<open>kill(0)\<close> reports success and
  marks it as killed; the mark is still there when the slot is given to the next process, which will exit at its first trap from user mode.
\<close>

theorem kill_zero_marks_next:
  assumes "first_idx (\<lambda>p. pid p = 0) (procs k) = Some i" "first_idx (\<lambda>p. state p = UNUSED) (procs k) = Some i"
    and "fst (kalloc (km k)) \<noteq> 0"
  shows "\<exists>k1 k2. kill 0 k = (0, k1) \<and> allocproc k1 = (Some i, k2) \<and> killed (procs k2 ! i) \<and> pid (procs k2 ! i) = nextpid k"
proof -
  let ?f = "\<lambda>p. p\<lparr>killed := True, state := (if state p = SLEEPING then RUNNABLE else state p)\<rparr>"
  have i: "i < length (procs k)" "state (procs k ! i) = UNUSED" "\<forall>j<i. state (procs k ! j) \<noteq> UNUSED"
    using first_idx_SomeD [OF assms(2)] by auto
  have k1: "kill 0 k = (0, upd_proc i ?f k)" using assms(1) by (simp add: kill_def)
  have u: "first_idx (\<lambda>p. state p = UNUSED) (procs (upd_proc i ?f k)) = Some i"
    using i by (simp add: first_idx_Some)
  obtain st x where x: "kalloc (km k) = (st, x)" by (cases "kalloc (km k)")
  then have st: "st \<noteq> 0" using assms(3) by simp
  obtain k2 where "allocproc (upd_proc i ?f k) = (Some i, k2)" "killed (procs k2 ! i)" "pid (procs k2 ! i) = nextpid k"
    using u x st i(1,2) by (simp add: allocproc_def Let_def)
  with k1 show ?thesis by blast
qed

theorem kill_zero_marks_next_witness:
  "\<exists>k1 k2. kill 0 (two_procs\<lparr>km := boot_kmem\<lparr>freelist := 0x80116000\<rparr>\<rparr>) = (0, k1) \<and> allocproc k1 = (Some 2, k2) \<and> killed (procs k2 ! 2)"
proof -
  let ?k = "two_procs\<lparr>km := boot_kmem\<lparr>freelist := 0x80116000\<rparr>\<rparr>"
  have "first_idx (\<lambda>p. pid p = 0) (procs ?k) = Some 2" "first_idx (\<lambda>p. state p = UNUSED) (procs ?k) = Some 2"
    by (auto simp: first_idx_Some two_procs_def dest!: less_2_cases)
  moreover have "fst (kalloc (km ?k)) \<noteq> 0" by (simp add: kalloc_def)
  ultimately show ?thesis using kill_zero_marks_next [of ?k 2] by blast
qed

end
