(* ===== verification/Xv6_Args.thy ===== *)
theory Xv6_Args
  imports Xv6_Sysfile Xv6_Boot Xv6_Copy
begin

text \<open>
  The checks of \<^verbatim>\<open>hw3/xv6/syscall.c\<close> on what a user program passes to a system call: a buffer or a string
  that is accepted lies in the memory of the process, in spite of the wrap-around of the unsigned sums.
\<close>

lemma sum_no_wrap:
  assumes "i < s" "s \<le> KERNBASE" "0 \<le> len" "len < 2 ^ 31"
  shows "nat ((int i + len) mod 2 ^ 32) = i + nat len"
  using assms by (simp add: KERNBASE_def)

text \<open>C24. A pointer with a length that \<^verbatim>\<open>argptr\<close> accepts is the start of a buffer that lies wholly below the size of the process. The sum in the
  check cannot wrap around, as the size of a process is at most \<^verbatim>\<open>KERNBASE\<close> and the length is a signed number; a negative length is refused.
\<close>

theorem argptr_in_bounds:
  assumes "argptr n len k = Some (Some a)" "sz (self k) \<le> KERNBASE" "len < 2 ^ 31"
  shows "0 \<le> len \<and> a < sz (self k) \<and> a + nat len \<le> sz (self k)"
proof -
  from assms(1) obtain i where "argint n k = Some (Some i)"
    by (auto simp: argptr_def bind_eq_Some_conv split: option.split_asm)
  then have i: "a = unat i" "\<not> len < 0" "\<not> unat i \<ge> sz (self k)"
      "\<not> nat ((int (unat i) + len) mod 2 ^ 32) > sz (self k)"
    using assms(1) unfolding argptr_def by (simp_all only: bind.bind_lunit option.case option.inject split: if_split_asm) simp_all
  then show ?thesis using sum_no_wrap [of "unat i" "sz (self k)" len] assms(2,3) by simp
qed

lemma fetchstr_loop_bounds:
  "fetchstr_loop addr s ep k = Some (Some l) \<Longrightarrow> addr \<le> s \<Longrightarrow>
   s - addr \<le> l \<and> addr + l < ep \<and> from_user (addr + l) 1 k = Some [0] \<and>
   (\<forall>x. s \<le> x \<longrightarrow> x < addr + l \<longrightarrow> from_user x 1 k \<noteq> Some [0] \<and> from_user x 1 k \<noteq> None)"
proof (induction addr s ep k arbitrary: l rule: fetchstr_loop.induct)
  case (1 addr s ep k)
  from "1.prems"(1) have lt: "s < ep" by (subst (asm) fetchstr_loop.simps) (auto split: if_split_asm)
  from "1.prems"(1) lt obtain bs where bs: "from_user s 1 k = Some bs"
      "(if bs = [0] then Some (Some (s - addr)) else fetchstr_loop addr (s + 1) ep k) = Some (Some l)"
    by (subst (asm) fetchstr_loop.simps) (auto simp: bind_eq_Some_conv)
  show ?case
  proof (cases "bs = [0]")
    case True
    then show ?thesis using bs lt "1.prems"(2) by auto
  next
    case False
    then have r: "fetchstr_loop addr (s + 1) ep k = Some (Some l)" using bs(2) by simp
    have ih: "s + 1 - addr \<le> l \<and> addr + l < ep \<and> from_user (addr + l) 1 k = Some [0] \<and>
        (\<forall>x. s + 1 \<le> x \<longrightarrow> x < addr + l \<longrightarrow> from_user x 1 k \<noteq> Some [0] \<and> from_user x 1 k \<noteq> None)"
      using "1.IH" [OF lt bs(1) False r] "1.prems"(2) by simp
    have "from_user x 1 k \<noteq> Some [0] \<and> from_user x 1 k \<noteq> None" if "s \<le> x" "x < addr + l" for x
      using ih that bs(1) False by (cases "x = s") auto
    then show ?thesis using ih by auto
  qed
qed

text \<open>
  A string that \<^verbatim>\<open>fetchstr\<close> accepts ends, with its NUL, below the size of the process, and the length it
  gives is the distance to the first NUL.
\<close>

theorem fetchstr_in_bounds:
  assumes "fetchstr addr k = Some (Some l)"
  shows "addr + l < sz (self k) \<and> from_user (addr + l) 1 k = Some [0] \<and>
    (\<forall>x. addr \<le> x \<longrightarrow> x < addr + l \<longrightarrow> from_user x 1 k \<noteq> Some [0])"
  using assms fetchstr_loop_bounds [of addr addr "sz (self k)" k l] by (auto simp: fetchstr_def split: if_split_asm)

section \<open>A process of one page\<close>

definition user_kern :: kern where
  "user_kern = (boot_kern small_kmem)\<lparr>procs := [zero_proc\<lparr>state := RUNNING, pid := 1, pgdir := 0x80116000, kstack := 0x80119000,
     sz := PGSIZE\<rparr>]\<rparr>"

lemma user_kern_simps [simp]:
  "self user_kern = zero_proc\<lparr>state := RUNNING, pid := 1, pgdir := 0x80116000, kstack := 0x80119000, sz := PGSIZE\<rparr>"
  "km user_kern = small_kmem"
  by (simp_all add: user_kern_def)

lemma small_zero: "va < PGSIZE \<Longrightarrow> aspace small_mem 0x80116000 va = Some 0"
proof -
  assume va: "va < PGSIZE"
  then have v: "va < 4096" by (simp add: PGSIZE_def)
  have "small_mem (0x80118000 + va) = 0"
    using v by (auto simp: small_mem_def new_table_def put32_eq memset_eq PGSIZE_def)
  then show ?thesis
    using small_dir(3) [of va] small_entry va v by (simp add: aspace_def KERNBASE_def PGSIZE_def)
qed

lemma user_kern_load: "a + n \<le> PGSIZE \<Longrightarrow> from_user a n user_kern = Some (replicate n 0)"
  using small_zero by (auto simp: from_user_def user_load_def small_kmem_def map_replicate_const intro!: nth_equalityI)

lemma user_argint: "argint 0 user_kern = Some (Some 0)"
proof -
  have r: "replicate 4 (0 :: byte) = [0, 0, 0, 0]" by (simp add: numeral_eq_Suc)
  have "4 + 4 \<le> PGSIZE" by (simp add: PGSIZE_def)
  then have l: "from_user 4 4 user_kern = Some [0, 0, 0, 0]" using user_kern_load [of 4 4] r by simp
  have "argint 0 user_kern = fetchint 4 user_kern" by (simp add: argint_def zero_proc_def zero_frame_def)
  also have "\<dots> = Some (Some 0)" using l by (simp add: fetchint_def PGSIZE_def de32_def)
  finally show ?thesis .
qed

theorem argptr_in_bounds_witness:
  "argptr 0 12 user_kern = Some (Some 0) \<and> 0 + nat 12 \<le> sz (self user_kern)"
proof -
  have a: "argptr 0 12 user_kern = Some (Some 0)" using user_argint by (simp add: argptr_def PGSIZE_def)
  have "sz (self user_kern) \<le> KERNBASE" by (simp add: PGSIZE_def KERNBASE_def)
  from argptr_in_bounds [OF a this] a show ?thesis by simp
qed

theorem fetchstr_in_bounds_witness:
  "fetchstr 5 user_kern = Some (Some 0) \<and> from_user (5 + 0) 1 user_kern = Some [0]"
proof -
  have "fetchstr 5 user_kern = Some (Some 0)"
    using user_kern_load [of 5 1] by (simp add: fetchstr_def fetchstr_loop.simps [of 5 5] PGSIZE_def)
  with fetchstr_in_bounds [OF this] show ?thesis by simp
qed

end
