(* ===== verification/Xv6_Fs_Facts.thy ===== *)
theory Xv6_Fs_Facts
  imports Xv6_Fs
begin

text \<open>
  Facts about the file system of \<^verbatim>\<open>hw3/xv6/fs.c\<close>: the bitmap of blocks is a set of free blocks, an inode survives the way to its
  disk form and back, and the elements of a path are its parts between slashes.
\<close>

section \<open>The bitmap\<close>

lemma bmask_bit: "bit (bmask bi) n \<longleftrightarrow> n = bi mod 8"
  unfolding bmask_def push_bit_of_1 bit_exp_iff by auto

lemma bit_free_iff: "bit_free d bi \<longleftrightarrow> \<not> bit (d ! (bi div 8)) (bi mod 8)"
proof
  assume "bit_free d bi"
  then show "\<not> bit (d ! (bi div 8)) (bi mod 8)"
    unfolding bit_free_def by (metis bit_and_iff bmask_bit bit_0_eq bot_apply bot_bool_def)
next
  assume "\<not> bit (d ! (bi div 8)) (bi mod 8)"
  then show "bit_free d bi" unfolding bit_free_def by (intro bit_word_eqI) (auto simp: bit_and_iff bmask_bit)
qed

definition free_set :: "bytes \<Rightarrow> nat set" where
  "free_set d = {bi. bi < 8 * length d \<and> bit_free d bi}"

lemma same_bit: "bi div 8 = bj div 8 \<Longrightarrow> bi mod 8 = bj mod 8 \<Longrightarrow> bi = (bj :: nat)"
  by (metis div_mult_mod_eq)

text \<open>C26. A block of the bitmap is a set of free blocks: taking the bit of a block removes exactly that block from the set, giving it back adds exactly it.
\<close>

theorem bitmap_is_free_set:
  assumes "bi < 8 * length d"
  shows "free_set (bit_take bi d) = free_set d - {bi} \<and> free_set (bit_give bi d) = insert bi (free_set d)"
proof -
  have l: "bi div 8 < length d" using assms by auto
  have t: "bit_free (bit_take bi d) bj \<longleftrightarrow> bj \<noteq> bi \<and> bit_free d bj" if "bj < 8 * length d" for bj
    using l same_bit [of bi bj] unfolding bit_free_iff bit_take_def
    by (cases "bj div 8 = bi div 8") (auto simp: bit_or_iff bmask_bit)
  have g: "bit_free (bit_give bi d) bj \<longleftrightarrow> bj = bi \<or> bit_free d bj" if "bj < 8 * length d" for bj
    using l same_bit [of bi bj] unfolding bit_free_iff bit_give_def
    by (cases "bj div 8 = bi div 8") (auto simp: bit_and_iff bit_not_iff bmask_bit)
  have "length (bit_take bi d) = length d" "length (bit_give bi d) = length d" by (simp_all add: bit_take_def bit_give_def)
  then show ?thesis using t g assms unfolding free_set_def by auto
qed

theorem bitmap_is_free_set_witness:
  "free_set (bit_take 9 [0xff, 0xf0]) = free_set [0xff, 0xf0] - {9} \<and> bit_free [0xff, 0xf0] 9"
proof -
  have "bit_free [0xff, 0xf0] 9" by (simp add: bit_free_def bmask_def)
  with bitmap_is_free_set [of 9 "[0xff, 0xf0]"] show ?thesis by simp
qed

section \<open>Paths\<close>

text \<open>The names that the loop of \<^verbatim>\<open>namex\<close> gets from \<^verbatim>\<open>skipelem\<close>, one after the other.\<close>

function elems :: "bytes \<Rightarrow> bytes list" where
  "elems path = (case skipelem path of None \<Rightarrow> [] | Some (rest, name) \<Rightarrow> name # elems rest)"
  by pat_completeness auto
termination
  by (relation "measure length") (auto dest: skipelem_shorter)

declare elems.simps [simp del]

fun parts :: "bytes \<Rightarrow> bytes \<Rightarrow> bytes list" where
  "parts acc [] = [acc]"
| "parts acc (b # bs) = (if b = 0x2f then acc # parts [] bs else parts (acc @ [b]) bs)"

lemma parts_prefix: "parts acc path = (acc @ takeWhile (\<lambda>b. b \<noteq> 0x2f) path) #
    (case dropWhile (\<lambda>b. b \<noteq> 0x2f) path of [] \<Rightarrow> [] | _ # rest \<Rightarrow> parts [] rest)"
  by (induction acc path rule: parts.induct) auto

abbreviation names :: "bytes \<Rightarrow> bytes list" where
  "names path \<equiv> map (take DIRSIZ) (filter (\<lambda>p. p \<noteq> []) (parts [] path))"

lemma names_slashes: "names (dropWhile (\<lambda>b. b = 0x2f) path) = names path"
  by (induction path) auto

lemma names_step:
  assumes "takeWhile (\<lambda>b. b \<noteq> 0x2f) p \<noteq> []"
  shows "names p = take DIRSIZ (takeWhile (\<lambda>b. b \<noteq> 0x2f) p) # names (dropWhile (\<lambda>b. b \<noteq> 0x2f) p)"
proof (cases "dropWhile (\<lambda>b. b \<noteq> 0x2f) p")
  case Nil
  show ?thesis unfolding parts_prefix [of "[]" p] Nil using assms by simp
next
  case (Cons c rest)
  then have "c = 0x2f" using hd_dropWhile [of "\<lambda>b. b \<noteq> 0x2f" p] by simp
  then show ?thesis unfolding parts_prefix [of "[]" p] Cons using assms by simp
qed

text \<open>C27. The names that a path is taken apart into are its parts between slashes without the empty ones, each cut to \<^verbatim>\<open>DIRSIZ\<close> bytes; however many
  slashes stand in a row, at the front or at the end.
\<close>

theorem path_elements: "elems path = map (take DIRSIZ) (filter (\<lambda>p. p \<noteq> []) (parts [] path))"
proof (induction path rule: elems.induct)
  case (1 path)
  let ?p = "dropWhile (\<lambda>b. b = 0x2f) path" and ?n = "\<lambda>b. b \<noteq> (0x2f :: byte)"
  show ?case
  proof (cases "?p = []")
    case True
    then have "skipelem path = None" by (simp add: skipelem_def)
    moreover have "names path = []" using names_slashes [of path] True by simp
    ultimately show ?thesis by (simp add: elems.simps [of path])
  next
    case False
    let ?r = "dropWhile (\<lambda>b. b = 0x2f) (dropWhile ?n ?p)"
    have s: "skipelem path = Some (?r, take DIRSIZ (takeWhile ?n ?p))" using False by (simp add: skipelem_def Let_def)
    have "hd ?p \<noteq> 0x2f" using False by (metis (mono_tags, lifting) hd_dropWhile)
    then have t: "takeWhile ?n ?p \<noteq> []" using False by (cases ?p) auto
    have "names ?p = take DIRSIZ (takeWhile ?n ?p) # names (dropWhile ?n ?p)"
      using t by (rule names_step)
    then have "names path = take DIRSIZ (takeWhile ?n ?p) # names ?r" by (simp only: names_slashes)
    then show ?thesis using "1.IH" [OF s refl] s by (simp add: elems.simps [of path])
  qed
qed

section \<open>Inodes on disk\<close>

lemma length_words: "length (concat (map (\<lambda>a. le32 (word_of_nat a)) xs)) = 4 * length xs"
  by (induction xs) auto

lemma drop_words: "k < length xs \<Longrightarrow> drop (4 * k) (concat (map (\<lambda>a. le32 (word_of_nat a)) xs) @ r) =
    le32 (word_of_nat (xs ! k)) @ concat (map (\<lambda>a. le32 (word_of_nat a)) (drop (Suc k) xs)) @ r"
  by (induction xs arbitrary: k) (auto simp: nth_Cons split: nat.split)

text \<open>C25. What \<^verbatim>\<open>iupdate\<close> stores for an inode is read back by \<^verbatim>\<open>ilock\<close> unchanged: type, device numbers, number of links, size and all block addresses. It fills the 64 bytes
  that an inode has on disk.
\<close>

theorem dinode_round_trip:
  assumes "length (i_addrs ip) = NDIRECT + 1" "i_size ip < 2 ^ 32" "\<forall>a\<in>set (i_addrs ip). a < 2 ^ 32"
  shows "length (dinode_bytes ip) = 64 \<and>
    dinode_read (dinode_bytes ip) ip0 = ip0\<lparr>i_type := i_type ip, i_major := i_major ip, i_minor := i_minor ip,
      i_nlink := i_nlink ip, i_size := i_size ip, i_addrs := i_addrs ip\<rparr>"
proof -
  let ?w = "concat (map (\<lambda>a. le32 (word_of_nat a)) (i_addrs ip))"
  have len: "length (dinode_bytes ip) = 64" using assms(1) by (simp add: dinode_bytes_def length_words NDIRECT_def)
  have h: "dinode_bytes ip = le16 (i_type ip) @ le16 (i_major ip) @ le16 (i_minor ip) @ le16 (i_nlink ip) @
      le32 (word_of_nat (i_size ip)) @ ?w" by (simp add: dinode_bytes_def)
  have f: "de16 (dread 0 2 (dinode_bytes ip)) = i_type ip" "de16 (dread 2 2 (dinode_bytes ip)) = i_major ip"
      "de16 (dread 4 2 (dinode_bytes ip)) = i_minor ip" "de16 (dread 6 2 (dinode_bytes ip)) = i_nlink ip"
    unfolding h by (simp_all add: dread_def)
  have sz: "field32 2 (dinode_bytes ip) = i_size ip"
    unfolding h using assms(2) by (simp add: field32_def dread_def unat_of_nat)
  have a: "field32 (k + 3) (dinode_bytes ip) = i_addrs ip ! k" if "k < NDIRECT + 1" for k
  proof -
    have k: "k < length (i_addrs ip)" using that assms(1) by simp
    have "drop (4 * (k + 3)) (dinode_bytes ip) = drop (4 * k) ?w" unfolding h by simp
    then have "dread (4 * (k + 3)) 4 (dinode_bytes ip) = le32 (word_of_nat (i_addrs ip ! k))"
      using drop_words [OF k, of "[]"] by (simp add: dread_def)
    moreover have "i_addrs ip ! k < 2 ^ 32" using k assms(3) by simp
    ultimately show ?thesis by (simp add: field32_def unat_of_nat)
  qed
  have "map (\<lambda>k. field32 (k + 3) (dinode_bytes ip)) [0..<NDIRECT + 1] = i_addrs ip"
    using a assms(1) by (intro nth_equalityI) (simp_all del: upt_Suc)
  then show ?thesis using len f sz by (simp add: dinode_read_def)
qed

definition some_inode :: inode where
  "some_inode = \<lparr>i_dev = 1, i_inum = 7, i_ref = 1, i_lock = \<lparr>sl_locked = False, sl_pid = 0\<rparr>, i_valid = True, i_type = T_FILE,
     i_major = 0, i_minor = 0, i_nlink = 2, i_size = 700, i_addrs = [60, 61] @ replicate 11 0\<rparr>"

theorem dinode_round_trip_witness:
  "i_addrs (dinode_read (dinode_bytes some_inode) some_inode) = [60, 61] @ replicate 11 0"
  using dinode_round_trip [of some_inode some_inode] by (simp add: some_inode_def NDIRECT_def)

end
