(* ===== verification/Xv6_Refs.thy ===== *)
theory Xv6_Refs
  imports Xv6_Args Xv6_Pids "HOL-Library.Multiset"
begin

text \<open>
  References to open files, \<^verbatim>\<open>hw3/xv6/file.c\<close>, \<^verbatim>\<open>sysfile.c\<close> and \<^verbatim>\<open>proc.c\<close>: the reference count of a file is the number of
  descriptors of all processes that lead to it, so a file is given back exactly when its last descriptor is closed.
\<close>

section \<open>Counting descriptors\<close>

definition fds :: "kern \<Rightarrow> nat option list list" where
  "fds k = map ofile (procs k)"

definition refcounts :: "kern \<Rightarrow> int list" where
  "refcounts k = map f_ref (files k)"

definition uses :: "nat option list list \<Rightarrow> nat \<Rightarrow> nat" where
  "uses t f = sum_list (map (\<lambda>d. count_list d (Some f)) t)"

lemma sum_list_update_nat:
  "i < length xs \<Longrightarrow> sum_list (xs[i := v]) + xs ! i = sum_list xs + (v :: nat)"
  by (induction xs arbitrary: i) (auto split: nat.split)

lemma count_list_update:
  "j < length d \<Longrightarrow> count_list (d[j := v]) x + of_bool (d ! j = x) = count_list d x + of_bool (v = x)"
proof (induction d arbitrary: j)
  case (Cons a d)
  show ?case
  proof (cases j)
    case (Suc i)
    then show ?thesis using Cons.IH [of i] Cons.prems by simp
  qed simp
qed simp

lemma uses_update:
  assumes "i < length t" "j < length (t ! i)"
  shows "uses (t[i := (t ! i)[j := v]]) f + of_bool (t ! i ! j = Some f) = uses t f + of_bool (v = Some f)"
  using sum_list_update_nat [of i "map (\<lambda>d. count_list d (Some f)) t" "count_list ((t ! i)[j := v]) (Some f)"]
    count_list_update [OF assms(2), of v "Some f"] assms(1)
  by (simp add: uses_def map_update)

text \<open>
  The counts \<open>c\<close> are right for the descriptors \<open>t\<close> and the references \<open>x\<close> that the kernel itself holds
  in the middle of a system call.
\<close>

definition counted :: "nat multiset \<Rightarrow> nat option list list \<Rightarrow> int list \<Rightarrow> bool" where
  "counted x t c \<longleftrightarrow> (\<forall>f<length c. c ! f = int (uses t f + count x f)) \<and> (\<forall>f\<in>#x. f < length c) \<and>
     (\<forall>d\<in>set t. length d = NOFILE \<and> (\<forall>f. Some f \<in> set d \<longrightarrow> f < length c))"

definition deads :: "kern \<Rightarrow> bool list" where
  "deads k = map (\<lambda>p. state p = UNUSED \<or> state p = ZOMBIE) (procs k)"

text \<open>Between system calls: all references are descriptors, and a process that has ended or not begun has none.\<close>

definition refs_ok :: "kern \<Rightarrow> bool" where
  "refs_ok k \<longleftrightarrow> counted {#} (fds k) (refcounts k) \<and>
     (\<forall>i<length (procs k). deads k ! i \<longrightarrow> fds k ! i = replicate NOFILE None)"

lemma rows_update:
  assumes "counted x t c" "i < length t" "\<And>f. v = Some f \<Longrightarrow> f < length c" "d \<in> set (t[i := (t ! i)[j := v]])"
  shows "length d = NOFILE \<and> (\<forall>f. Some f \<in> set d \<longrightarrow> f < length c)"
proof -
  have old: "length d = NOFILE \<and> (\<forall>f. Some f \<in> set d \<longrightarrow> f < length c)" if "d \<in> set t" for d
    using assms(1) that unfolding counted_def by blast
  have "d \<in> set t \<or> d = (t ! i)[j := v]" using assms(4) set_update_subset_insert by fastforce
  moreover have "Some f \<in> insert v (set (t ! i))" if "Some f \<in> set ((t ! i)[j := v])" for f
    using that set_update_subset_insert by fastforce
  ultimately show ?thesis using old [of d] old [OF nth_mem [OF assms(2)]] assms(3) by auto
qed

lemma counted_row: "counted x t c \<Longrightarrow> i < length t \<Longrightarrow> length (t ! i) = NOFILE"
  by (simp add: counted_def)

lemma counted_bound:
  assumes "counted x t c" "i < length t" "j < NOFILE" "t ! i ! j = Some f"
  shows "f < length c"
  using assms counted_row [OF assms(1,2)] nth_mem [of i t] nth_mem [of j "t ! i"] unfolding counted_def by metis

lemma counted_new:
  assumes "counted x t c" "f < length c"
  shows "counted (add_mset f x) t (c[f := c ! f + 1])"
  using assms by (auto simp: counted_def nth_list_update)

lemma counted_drop:
  assumes "counted (add_mset f x) t c"
  shows "counted x t (c[f := c ! f - 1])" "f < length c" "1 \<le> c ! f"
proof -
  show f: "f < length c" using assms by (simp add: counted_def)
  then show "1 \<le> c ! f" using assms by (simp add: counted_def)
  show "counted x t (c[f := c ! f - 1])" using assms f by (auto simp: counted_def nth_list_update)
qed

lemma counted_put:
  assumes "counted (add_mset f x) t c" "i < length t" "j < NOFILE" "t ! i ! j = None"
  shows "counted x (t[i := (t ! i)[j := Some f]]) c"
proof -
  have l: "j < length (t ! i)" using counted_row [OF assms(1,2)] assms(3) by simp
  have u: "uses (t[i := (t ! i)[j := Some f]]) g = uses t g + of_bool (f = g)" for g
    using uses_update [OF assms(2) l, of "Some f" g] assms(4) by simp
  have "d \<in> set (t[i := (t ! i)[j := Some f]]) \<Longrightarrow> length d = NOFILE \<and> (\<forall>f. Some f \<in> set d \<longrightarrow> f < length c)" for d
    using rows_update [OF assms(1,2)] counted_drop(2) [OF assms(1)] by blast
  then show ?thesis using assms(1) u by (auto simp: counted_def)
qed

lemma counted_take:
  assumes "counted x t c" "i < length t" "j < NOFILE" "t ! i ! j = Some f"
  shows "counted (add_mset f x) (t[i := (t ! i)[j := None]]) c"
proof -
  have l: "j < length (t ! i)" using counted_row [OF assms(1,2)] assms(3) by simp
  have f: "f < length c" by (rule counted_bound [OF assms])
  have u: "uses t g = uses (t[i := (t ! i)[j := None]]) g + of_bool (f = g)" for g
    using uses_update [OF assms(2) l, of None g] assms(4) by simp
  have "d \<in> set (t[i := (t ! i)[j := None]]) \<Longrightarrow> length d = NOFILE \<and> (\<forall>f. Some f \<in> set d \<longrightarrow> f < length c)" for d
    using rows_update [OF assms(1,2)] by blast
  then show ?thesis using assms(1) u f by (auto simp: counted_def)
qed

section \<open>What the operations do to the counts\<close>

definition same_fds :: "kern \<Rightarrow> kern \<Rightarrow> bool" where
  "same_fds k k' \<longleftrightarrow> fds k' = fds k \<and> deads k' = deads k \<and> cur k' = cur k"

lemma same_fds_refl [simp]: "same_fds k k"
  by (simp add: same_fds_def)

lemma same_fds_trans: "same_fds k k' \<Longrightarrow> same_fds k' k'' \<Longrightarrow> same_fds k k''"
  by (simp add: same_fds_def)

lemma same_fdsI: "procs k' = procs k \<Longrightarrow> cur k' = cur k \<Longrightarrow> same_fds k k'"
  by (simp add: same_fds_def fds_def deads_def)

lemma length_fds [simp]: "length (fds k) = length (procs k)" "length (deads k) = length (procs k)" "length (refcounts k) = length (files k)"
  by (simp_all add: fds_def deads_def refcounts_def)

lemma wakeup_fds: "same_fds k (wakeup ch k)" "files (wakeup ch k) = files k"
  by (auto simp: same_fds_def fds_def deads_def wakeup_def wakeup1_def)

lemma kfs_files: "kfs f k = Some k' \<Longrightarrow> files k' = files k"
  by (auto simp: kfs_def bind_eq_Some_conv)

lemma op_files:
  assumes "kbegin_op b = Some k1" "kfs g k1 = Some k2" "kend_op k2 = Some k'"
  shows "files k' = files b"
  using kfs_files [OF assms(1) [unfolded kbegin_op_def]] kfs_files [OF assms(2)] kfs_files [OF assms(3) [unfolded kend_op_def]] by simp

lemma pipeclose_fds:
  assumes "pipeclose p w k = Some k'"
  shows "same_fds k k' \<and> files k' = files k"
proof -
  let ?a = "k\<lparr>pipes := (pipes k)(p := pipe_close_end w (pipes k p))\<rparr>"
  let ?b = "wakeup (if w then ChPipeRead p else ChPipeWrite p) ?a"
  have "same_fds k ?a" by (rule same_fdsI) simp_all
  then have b: "same_fds k ?b" using wakeup_fds(1) by (rule same_fds_trans)
  have fb: "files ?b = files k" unfolding wakeup_fds(2) by simp
  have "k' = ?b \<or> (\<exists>x. k' = ?b\<lparr>km := x\<rparr>)"
    using assms by (auto simp only: pipeclose_def Let_def bind_eq_Some_conv option.inject split: if_split_asm)
  then show ?thesis
  proof
    assume "k' = ?b"
    then show ?thesis using b fb by (simp only: simp_thms)
  next
    assume "\<exists>x. k' = ?b\<lparr>km := x\<rparr>"
    then obtain x where k': "k' = ?b\<lparr>km := x\<rparr>" ..
    have "same_fds ?b k'" unfolding k' by (rule same_fdsI) simp_all
    moreover have "files k' = files ?b" unfolding k' by simp
    ultimately show ?thesis using same_fds_trans [OF b] fb by (simp only: simp_thms)
  qed
qed

lemma fileclose_counts:
  assumes "fileclose f k = Some k'" "f < length (files k)"
  shows "same_fds k k' \<and> refcounts k' = (refcounts k)[f := refcounts k ! f - 1]"
  using assms(1)
proof (cases rule: fileclose_cases)
  case keep
  have "same_fds k k'" unfolding keep(2) by (rule same_fdsI) simp_all
  moreover have "refcounts k' = (refcounts k)[f := refcounts k ! f - 1]"
    unfolding keep(2) using assms(2) by (simp add: refcounts_def map_update)
  ultimately show ?thesis ..
next
  case (last b)
  have one: "f_ref (files k ! f) = 1" using last(1,2) assms(2) by simp
  have b: "same_fds k b" "refcounts b = (refcounts k)[f := refcounts k ! f - 1]"
    unfolding last(3) using one assms(2) by (auto intro: same_fdsI simp: refcounts_def map_update)
  from last(4) have "same_fds b k' \<and> files k' = files b"
  proof (elim disjE exE conjE)
    fix q w
    assume "pipeclose q w b = Some k'"
    then show ?thesis by (rule pipeclose_fds)
  next
    fix ip k1 k2
    assume "kbegin_op b = Some k1" "kfs (iput (pid (self k1)) ip) k1 = Some k2" "kend_op k2 = Some k'"
    from op_pids [OF this] op_files [OF this] show ?thesis by (auto intro: same_fdsI)
  qed simp
  then show ?thesis using b same_fds_trans by (auto simp: refcounts_def)
qed

text \<open>A descriptor of process \<open>i\<close> is set.\<close>

abbreviation set_fd :: "nat \<Rightarrow> nat \<Rightarrow> nat option \<Rightarrow> kern \<Rightarrow> kern" where
  "set_fd i fd v \<equiv> upd_proc i (\<lambda>p. p\<lparr>ofile := (ofile p)[fd := v]\<rparr>)"

lemma set_fd_view:
  "i < length (procs k) \<Longrightarrow> fds (set_fd i fd v k) = (fds k)[i := (fds k ! i)[fd := v]]"
  "deads (set_fd i fd v k) = deads k" "cur (set_fd i fd v k) = cur k" "refcounts (set_fd i fd v k) = refcounts k"
proof -
  show "deads (set_fd i fd v k) = deads k"
    by (cases "i < length (procs k)") (simp_all add: deads_def map_update list_update_beyond list_update_same_conv)
qed (simp_all add: fds_def map_update refcounts_def)

lemma refcounts_kept: "f_ref (g (files k ! f)) = f_ref (files k ! f) \<Longrightarrow> refcounts (upd_file f g k) = refcounts k"
  by (cases "f < length (files k)") (simp_all add: refcounts_def map_update list_update_beyond list_update_same_conv)

lemma filedup_counts:
  assumes "filedup f k = Some k'" "f < length (files k)"
  shows "same_fds k k'" "refcounts k' = (refcounts k)[f := refcounts k ! f + 1]"
  using assms by (auto simp: filedup_def refcounts_def map_update intro: same_fdsI split: if_split_asm)

section \<open>The loops over the descriptors\<close>

lemma fork_files_counted:
  assumes "fork_files np l k = Some k'" "counted x (fds k) (refcounts k)" "np < length (procs k)" "cur k < length (procs k)"
    "cur k \<noteq> np" "distinct l" "set l \<subseteq> {..<NOFILE}" "\<forall>fd\<in>set l. fds k ! np ! fd = None"
  shows "counted x (fds k') (refcounts k') \<and> deads k' = deads k \<and> cur k' = cur k \<and> (\<forall>i. i \<noteq> np \<longrightarrow> fds k' ! i = fds k ! i)"
  using assms
proof (induction np l k rule: fork_files.induct)
  case (2 np fd l k)
  show ?case
  proof (cases "ofile (self k) ! fd")
    case None
    then show ?thesis using 2 by simp
  next
    case (Some f)
    have r: "fds k ! cur k ! fd = Some f" using Some "2.prems"(4) by (simp add: fds_def)
    have fd: "fd < NOFILE" using "2.prems"(7) by simp
    have f: "f < length (files k)" using counted_bound [OF "2.prems"(2) _ fd r] "2.prems"(4) by simp
    from "2.prems"(1) Some obtain k1 where k1: "filedup f k = Some k1" "fork_files np l (set_fd np fd (Some f) k1) = Some k'"
      by (auto simp: bind_eq_Some_conv)
    let ?k2 = "set_fd np fd (Some f) k1"
    note d = filedup_counts [OF k1(1) f]
    have len: "length (procs k1) = length (procs k)" using filedup_procs [OF k1(1)] by simp
    have v: "fds ?k2 = (fds k)[np := (fds k ! np)[fd := Some f]]" "deads ?k2 = deads k" "cur ?k2 = cur k"
        "refcounts ?k2 = (refcounts k)[f := refcounts k ! f + 1]"
      using set_fd_view [where i = np and k = k1 and fd = fd and v = "Some f"] d len "2.prems"(3) by (simp_all add: same_fds_def)
    have c: "counted x (fds ?k2) (refcounts ?k2)"
      unfolding v by (rule counted_put [OF counted_new [OF "2.prems"(2)]]) (use f fd "2.prems"(3,8) in simp_all)
    have n: "\<forall>e\<in>set l. fds ?k2 ! np ! e = None"
    proof
      fix e
      assume "e \<in> set l"
      moreover then have "fd \<noteq> e" using "2.prems"(6) by auto
      ultimately show "fds ?k2 ! np ! e = None" unfolding v using "2.prems"(3,8) by simp
    qed
    have "counted x (fds k') (refcounts k') \<and> deads k' = deads ?k2 \<and> cur k' = cur ?k2 \<and> (\<forall>i. i \<noteq> np \<longrightarrow> fds k' ! i = fds ?k2 ! i)"
      using "2.IH"(2) [OF Some k1 c _ _ _ _ _ n] "2.prems"(3-7) len v(3) by simp
    then show ?thesis using v by simp
  qed
qed simp

lemma exit_files_counted:
  assumes "exit_files l k = Some k'" "counted x (fds k) (refcounts k)" "cur k < length (procs k)" "set l \<subseteq> {..<NOFILE}"
  shows "counted x (fds k') (refcounts k') \<and> deads k' = deads k \<and> cur k' = cur k \<and> length (procs k') = length (procs k) \<and>
    (\<forall>i. i \<noteq> cur k \<longrightarrow> fds k' ! i = fds k ! i) \<and>
    (\<forall>j. j \<in> set l \<or> fds k ! cur k ! j = None \<longrightarrow> j < NOFILE \<longrightarrow> fds k' ! cur k ! j = None)"
  using assms
proof (induction l k rule: exit_files.induct)
  case (2 fd l k)
  have fd: "fd < NOFILE" using "2.prems"(4) by simp
  have row: "fds k ! cur k = ofile (self k)" using "2.prems"(3) by (simp add: fds_def)
  show ?case
  proof (cases "ofile (self k) ! fd")
    case None
    then show ?thesis using "2.IH"(1) [OF None] 2 row by auto
  next
    case (Some f)
    have r: "fds k ! cur k ! fd = Some f" using Some row by simp
    have f: "f < length (files k)" using counted_bound [OF "2.prems"(2) _ fd r] "2.prems"(3) by simp
    from "2.prems"(1) Some obtain k1 where k1: "fileclose f k = Some k1" "exit_files l (set_fd (cur k1) fd None k1) = Some k'"
      by (auto simp: bind_eq_Some_conv)
    let ?k2 = "set_fd (cur k1) fd None k1"
    have d: "same_fds k k1" "refcounts k1 = (refcounts k)[f := refcounts k ! f - 1]" using fileclose_counts [OF k1(1) f] by auto
    have len: "length (procs k1) = length (procs k)" using d(1) length_fds(1) unfolding same_fds_def by metis
    have v: "fds ?k2 = (fds k)[cur k := (fds k ! cur k)[fd := None]]" "deads ?k2 = deads k" "cur ?k2 = cur k"
        "refcounts ?k2 = (refcounts k)[f := refcounts k ! f - 1]"
      using set_fd_view [where i = "cur k1" and k = k1 and fd = fd and v = None] d len "2.prems"(3) by (simp_all add: same_fds_def)
    have c: "counted x (fds ?k2) (refcounts ?k2)"
      unfolding v by (rule counted_drop(1) [OF counted_take [OF "2.prems"(2) _ fd r]]) (use "2.prems"(3) in simp)
    have "length (procs ?k2) = length (procs k)" using len by simp
    note ih = "2.IH"(2) [OF Some k1 c, unfolded this v(3)]
    have ih': "counted x (fds k') (refcounts k') \<and> deads k' = deads ?k2 \<and> cur k' = cur k \<and> length (procs k') = length (procs k) \<and>
        (\<forall>i. i \<noteq> cur k \<longrightarrow> fds k' ! i = fds ?k2 ! i) \<and>
        (\<forall>j. j \<in> set l \<or> fds ?k2 ! cur k ! j = None \<longrightarrow> j < NOFILE \<longrightarrow> fds k' ! cur k ! j = None)"
      using ih "2.prems"(3,4) by simp
    have rl: "length (fds k ! cur k) = NOFILE" using counted_row [OF "2.prems"(2)] "2.prems"(3) by simp
    show ?thesis using ih' "2.prems"(3) fd rl unfolding v by (auto simp: nth_list_update)
  qed
qed auto

section \<open>The system calls on descriptors\<close>

text \<open>A system call of the current process changes only its own descriptors.\<close>

definition frame_fds :: "kern \<Rightarrow> kern \<Rightarrow> bool" where
  "frame_fds k k' \<longleftrightarrow> deads k' = deads k \<and> cur k' = cur k \<and> length (procs k') = length (procs k) \<and>
     (\<forall>i. i \<noteq> cur k \<longrightarrow> fds k' ! i = fds k ! i)"

lemma same_frame: "same_fds k k' \<Longrightarrow> frame_fds k k'"
  unfolding same_fds_def frame_fds_def using length_fds(1) by metis

lemma frame_trans: "frame_fds k k' \<Longrightarrow> frame_fds k' k'' \<Longrightarrow> frame_fds k k''"
  by (simp add: frame_fds_def)

lemma set_fd_frame: "cur k < length (procs k) \<Longrightarrow> frame_fds k (set_fd (cur k) fd v k)"
  using set_fd_view [where i = "cur k" and k = k and fd = fd and v = v] by (simp add: frame_fds_def)

lemma frame_ok:
  assumes "refs_ok k" "\<not> deads k ! cur k" "frame_fds k k'" "counted {#} (fds k') (refcounts k')"
  shows "refs_ok k'"
  using assms unfolding refs_ok_def frame_fds_def by metis

lemma filealloc_counted:
  assumes "filealloc k = Some (f, k')" "counted x (fds k) (refcounts k)"
  shows "counted (add_mset f x) (fds k') (refcounts k')" "same_fds k k'"
proof -
  from assms(1) have f: "f < length (files k)" "f_ref (files k ! f) = 0" and k': "k' = upd_file f (\<lambda>f. f\<lparr>f_ref := 1\<rparr>) k"
    by (auto simp: filealloc_def dest: first_idx_SomeD split: option.split_asm)
  show s: "same_fds k k'" unfolding k' by (rule same_fdsI) simp_all
  have "refcounts k' = (refcounts k)[f := refcounts k ! f + 1]"
    unfolding k' using f by (simp add: refcounts_def map_update)
  then show "counted (add_mset f x) (fds k') (refcounts k')"
    using counted_new [OF assms(2), of f] f(1) s by (simp add: same_fds_def)
qed

lemma fdalloc_counted:
  assumes "fdalloc f k = Some (fd, k')" "counted (add_mset f x) (fds k) (refcounts k)" "cur k < length (procs k)"
  shows "counted x (fds k') (refcounts k')" "frame_fds k k'" "fds k' ! cur k ! fd = Some f" "fd < NOFILE" "k' = set_fd (cur k) fd (Some f) k"
proof -
  from assms(1) have fd: "fd < length (ofile (self k))" "ofile (self k) ! fd = None" and k': "k' = set_fd (cur k) fd (Some f) k"
    by (auto simp: fdalloc_def dest: first_idx_SomeD split: option.split_asm)
  have row: "fds k ! cur k = ofile (self k)" using assms(3) by (simp add: fds_def)
  have l: "length (ofile (self k)) = NOFILE" using counted_row [OF assms(2), of "cur k"] assms(3) row by simp
  note v = set_fd_view [where i = "cur k" and k = k and fd = fd and v = "Some f"]
  show "fd < NOFILE" using fd l by simp
  show "counted x (fds k') (refcounts k')"
    unfolding k' v(4) v(1) [OF assms(3)] by (rule counted_put [OF assms(2)]) (use assms(3) fd l row in simp_all)
  show "frame_fds k k'" unfolding k' by (rule set_fd_frame [OF assms(3)])
  show "fds k' ! cur k ! fd = Some f" unfolding k' v(1) [OF assms(3)] using assms(3) fd row by simp
  show "k' = set_fd (cur k) fd (Some f) k" by (rule k')
qed

lemma fileclose_counted:
  assumes "fileclose f k = Some k'" "counted (add_mset f x) (fds k) (refcounts k)"
  shows "counted x (fds k') (refcounts k')" "same_fds k k'"
proof -
  have f: "f < length (files k)" using counted_drop(2) [OF assms(2)] by simp
  note c = fileclose_counts [OF assms(1) f]
  then show "same_fds k k'" by blast
  show "counted x (fds k') (refcounts k')" using counted_drop(1) [OF assms(2)] c by (simp add: same_fds_def)
qed

lemma filedup_counted:
  assumes "filedup f k = Some k'" "counted x (fds k) (refcounts k)" "f < length (files k)"
  shows "counted (add_mset f x) (fds k') (refcounts k')" "same_fds k k'"
  using filedup_counts [OF assms(1,3)] counted_new [OF assms(2), of f] assms(3) by (simp_all add: same_fds_def)

lemma argfd_open:
  assumes "argfd n k = Some (Some (fd, f))"
  shows "fd < NOFILE" "ofile (self k) ! fd = Some f"
proof -
  obtain w where w: "argint n k = Some (Some w)"
    using assms by (cases "argint n k") (auto simp: argfd_def split: option.split_asm)
  have c: "\<not> (sint w < 0 \<or> sint w \<ge> int NOFILE)" using assms w by (auto simp: argfd_def split: if_split_asm)
  then have "ofile (self k) ! nat (sint w) = Some f \<and> fd = nat (sint w)"
    using assms w by (cases "ofile (self k) ! nat (sint w)") (auto simp: argfd_def)
  then show "fd < NOFILE" "ofile (self k) ! fd = Some f" using c by auto
qed

lemma with_fd_cases:
  assumes "with_fd n k g = Some (r, k')"
  obtains (refused) "k' = k" | (called) fd f where "fd < NOFILE" "ofile (self k) ! fd = Some f" "g fd f = Some (r, k')"
proof (cases "argfd n k")
  case None
  then show thesis using assms by (simp add: with_fd_def)
next
  case (Some a)
  show thesis
  proof (cases a)
    case None
    then show thesis using assms Some refused by (simp add: with_fd_def refused_def)
  next
    case (Some b)
    then obtain fd f where b: "argfd n k = Some (Some (fd, f))" using \<open>argfd n k = Some a\<close> by (cases b) simp
    then show thesis using assms called argfd_open [OF b] by (simp add: with_fd_def)
  qed
qed

text \<open>A process that is alive is at work in a consistent table.\<close>

definition at_work :: "kern \<Rightarrow> bool" where
  "at_work k \<longleftrightarrow> refs_ok k \<and> cur k < length (procs k) \<and> \<not> deads k ! cur k"

lemma at_workD:
  assumes "at_work k"
  shows "refs_ok k" "counted {#} (fds k) (refcounts k)" "cur k < length (procs k)" "\<not> deads k ! cur k" "fds k ! cur k = ofile (self k)"
  using assms by (auto simp: at_work_def refs_ok_def fds_def)

lemma at_work_frame:
  assumes "at_work k" "frame_fds k k'" "counted {#} (fds k') (refcounts k')"
  shows "refs_ok k'"
  using frame_ok assms at_workD by blast

lemma sys_dup_refs:
  assumes "at_work k" "sys_dup k = Some (r, k')"
  shows "refs_ok k'"
proof -
  note w = at_workD [OF assms(1)]
  from assms(2) show ?thesis unfolding sys_dup_def
  proof (cases rule: with_fd_cases)
    case refused
    then show ?thesis using w(1) by simp
  next
    case (called fd0 f)
    show ?thesis
    proof (cases "fdalloc f k")
      case None
      then show ?thesis using called w(1) by (simp add: refused_def)
    next
      case (Some a)
      then obtain fd k1 where k1: "fdalloc f k = Some (fd, k1)" "filedup f k1 = Some k'"
        using called by (cases a) (auto simp: bind_eq_Some_conv)
      have f: "f < length (files k)" using counted_bound [OF w(2) _ called(1), of "cur k" f] called(2) w(3,5) by simp
      from k1(1) have fd: "fd < length (ofile (self k))" "ofile (self k) ! fd = None" and e: "k1 = set_fd (cur k) fd (Some f) k"
        by (auto simp: fdalloc_def dest: first_idx_SomeD split: option.split_asm)
      note v = set_fd_view [where i = "cur k" and k = k and fd = fd and v = "Some f", folded e]
      have c: "counted {#} (fds k1) ((refcounts k1)[f := refcounts k1 ! f + 1])"
        unfolding v(4) v(1) [OF w(3)]
        by (rule counted_put [OF counted_new [OF w(2)]]) (use f fd w(3,5) counted_row [OF w(2), of "cur k"] in simp_all)
      have f1: "f < length (files k1)" unfolding e using f by simp
      note d = filedup_counts [OF k1(2) f1]
      have "frame_fds k k'" using frame_trans [OF set_fd_frame [OF w(3)] same_frame] d(1) unfolding e by blast
      then show ?thesis using at_work_frame [OF assms(1)] c d by (simp add: same_fds_def)
    qed
  qed
qed

lemma sys_close_refs:
  assumes "at_work k" "sys_close k = Some (r, k')"
  shows "refs_ok k'"
proof -
  note w = at_workD [OF assms(1)]
  from assms(2) show ?thesis unfolding sys_close_def
  proof (cases rule: with_fd_cases)
    case refused
    then show ?thesis using w(1) by simp
  next
    case (called fd f)
    let ?k1 = "set_fd (cur k) fd None k"
    note v = set_fd_view [where i = "cur k" and k = k and fd = fd and v = None]
    have c: "counted {#f#} (fds ?k1) (refcounts ?k1)"
      unfolding v(4) v(1) [OF w(3)] by (rule counted_take [OF w(2) _ called(1)]) (use w(3,5) called(2) in simp_all)
    have k': "fileclose f ?k1 = Some k'" using called(3) by (auto simp: bind_eq_Some_conv)
    note d = fileclose_counted [OF k' c]
    show ?thesis
      using at_work_frame [OF assms(1) frame_trans [OF set_fd_frame [OF w(3)] same_frame [OF d(2)]] d(1)] .
  qed
qed

lemma open_file_refs:
  assumes "at_work k" "open_file k = Some (r, k')"
  shows "refs_ok k'"
proof (cases "filealloc k")
  case None
  then show ?thesis using assms by (simp add: open_file_def at_work_def)
next
  case (Some a)
  note w = at_workD [OF assms(1)]
  obtain f k1 where a: "filealloc k = Some (f, k1)" using Some by (cases a) simp
  note c = filealloc_counted [OF a w(2)]
  have cu: "cur k1 < length (procs k1)" using same_frame [OF c(2)] w(3) by (simp add: frame_fds_def)
  show ?thesis
  proof (cases "fdalloc f k1")
    case None
    then have "fileclose f k1 = Some k'" using assms(2) a by (auto simp: open_file_def bind_eq_Some_conv)
    note d = fileclose_counted [OF this c(1)]
    show ?thesis using at_work_frame [OF assms(1) frame_trans [OF same_frame [OF c(2)] same_frame [OF d(2)]] d(1)] .
  next
    case (Some b)
    then obtain fd where "fdalloc f k1 = Some (fd, k')" using assms(2) a by (cases b) (auto simp: open_file_def)
    note d = fdalloc_counted(1,2) [OF this c(1) cu]
    show ?thesis using at_work_frame [OF assms(1) frame_trans [OF same_frame [OF c(2)] d(2)] d(1)] .
  qed
qed

lemma pipealloc_counted:
  assumes "pipealloc k = Some (r, k')" "counted {#} (fds k) (refcounts k)"
  shows "same_fds k k'" "case r of None \<Rightarrow> counted {#} (fds k') (refcounts k') | Some (f0, f1) \<Rightarrow> counted {#f0, f1#} (fds k') (refcounts k')"
proof -
  have "same_fds k k' \<and> (case r of None \<Rightarrow> counted {#} (fds k') (refcounts k') | Some (f0, f1) \<Rightarrow> counted {#f0, f1#} (fds k') (refcounts k'))"
  proof (cases "filealloc k")
    case None
    then show ?thesis using assms by (simp add: pipealloc_def)
  next
    case (Some a)
    then obtain f0 k1 where a: "filealloc k = Some (f0, k1)" by (cases a) simp
    note c1 = filealloc_counted [OF a assms(2)]
    show ?thesis
    proof (cases "filealloc k1")
      case None
      then obtain "fileclose f0 k1 = Some k'" "r = None" using assms(1) a by (auto simp: pipealloc_def bind_eq_Some_conv)
      then show ?thesis using fileclose_counted [OF _ c1(1)] same_fds_trans [OF c1(2)] by auto
    next
      case (Some b)
      then obtain f1 k2 where b: "filealloc k1 = Some (f1, k2)" by (cases b) simp
      note c2 = filealloc_counted [OF b c1(1)]
      obtain p x where x: "kalloc (km k2) = (p, x)" by (cases "kalloc (km k2)")
      have v3: "same_fds k (k2\<lparr>km := x\<rparr>)" "fds (k2\<lparr>km := x\<rparr>) = fds k2" "refcounts (k2\<lparr>km := x\<rparr>) = refcounts k2"
        using same_fds_trans [OF c1(2) c2(2)] by (simp_all add: same_fds_def fds_def deads_def refcounts_def)
      show ?thesis
      proof (cases "p = 0")
        case True
        then obtain k4 where k4: "fileclose f0 (k2\<lparr>km := x\<rparr>) = Some k4" "fileclose f1 k4 = Some k'" "r = None"
          using assms(1) a b x by (auto simp: pipealloc_def Let_def bind_eq_Some_conv)
        have "counted (add_mset f0 {#f1#}) (fds (k2\<lparr>km := x\<rparr>)) (refcounts (k2\<lparr>km := x\<rparr>))"
          using c2(1) v3 by (simp add: add_mset_commute)
        note d = fileclose_counted [OF k4(1) this]
        note e = fileclose_counted [OF k4(2) d(1)]
        show ?thesis using e(1) k4(3) same_fds_trans [OF v3(1) same_fds_trans [OF d(2) e(2)]] by simp
      next
        case False
        have "procs k' = procs k2 \<and> cur k' = cur k2 \<and> refcounts k' = refcounts k2 \<and> r = Some (f0, f1)"
        proof -
          define k3 where "k3 = k2\<lparr>km := x, pipes := (pipes k2)(p := \<lparr>p_data = map (mem x) [p + 52..<p + 52 + PIPESIZE], p_nread = 0,
            p_nwrite = 0, p_readopen = True, p_writeopen = True\<rparr>)\<rparr>"
          define k4 where "k4 = upd_file f0 (\<lambda>f. f\<lparr>f_type := FD_PIPE, f_readable := True, f_writable := False, f_pipe := p\<rparr>) k3"
          have k': "k' = upd_file f1 (\<lambda>f. f\<lparr>f_type := FD_PIPE, f_readable := False, f_writable := True, f_pipe := p\<rparr>) k4"
            and r: "r = Some (f0, f1)"
            using assms(1) a b x False by (simp_all add: pipealloc_def Let_def k3_def k4_def)
          have "refcounts k' = refcounts k4" unfolding k' by (rule refcounts_kept) simp
          also have "\<dots> = refcounts k3" unfolding k4_def by (rule refcounts_kept) simp
          finally show ?thesis using r by (simp add: k' k4_def k3_def) (simp add: refcounts_def)
        qed
        then show ?thesis using c2(1) same_fds_trans [OF v3(1) same_fdsI] by (simp add: fds_def add_mset_commute)
      qed
    qed
  qed
  then show "same_fds k k'" "case r of None \<Rightarrow> counted {#} (fds k') (refcounts k') | Some (f0, f1) \<Rightarrow> counted {#f0, f1#} (fds k') (refcounts k')"
    by auto
qed

section \<open>Fork, exit and wait\<close>

lemma allocproc_refs:
  assumes "allocproc k = (r, k')"
  shows "fds k' = fds k \<and> refcounts k' = refcounts k \<and> cur k' = cur k \<and> length (procs k') = length (procs k) \<and>
    (case r of None \<Rightarrow> deads k' = deads k
     | Some np \<Rightarrow> np < length (procs k) \<and> deads k ! np \<and> deads k' = (deads k)[np := False])"
  using assms
proof (cases rule: allocproc_cases)
  case no_slot
  then show ?thesis by simp
next
  case (no_page i x)
  have d: "deads k ! i" using no_page(2,3) by (simp add: deads_def)
  have "fds k' = (fds k)[i := fds k ! i]" unfolding no_page(4) using no_page(2) by (simp add: fds_def map_update)
  moreover have "deads k' = (deads k)[i := deads k ! i]" unfolding no_page(4) using d no_page(2) by (simp add: deads_def map_update)
  ultimately show ?thesis using no_page(1) by (simp add: no_page(4) refcounts_def)
next
  case (new i st x)
  have d: "deads k ! i" using new(2,3) by (simp add: deads_def)
  have "fds k' = (fds k)[i := fds k ! i]" unfolding new(4) using new(2) by (simp add: fds_def map_update)
  moreover have "deads k' = (deads k)[i := False]" unfolding new(4) by (simp add: deads_def map_update)
  ultimately show ?thesis using new(1,2) d by (simp add: new(4) refcounts_def)
qed

text \<open>A slot is changed, but not its descriptors.\<close>

lemma upd_proc_fds:
  assumes "ofile (g (procs k ! i)) = ofile (procs k ! i)"
  shows "fds (upd_proc i g k) = fds k" "refcounts (upd_proc i g k) = refcounts k" "cur (upd_proc i g k) = cur k"
  using assms by (cases "i < length (procs k)"; simp add: fds_def refcounts_def map_update list_update_beyond list_update_same_conv)+

lemma deads_upd_proc:
  "deads (upd_proc i g k) = (deads k)[i := state (g (procs k ! i)) = UNUSED \<or> state (g (procs k ! i)) = ZOMBIE]"
  by (simp add: deads_def map_update)

lemma deads_nth: "i < length (procs k) \<Longrightarrow> deads k ! i \<longleftrightarrow> state (procs k ! i) = UNUSED \<or> state (procs k ! i) = ZOMBIE"
  by (simp add: deads_def)

lemma upd_proc_same_fds:
  assumes "ofile (g (procs k ! i)) = ofile (procs k ! i)" "state (g (procs k ! i)) = state (procs k ! i)"
  shows "same_fds k (upd_proc i g k)"
proof -
  have "deads (upd_proc i g k) = deads k"
    unfolding deads_upd_proc assms(2)
    by (cases "i < length (procs k)") (simp_all add: deads_nth [symmetric] list_update_beyond)
  then show ?thesis using upd_proc_fds [where g = g, OF assms(1)] by (simp add: same_fds_def)
qed

lemma reparent_fds: "same_fds k (reparent is k) \<and> files (reparent is k) = files k"
proof (induction "is" k rule: reparent.induct)
  case (2 i "is" k)
  let ?u = "upd_proc i (\<lambda>p. p\<lparr>parent := initproc k\<rparr>) k"
  let ?w = "case initproc ?u of Some j \<Rightarrow> if state (procs ?u ! i) = ZOMBIE then wakeup1 (ChProc j) ?u else ?u | None \<Rightarrow> ?u"
  have u: "same_fds k ?u" by (rule upd_proc_same_fds) simp_all
  have w: "same_fds ?u ?w" "files ?w = files k" using wakeup_fds [unfolded wakeup_def] by (auto split: option.splits)
  show ?case
    using 2 same_fds_trans [OF u same_fds_trans [OF w(1)]] w(2) by (auto simp: Let_def)
qed simp

lemma refs_okI:
  assumes "counted {#} (fds k) (refcounts k)" "\<And>i. i < length (procs k) \<Longrightarrow> deads k ! i \<Longrightarrow> fds k ! i = replicate NOFILE None"
  shows "refs_ok k"
  using assms by (simp add: refs_ok_def)

lemma refs_ok_same: "same_fds k k' \<Longrightarrow> refcounts k' = refcounts k \<Longrightarrow> refs_ok k \<Longrightarrow> refs_ok k'"
  unfolding refs_ok_def same_fds_def using length_fds(1) by metis

text \<open>A slot comes to life: what is right stays right, as it had no descriptors.\<close>

lemma fork_refs:
  assumes "at_work k" "fork k = Some (r, k')"
  shows "refs_ok k'"
  using assms(2)
proof (cases rule: fork_cases)
  case no_proc
  have "same_fds k k'" "refcounts k' = refcounts k" using allocproc_refs [OF no_proc] by (simp_all add: same_fds_def)
  then show ?thesis using at_workD(1) [OF assms(1)] by (rule refs_ok_same)
next
  case (no_mem np k1 x y)
  note w = at_workD [OF assms(1)] and a = allocproc_refs [OF no_mem(1), simplified]
  have l: "np < length (procs k1)" using a by simp
  have "fds k' = fds k1" "refcounts k' = refcounts k1"
    unfolding no_mem(2) using l by (simp_all add: fds_def refcounts_def map_update list_update_same_conv)
  then have v: "fds k' = fds k" "refcounts k' = refcounts k" using a by simp_all
  have "deads k' = (deads k1)[np := True]" unfolding no_mem(2) by (simp add: deads_def map_update)
  also have "\<dots> = deads k" using a by (simp add: list_update_same_conv)
  finally have "same_fds k k'" using v a by (simp add: same_fds_def no_mem(2))
  then show ?thesis using v(2) w(1) by (rule refs_ok_same)
next
  case (child np k1 d x k3 k4 ip)
  note w = at_workD [OF assms(1)] and a = allocproc_refs [OF child(1), simplified]
  have np: "np \<noteq> cur k" using a w(4) by metis
  have l: "np < length (procs k1)" using a by simp
  have row: "fds k ! np = replicate NOFILE None" using a w(1) by (simp add: refs_ok_def)
  have "fds k3 = fds k1" "refcounts k3 = refcounts k1" "cur k3 = cur k1" "length (procs k3) = length (procs k1)" "deads k3 = deads k1"
    using l by (simp_all add: child(3) Let_def fds_def refcounts_def deads_def map_update list_update_same_conv)
  then have v3: "fds k3 = fds k" "refcounts k3 = refcounts k" "cur k3 = cur k" "length (procs k3) = length (procs k)"
      "deads k3 = (deads k)[np := False]" using a by simp_all
  have "counted {#} (fds k3) (refcounts k3)" using w(2) v3 by simp
  note f = fork_files_counted [OF child(4) this]
  have f4: "counted {#} (fds k4) (refcounts k4) \<and> deads k4 = deads k3 \<and> cur k4 = cur k3 \<and> (\<forall>i. i \<noteq> np \<longrightarrow> fds k4 ! i = fds k3 ! i)"
    by (rule f) (use v3 a np w(3) row in \<open>simp_all add: atLeast0LessThan\<close>)
  have len4: "length (procs k4) = length (procs k)" using f4 v3(5) length_fds(2) by (metis length_list_update)
  let ?g = "\<lambda>p. p\<lparr>cwd := Some ip, pname := proc_name (pname (self k4)), state := RUNNABLE\<rparr>"
  have v: "fds k' = fds k4" "refcounts k' = refcounts k4"
    unfolding child(5) using upd_proc_fds [where g = ?g and k = "k4\<lparr>fs := idup ip (fs k4)\<rparr>" and i = np] by (simp_all add: fds_def refcounts_def)
  have d: "deads k' = (deads k)[np := False]"
    unfolding child(5) using f4 v3(5) by (simp add: deads_def map_update)
  show ?thesis
  proof (rule refs_okI)
    show "counted {#} (fds k') (refcounts k')" using f4 v by simp
    fix i
    assume "i < length (procs k')" "deads k' ! i"
    moreover then have "i \<noteq> np" using d a by auto
    ultimately show "fds k' ! i = replicate NOFILE None"
      using w(1) f4 v v3(1) d by (simp add: refs_ok_def child(5) len4)
  qed
qed

lemma exit_refs:
  assumes "at_work k" "exit k = Some k'"
  shows "refs_ok k'"
proof -
  note w = at_workD [OF assms(1)]
  from assms(2) obtain k1 k2 k3 k4 k5 k6 k7 ip where e: "exit_files [0..<NOFILE] k = Some k1" "kbegin_op k1 = Some k2"
      "kfs (iput (pid (self k2)) ip) k2 = Some k3" "kend_op k3 = Some k4"
    and k5: "k5 = upd_proc (cur k4) (\<lambda>p. p\<lparr>cwd := None\<rparr>) k4"
    and k6: "k6 = (case parent (self k5) of Some j \<Rightarrow> wakeup (ChProc j) k5 | None \<Rightarrow> k5)"
    and k7: "k7 = reparent [0..<NPROC] k6" and k': "k' = upd_proc (cur k7) (\<lambda>p. p\<lparr>state := ZOMBIE\<rparr>) k7"
    by (rule exit_steps)
  have f: "counted {#} (fds k1) (refcounts k1)" "deads k1 = deads k" "cur k1 = cur k" "length (procs k1) = length (procs k)"
      "\<And>i. i \<noteq> cur k \<Longrightarrow> fds k1 ! i = fds k ! i" "\<And>j. j < NOFILE \<Longrightarrow> fds k1 ! cur k ! j = None"
    using exit_files_counted [OF e(1) w(2,3)] by (simp_all add: atLeast0LessThan)
  have "same_fds k1 k4" using op_pids [OF e(2-4)] by (simp add: same_fdsI)
  moreover have "same_fds k4 k5" unfolding k5 by (rule upd_proc_same_fds) simp_all
  moreover have "same_fds k5 k6" using wakeup_fds by (simp add: k6 split: option.split)
  moreover have "same_fds k6 k7" using reparent_fds unfolding k7 by blast
  ultimately have s7: "same_fds k1 k7" using same_fds_trans by blast
  have "files k7 = files k1"
    using op_files [OF e(2-4)] reparent_fds wakeup_fds(2) by (simp add: k5 k6 k7 split: option.split)
  then have r7: "refcounts k7 = refcounts k1" by (simp add: refcounts_def)
  have v: "fds k' = fds k1" "refcounts k' = refcounts k1"
    unfolding k' using upd_proc_fds [where g = "\<lambda>p. p\<lparr>state := ZOMBIE\<rparr>" and k = k7 and i = "cur k7"] s7 r7 by (simp_all add: same_fds_def)
  have d: "deads k' = (deads k)[cur k := True]" unfolding k' deads_upd_proc using s7 f(2,3) by (simp add: same_fds_def)
  have l: "length (procs k') = length (procs k)" using v(1) f(4) length_fds(1) by metis
  have own: "fds k1 ! cur k = replicate NOFILE None"
    using f(3,4,6) counted_row [OF f(1), of "cur k"] w(3) by (intro nth_equalityI) simp_all
  show ?thesis
  proof (rule refs_okI)
    show "counted {#} (fds k') (refcounts k')" using f(1) v by simp
    fix i
    assume "i < length (procs k')" "deads k' ! i"
    then show "fds k' ! i = replicate NOFILE None"
      using v(1) d l own f(5) [of i] w(1) by (cases "i = cur k") (simp_all add: refs_ok_def)
  qed
qed

lemma alive_same_fds:
  assumes "at_work k" "st \<noteq> UNUSED" "st \<noteq> ZOMBIE" "\<And>p. state (g p) = st" "\<And>p. ofile (g p) = ofile p"
  shows "same_fds k (upd_proc (cur k) g k)"
proof -
  have "deads (upd_proc (cur k) g k) = (deads k)[cur k := deads k ! cur k]"
    unfolding deads_upd_proc assms(4) using assms(2,3) at_workD(4) [OF assms(1)] by simp
  then show ?thesis using upd_proc_fds [where g = g, OF assms(5)] by (simp add: same_fds_def)
qed

lemma refs_ok_upd:
  assumes "same_fds k (upd_proc i g k)" "refs_ok k"
  shows "refs_ok (upd_proc i g k)"
  using refs_ok_same [OF assms(1) _ assms(2)] by (simp add: refcounts_def)

lemma sleep_refs: "at_work k \<Longrightarrow> refs_ok (sleep ch k)"
  unfolding sleep_def by (rule refs_ok_upd [OF alive_same_fds [where st = SLEEPING]]) (simp_all add: at_workD)

lemma yield_refs: "at_work k \<Longrightarrow> refs_ok (yield k)"
  unfolding yield_def by (rule refs_ok_upd [OF alive_same_fds [where st = RUNNABLE]]) (simp_all add: at_workD)

lemma wakeup_refs: "refs_ok k \<Longrightarrow> refs_ok (wakeup ch k)"
  by (rule refs_ok_same [OF wakeup_fds(1)]) (simp_all add: refcounts_def wakeup_fds(2))

lemma wait_refs:
  assumes "at_work k" "wait k = Some (b, k')"
  shows "refs_ok k'"
proof (cases "first_idx (\<lambda>p. parent p = Some (cur k) \<and> state p = ZOMBIE) (procs k)")
  case None
  then have "k' = k \<or> k' = sleep (ChProc (cur k)) k" using assms(2) by (auto simp: wait_def split: if_split_asm)
  then show ?thesis using sleep_refs [OF assms(1)] at_workD(1) [OF assms(1)] by auto
next
  case (Some i)
  then have i: "i < length (procs k)" "state (procs k ! i) = ZOMBIE" by (auto dest: first_idx_SomeD)
  from assms(2) Some obtain x where
    k': "k' = upd_proc i (\<lambda>p. p\<lparr>kstack := 0, pid := 0, parent := None, pname := [], killed := False, state := UNUSED\<rparr>) (k\<lparr>km := x\<rparr>)"
    by (auto simp: wait_def bind_eq_Some_conv)
  have "deads k' = (deads k)[i := deads k ! i]" unfolding k' using i by (simp add: deads_def map_update)
  moreover have "fds k' = (fds k)[i := fds k ! i]" unfolding k' using i by (simp add: fds_def map_update)
  ultimately have "same_fds k k'" by (simp add: same_fds_def k')
  moreover have "refcounts k' = refcounts k" by (simp add: k' refcounts_def)
  ultimately show ?thesis using at_workD(1) [OF assms(1)] by (rule refs_ok_same)
qed

lemma with_ptr_cases:
  assumes "with_ptr n len k g = Some (r, k')"
  obtains (refused) "k' = k" | (called) a where "g a = Some (r, k')"
proof (cases "argptr n len k")
  case None
  then show thesis using assms by (simp add: with_ptr_def)
next
  case (Some a)
  then show thesis using assms refused called by (cases a) (simp_all add: with_ptr_def refused_def)
qed

text \<open>The end of \<^verbatim>\<open>sys_pipe\<close>, when the two files are there.\<close>

lemma pipe_fds_counted:
  assumes "counted {#f0, f1#} (fds k) (refcounts k)" "cur k < length (procs k)"
    "(case fdalloc f0 k of
       None \<Rightarrow> do { k \<leftarrow> fileclose f0 k; k \<leftarrow> fileclose f1 k; refused k }
     | Some (fd0, k) \<Rightarrow>
         (case fdalloc f1 k of
           None \<Rightarrow> do { k \<leftarrow> fileclose f0 (set_fd (cur k) fd0 None k); k \<leftarrow> fileclose f1 k; refused k }
         | Some (fd1, k) \<Rightarrow> do { k \<leftarrow> to_user a (le32 (word_of_nat fd0) @ le32 (word_of_nat fd1)) k; Some (Ret 0, k) })) = Some (r, k')"
  shows "counted {#} (fds k') (refcounts k') \<and> frame_fds k k'"
proof (cases "fdalloc f0 k")
  case None
  then obtain k1 where k1: "fileclose f0 k = Some k1" "fileclose f1 k1 = Some k'"
    using assms(3) by (auto simp: bind_eq_Some_conv refused_def)
  note d = fileclose_counted [OF k1(1) assms(1)]
  note e = fileclose_counted [OF k1(2) d(1)]
  show ?thesis using e(1) same_frame [OF same_fds_trans [OF d(2) e(2)]] by blast
next
  case (Some b)
  then obtain fd0 k1 where b: "fdalloc f0 k = Some (fd0, k1)" by (cases b) simp
  note d = fdalloc_counted [OF b assms(1,2)]
  have c1: "cur k1 = cur k" "cur k1 < length (procs k1)" using d(2) assms(2) by (simp_all add: frame_fds_def)
  show ?thesis
  proof (cases "fdalloc f1 k1")
    case None
    then obtain k2 where k2: "fileclose f0 (set_fd (cur k1) fd0 None k1) = Some k2" "fileclose f1 k2 = Some k'"
      using assms(3) b by (auto simp: bind_eq_Some_conv refused_def)
    let ?k = "set_fd (cur k1) fd0 None k1"
    note v = set_fd_view [where i = "cur k1" and k = k1 and fd = fd0 and v = None]
    have "counted {#f0, f1#} (fds ?k) (refcounts ?k)"
      unfolding v(4) v(1) [OF c1(2)] by (rule counted_take [OF d(1) _ d(4)]) (use d(3) c1 in simp_all)
    note e = fileclose_counted [OF k2(1) this]
    note g = fileclose_counted [OF k2(2) e(1)]
    show ?thesis
      using g(1) frame_trans [OF d(2) frame_trans [OF set_fd_frame [OF c1(2)] same_frame [OF same_fds_trans [OF e(2) g(2)]]]] by blast
  next
    case (Some e)
    then obtain fd1 k2 where e: "fdalloc f1 k1 = Some (fd1, k2)" by (cases e) simp
    note g = fdalloc_counted(1,2) [OF e d(1) c1(2)]
    obtain m where k': "k' = k2\<lparr>km := m\<rparr>" using assms(3) b e by (auto simp: to_user_def bind_eq_Some_conv)
    have "same_fds k2 k'" "refcounts k' = refcounts k2" unfolding k' by (simp_all add: same_fds_def fds_def deads_def refcounts_def)
    then show ?thesis using g(1) frame_trans [OF d(2) frame_trans [OF g(2) same_frame]] by (simp add: same_fds_def)
  qed
qed

lemma sys_pipe_refs:
  assumes "at_work k" "sys_pipe k = Some (r, k')"
  shows "refs_ok k'"
proof -
  note w = at_workD [OF assms(1)]
  from assms(2) show ?thesis unfolding sys_pipe_def
  proof (cases rule: with_ptr_cases)
    case refused
    then show ?thesis using w(1) by simp
  next
    case (called a)
    then obtain q k1 where q: "pipealloc k = Some (q, k1)" by (auto simp: bind_eq_Some_conv)
    note p = pipealloc_counted [OF q w(2)]
    show ?thesis
    proof (cases q)
      case None
      then have "k' = k1" using called q by (simp add: refused_def)
      then show ?thesis using at_work_frame [OF assms(1) same_frame [OF p(1)]] p(2) None by simp
    next
      case (Some z)
      then obtain f0 f1 where z: "q = Some (f0, f1)" by (cases z) simp
      have c: "counted {#f0, f1#} (fds k1) (refcounts k1)" "cur k1 < length (procs k1)"
        using p(2) z same_frame [OF p(1)] w(3) by (simp_all add: frame_fds_def)
      have "counted {#} (fds k') (refcounts k') \<and> frame_fds k1 k'"
        by (rule pipe_fds_counted [OF c, of a r]) (use called q z in simp)
      then show ?thesis using at_work_frame [OF assms(1) frame_trans [OF same_frame [OF p(1)]]] by blast
    qed
  qed
qed

section \<open>Every run\<close>

text \<open>
  The steps that change descriptors or reference counts: the system calls of the running process, of \<^verbatim>\<open>sys_open\<close> the part that takes a
  file and a descriptor, and the steps that move processes on and off the processor.
\<close>

definition running :: "kern \<Rightarrow> bool" where
  "running k \<longleftrightarrow> cur k < length (procs k) \<and> state (self k) = RUNNING"

inductive fstep :: "kern \<Rightarrow> kern \<Rightarrow> bool" where
  f_dup: "running k \<Longrightarrow> sys_dup k = Some (r, k') \<Longrightarrow> fstep k k'"
| f_close: "running k \<Longrightarrow> sys_close k = Some (r, k') \<Longrightarrow> fstep k k'"
| f_open: "running k \<Longrightarrow> open_file k = Some (q, k') \<Longrightarrow> fstep k k'"
| f_pipe: "running k \<Longrightarrow> sys_pipe k = Some (r, k') \<Longrightarrow> fstep k k'"
| f_fork: "running k \<Longrightarrow> fork k = Some (n, k') \<Longrightarrow> fstep k k'"
| f_exit: "running k \<Longrightarrow> exit k = Some k' \<Longrightarrow> fstep k k'"
| f_wait: "running k \<Longrightarrow> wait k = Some (r, k') \<Longrightarrow> fstep k k'"
| f_sleep: "running k \<Longrightarrow> fstep k (sleep ch k)"
| f_yield: "running k \<Longrightarrow> fstep k (yield k)"
| f_wakeup: "fstep k (wakeup ch k)"
| f_switch: "i < length (procs k) \<Longrightarrow> state (procs k ! i) = RUNNABLE \<Longrightarrow>
    fstep k (upd_proc i (\<lambda>p. p\<lparr>state := RUNNING\<rparr>) (k\<lparr>cur := i\<rparr>))"

lemma running_at_work: "running k \<Longrightarrow> refs_ok k \<Longrightarrow> at_work k"
  by (auto simp: running_def at_work_def deads_def)

lemma switch_refs:
  assumes "i < length (procs k)" "state (procs k ! i) = RUNNABLE" "refs_ok k"
  shows "refs_ok (upd_proc i (\<lambda>p. p\<lparr>state := RUNNING\<rparr>) (k\<lparr>cur := i\<rparr>))"
proof -
  let ?k = "k\<lparr>cur := i\<rparr>"
  have "refs_ok ?k" using assms(3) by (simp add: refs_ok_def fds_def deads_def refcounts_def)
  then have w: "at_work ?k" using assms(1,2) by (simp add: at_work_def deads_def)
  have "same_fds ?k (upd_proc (cur ?k) (\<lambda>p. p\<lparr>state := RUNNING\<rparr>) ?k)"
    by (rule alive_same_fds [OF w, where st = RUNNING]) simp_all
  then have "refs_ok (upd_proc (cur ?k) (\<lambda>p. p\<lparr>state := RUNNING\<rparr>) ?k)" using at_workD(1) [OF w] by (rule refs_ok_upd)
  then show ?thesis by simp
qed

lemmas fstep_refs = sys_dup_refs sys_close_refs open_file_refs sys_pipe_refs fork_refs exit_refs wait_refs sleep_refs yield_refs

lemma fstep_refs_ok: "fstep k k' \<Longrightarrow> refs_ok k \<Longrightarrow> refs_ok k'"
  by (induction rule: fstep.induct) (blast intro: fstep_refs running_at_work wakeup_refs switch_refs)+

interpretation ref_inv: step_invariant refs_ok fstep refs_ok
  by unfold_locales (auto intro: fstep_refs_ok)

lemma boot_refs_ok: "refs_ok (boot_kern x)"
proof -
  have "count_list (replicate n None) (Some f) = 0" for n and f :: nat by (simp add: count_list_0_iff)
  then have "uses (replicate n (replicate m None)) f = 0" for n m f by (simp add: uses_def sum_list_replicate)
  then show ?thesis by (simp add: refs_ok_def counted_def fds_def refcounts_def deads_def zero_file_def map_replicate)
qed

lemma uses_concat: "uses t f = count_list (concat t) (Some f)"
  by (induction t) (simp_all add: uses_def)

text \<open>C2. The reference count of every open file is the number of descriptors, of all processes, that lead to it, in every state that processes
  can reach from a right one (such as the one at boot) with \<^verbatim>\<open>dup\<close>, \<^verbatim>\<open>close\<close>, \<^verbatim>\<open>open\<close>, \<^verbatim>\<open>pipe\<close>, \<^verbatim>\<open>fork\<close>, \<^verbatim>\<open>exit\<close> and \<^verbatim>\<open>wait\<close>, their
  error paths included. So no descriptor leads to a file that has been given back.
\<close>

theorem file_refs_counted:
  assumes "reach refs_ok fstep k" "f < length (files k)"
  shows "f_ref (files k ! f) = int (count_list (concat (map ofile (procs k))) (Some f)) \<and>
    (\<forall>i<length (procs k). \<forall>fd<NOFILE. \<forall>g. ofile (procs k ! i) ! fd = Some g \<longrightarrow> g < length (files k) \<and> 1 \<le> f_ref (files k ! g))"
proof -
  have c: "counted {#} (fds k) (refcounts k)" using ref_inv.reach_inv [OF assms(1)] by (simp add: refs_ok_def)
  have n: "f_ref (files k ! g) = int (count_list (concat (map ofile (procs k))) (Some g))" if "g < length (files k)" for g
    using c that by (simp add: counted_def refcounts_def uses_concat) (simp add: fds_def)
  have "g < length (files k) \<and> 1 \<le> f_ref (files k ! g)"
    if "i < length (procs k)" "fd < NOFILE" "ofile (procs k ! i) ! fd = Some g" for i fd g
  proof -
    have r: "fds k ! i ! fd = Some g" using that by (simp add: fds_def)
    have "counted {#g#} ((fds k)[i := (fds k ! i)[fd := None]]) (refcounts k)"
      by (rule counted_take [OF c _ that(2) r]) (simp add: that(1))
    from counted_drop(2,3) [OF this] show ?thesis by (simp add: refcounts_def)
  qed
  with n assms(2) show ?thesis by blast
qed

text \<open>The process of one page with a file open as descriptor 0, which it duplicates.\<close>

definition dup_kern :: kern where
  "dup_kern = user_kern\<lparr>files := (replicate NFILE zero_file)[3 := zero_file\<lparr>f_ref := 1\<rparr>],
     procs := [(self user_kern)\<lparr>ofile := (replicate NOFILE None)[0 := Some 3]\<rparr>]\<rparr>"

lemma dup_kern_ok: "refs_ok dup_kern"
proof (rule refs_okI)
  let ?t = "[replicate NOFILE None] :: nat option list list" and ?c = "replicate NFILE 0 :: int list"
  have "count_list (replicate n None) (Some f) = 0" for n and f :: nat by (simp add: count_list_0_iff)
  then have "counted {#} ?t ?c" by (simp add: counted_def uses_def)
  then have "counted {#3#} ?t (?c[3 := ?c ! 3 + 1])" by (rule counted_new) (simp add: NFILE_def)
  then have "counted {#} (?t[0 := (?t ! 0)[0 := Some 3]]) (?c[3 := ?c ! 3 + 1])" by (rule counted_put) (simp_all add: NOFILE_def)
  moreover have "refcounts dup_kern = ?c[3 := 1]" by (simp add: dup_kern_def refcounts_def map_update map_replicate zero_file_def)
  moreover have "fds dup_kern = [(replicate NOFILE None)[0 := Some 3]]" by (simp add: dup_kern_def fds_def)
  ultimately show "counted {#} (fds dup_kern) (refcounts dup_kern)" by (simp add: NFILE_def)
qed (simp add: dup_kern_def deads_def)

theorem file_refs_counted_witness:
  "\<exists>k'. sys_dup dup_kern = Some (Ret 1, k') \<and> f_ref (files k' ! 3) = int (count_list (concat (map ofile (procs k'))) (Some 3)) \<and>
    f_ref (files k' ! 3) = 2"
proof -
  have row: "(replicate NOFILE None)[0 := Some 3] = Some (3 :: nat) # None # replicate 14 None"
    unfolding NOFILE_def by (simp add: numeral_eq_Suc)
  have o: "ofile (self dup_kern) = Some 3 # None # replicate 14 None" "length (files dup_kern) = 100" "f_ref (files dup_kern ! 3) = 1"
    using row by (simp_all add: dup_kern_def NFILE_def user_kern_def)
  have "argint 0 dup_kern = argint 0 user_kern"
    by (simp add: argint_def fetchint_def from_user_def dup_kern_def user_kern_def)
  then have a: "argfd 0 dup_kern = Some (Some (0, 3))" using user_argint o(1) by (simp add: argfd_def NOFILE_def)
  have f: "fdalloc 3 dup_kern = Some (1, set_fd (cur dup_kern) 1 (Some 3) dup_kern)"
    unfolding fdalloc_def o(1) by simp
  let ?k = "upd_file 3 (\<lambda>f. f\<lparr>f_ref := f_ref f + 1\<rparr>) (set_fd (cur dup_kern) 1 (Some 3) dup_kern)"
  have d: "sys_dup dup_kern = Some (Ret 1, ?k)" using a f o(3) by (simp add: sys_dup_def with_fd_def filedup_def)
  have "reach refs_ok fstep dup_kern" using dup_kern_ok by (rule reach_init)
  moreover have "running dup_kern" by (simp add: running_def dup_kern_def user_kern_def)
  then have "fstep dup_kern ?k" using d by (rule f_dup)
  ultimately have r: "reach refs_ok fstep ?k" by (rule reach_step)
  have "3 < length (files ?k)" using o(2) by simp
  from file_refs_counted [OF r this] d o(2,3) show ?thesis by simp
qed

end
