(* ===== verification/Xv6_Ulib.thy ===== *)
theory Xv6_Ulib
  imports Xv6_Sysfile
begin

text \<open>
  The library of the user programs, \<^verbatim>\<open>hw3/xv6/ulib.c\<close> and \<^verbatim>\<open>printf.c\<close>. A string is the bytes before its
  terminating NUL. Output is the list of bytes that are written one by one.
\<close>

section \<open>Strings\<close>

primrec strcmp :: "bytes \<Rightarrow> bytes \<Rightarrow> int" where
  "strcmp [] q = - uint (char_at q)"
| "strcmp (b # p) q = (if b \<noteq> 0 \<and> b = char_at q then strcmp p (tl q) else uint b - uint (char_at q))"

text \<open>\<^verbatim>\<open>strchr\<close>: the place of the byte in front of the first NUL.\<close>

primrec strchr :: "bytes \<Rightarrow> byte \<Rightarrow> nat option" where
  "strchr [] c = None"
| "strchr (b # s) c = (if b = 0 then None else if b = c then Some 0 else map_option Suc (strchr s c))"

lemma strchr_less: "strchr s c = Some i \<Longrightarrow> i < length s"
  by (induction s arbitrary: i) (auto split: if_split_asm)

text \<open>The copy goes from the first byte to the last, whichever way the regions overlap.\<close>

primrec umemmove :: "nat \<Rightarrow> nat \<Rightarrow> nat \<Rightarrow> memory \<Rightarrow> memory" where
  "umemmove dst src 0 m = m"
| "umemmove dst src (Suc n) m = umemmove (dst + 1) (src + 1) n (m(dst := m src))"

lemma umemmove_eq:
  assumes "dst \<le> src \<or> src + n \<le> dst"
  shows "umemmove dst src n m = (\<lambda>a. if dst \<le> a \<and> a < dst + n then m (src + (a - dst)) else m a)"
  using assms
proof (induction n arbitrary: dst src m)
  case (Suc n)
  have "umemmove dst src (Suc n) m = (\<lambda>a. if dst + 1 \<le> a \<and> a < dst + 1 + n then (m(dst := m src)) (src + 1 + (a - (dst + 1))) else (m(dst := m src)) a)"
    unfolding umemmove.simps by (rule Suc.IH) (use Suc.prems in auto)
  also have "\<dots> = (\<lambda>a. if dst \<le> a \<and> a < dst + Suc n then m (src + (a - dst)) else m a)"
  proof
    fix a
    show "(if dst + 1 \<le> a \<and> a < dst + 1 + n then (m(dst := m src)) (src + 1 + (a - (dst + 1))) else (m(dst := m src)) a) =
        (if dst \<le> a \<and> a < dst + Suc n then m (src + (a - dst)) else m a)"
      using Suc.prems by (cases "a = dst") (auto intro!: arg_cong [where f = m])
  qed
  finally show ?case .
qed (auto simp: fun_eq_iff)

text \<open>The line that \<^verbatim>\<open>gets\<close> stores and the input that is left; the input ends where a call of \<^verbatim>\<open>read\<close> brings nothing. \<open>n\<close> is \<^verbatim>\<open>max - 1\<close>.\<close>

primrec gets_loop :: "nat \<Rightarrow> bytes \<Rightarrow> bytes \<times> bytes" where
  "gets_loop 0 inp = ([], inp)"
| "gets_loop (Suc n) inp =
     (case inp of
       [] \<Rightarrow> ([], [])
     | c # rest \<Rightarrow> if c = 10 \<or> c = 13 then ([c], rest) else (let (l, r) = gets_loop n rest in (c # l, r)))"

definition gets :: "int \<Rightarrow> bytes \<Rightarrow> bytes \<times> bytes" where
  "gets mx inp = gets_loop (nat (mx - 1)) inp"

text \<open>A number beyond the range of \<^verbatim>\<open>int\<close> wraps around, as the instructions for 32-bit integers do.\<close>

primrec atoi_loop :: "int \<Rightarrow> bytes \<Rightarrow> int" where
  "atoi_loop n [] = n"
| "atoi_loop n (b # s) = (if 48 \<le> b \<and> b \<le> 57 then atoi_loop (int32 (n * 10 + uint b - 48)) s else n)"

definition atoi :: "bytes \<Rightarrow> int" where
  "atoi s = atoi_loop 0 s"

section \<open>Printing\<close>

definition udigit :: "nat \<Rightarrow> byte" where
  "udigit d = str ''0123456789ABCDEF'' ! d"

text \<open>The digits of a number, the last one first. The bases in use are 10 and 16.\<close>

function udigits :: "nat \<Rightarrow> nat \<Rightarrow> bytes" where
  "udigits base x = udigit (x mod base) # (if 2 \<le> base \<and> x div base \<noteq> 0 then udigits base (x div base) else [])"
  by pat_completeness auto
termination
  by (relation "measure snd") (auto simp: div_eq_0_iff)

declare udigits.simps [simp del]

definition uprintint :: "u32 \<Rightarrow> nat \<Rightarrow> bool \<Rightarrow> bytes" where
  "uprintint xx base sg =
     (let neg = (sg \<and> sint xx < 0);
          x = (if neg then unat (- xx) else unat xx)
      in rev (udigits base x @ (if neg then [45] else [])))"

text \<open>The bytes that a call writes. \<open>None\<close> is a call whose arguments are not the ones its format asks for.\<close>

fun printf_chars :: "bytes \<Rightarrow> carg list \<Rightarrow> bytes option" where
  "printf_chars [] args = Some []"
| "printf_chars (c # fmt) args =
     (if c = 0 then Some []
      else if c \<noteq> 0x25 then map_option ((#) c) (printf_chars fmt args)
      else
        (case fmt of
          [] \<Rightarrow> Some []
        | d # fmt \<Rightarrow>
            if d = 0 then Some []
            else if d = 0x64 then
              (case args of CInt x # args \<Rightarrow> map_option (append (uprintint x 10 True)) (printf_chars fmt args) | _ \<Rightarrow> None)
            else if d = 0x78 \<or> d = 0x70 then
              (case args of CInt x # args \<Rightarrow> map_option (append (uprintint x 16 False)) (printf_chars fmt args) | _ \<Rightarrow> None)
            else if d = 0x73 then
              (case args of
                CStr None # args \<Rightarrow> map_option (append (str ''(null)'')) (printf_chars fmt args)
              | CStr (Some s) # args \<Rightarrow> map_option (append (takeWhile (\<lambda>b. b \<noteq> 0) s)) (printf_chars fmt args)
              | _ \<Rightarrow> None)
            else if d = 0x63 then
              (case args of CInt x # args \<Rightarrow> map_option ((#) (ucast x)) (printf_chars fmt args) | _ \<Rightarrow> None)
            else if d = 0x25 then map_option ((#) 0x25) (printf_chars fmt args)
            else map_option (append [0x25, d]) (printf_chars fmt args)))"

section \<open>Printing and reading a number\<close>

lemma udigit_value:
  "d < 10 \<Longrightarrow> udigit d = word_of_nat (48 + d)"
  by (auto simp: udigit_def str_def less_Suc_eq numeral_eq_Suc)

lemma atoi_loop_append:
  assumes "\<forall>b \<in> set s. 48 \<le> b \<and> b \<le> 57"
  shows "atoi_loop n (s @ t) = atoi_loop (atoi_loop n s) t"
  using assms by (induction s arbitrary: n) auto

lemma udigit_decimal:
  assumes "d < 10"
  shows "48 \<le> udigit d" "udigit d \<le> 57" "uint (udigit d) = 48 + int d"
proof -
  have "uint (udigit d) = 48 + int d"
    using assms by (simp add: udigit_value [OF assms] unsigned_of_nat take_bit_nat_eq_self del: of_nat_add)
  then show "48 \<le> udigit d" "udigit d \<le> 57" "uint (udigit d) = 48 + int d"
    using assms by (auto simp: word_le_def)
qed

lemma udigits_decimal:
  "\<forall>b \<in> set (udigits 10 x). 48 \<le> b \<and> b \<le> 57"
proof (induction x rule: less_induct)
  case (less x)
  show ?case
    using less.IH [of "x div 10"] udigit_decimal [of "x mod 10"] by (subst udigits.simps) auto
qed

lemma atoi_udigits:
  "atoi_loop 0 (rev (udigits 10 x)) = int32 (int x)"
proof (induction x rule: less_induct)
  case (less x)
  let ?r = "if x div 10 \<noteq> 0 then udigits 10 (x div 10) else []"
  have "atoi_loop 0 (rev ?r) = int32 (int (x div 10))"
    using less.IH [of "x div 10"] by (auto simp: int32_small)
  moreover have "\<forall>b \<in> set (rev ?r). 48 \<le> b \<and> b \<le> 57"
    using udigits_decimal by auto
  ultimately have "atoi_loop 0 (rev ?r @ [udigit (x mod 10)]) = int32 (int32 (int (x div 10)) * 10 + int (x mod 10))"
    using udigit_decimal [of "x mod 10"] by (simp add: atoi_loop_append del: rev_is_rev_conv)
  also have "\<dots> = int32 (int (x div 10) * 10 + int (x mod 10))"
    by (rule int32_cong) (simp add: int32_def)
  finally show ?case
    by (subst udigits.simps) (simp add: zdiv_int zmod_int)
qed

lemma sint_cases:
  fixes x :: u32
  shows "0 \<le> sint x \<Longrightarrow> int (unat x) = sint x" "sint x < 0 \<Longrightarrow> int (unat (- x)) = - sint x"
proof -
  have u: "uint x < 2 ^ 32"
    using uint_bounded [of x] by simp
  then have "take_bit 32 (uint x) = uint x"
    by (intro take_bit_int_eq_self) auto
  then have s: "sint x = uint x - 2 ^ 32 * of_bool (bit x 31)"
    by (simp add: sint_uint signed_take_bit_eq_take_bit_minus bit_uint_iff bit_unsigned_iff)
  show "0 \<le> sint x \<Longrightarrow> int (unat x) = sint x"
    using s u by (cases "bit x 31") auto
  assume neg: "sint x < 0"
  then have b: "bit x 31"
    using s by (cases "bit x 31") auto
  then have "x \<noteq> 0"
    by auto
  then have "0 < uint x"
    using uint_nonnegative [of x] by (simp add: order_less_le uint_0_iff)
  have "uint (- x) = (- uint x) mod 2 ^ 32"
    by (simp add: uint_word_ariths)
  also have "\<dots> = 2 ^ 32 - uint x"
    using \<open>0 < uint x\<close> u by (subst zmod_zminus1_eq_if) auto
  finally show "int (unat (- x)) = - sint x"
    using s b by simp
qed

lemma int32_abs_sint:
  fixes x :: u32
  shows "int32 \<bar>sint x\<bar> = (if sint x = - (2 ^ 31) then - (2 ^ 31) else \<bar>sint x\<bar>)"
proof (cases "sint x = - (2 ^ 31)")
  case True
  then show ?thesis by (simp add: int32_def)
next
  case False
  moreover have "- (2 ^ 31) \<le> sint x" "sint x < 2 ^ 31"
    using sint_ge [of x] sint_lt [of x] by simp_all
  ultimately show ?thesis by (simp add: int32_small)
qed

text \<open>C37. The \<^verbatim>\<open>%d\<close> of \<^verbatim>\<open>printf\<close> and \<^verbatim>\<open>atoi\<close> are inverse: the digits printed for an \<^verbatim>\<open>int\<close> read back as
  its absolute value; for a negative one they follow a minus sign, which \<^verbatim>\<open>atoi\<close> does not know. The one number whose
  absolute value is not an \<^verbatim>\<open>int\<close>, the smallest, reads back as itself since \<^verbatim>\<open>atoi\<close> wraps around.
\<close>

theorem atoi_reads_printf:
  "printf_chars (str ''%d'') [CInt x] =
     Some (if sint x < 0 then 45 # rev (udigits 10 (unat (- x))) else rev (udigits 10 (unat x))) \<and>
   atoi (if sint x < 0 then rev (udigits 10 (unat (- x))) else rev (udigits 10 (unat x))) =
     (if sint x = - (2 ^ 31) then - (2 ^ 31) else \<bar>sint x\<bar>)"
  using sint_cases [of x] int32_abs_sint [of x] by (auto simp: str_def uprintint_def atoi_def atoi_udigits split: if_splits)

section \<open>A line of input\<close>

lemma gets_loop_line:
  "gets_loop n inp = (l, r) \<Longrightarrow>
     inp = l @ r \<and> length l \<le> n \<and> 10 \<notin> set (butlast l) \<and> 13 \<notin> set (butlast l) \<and>
     (length l = n \<or> r = [] \<or> l \<noteq> [] \<and> (last l = 10 \<or> last l = 13))"
proof (induction n arbitrary: inp l r)
  case (Suc n)
  show ?case
  proof (cases inp)
    case Nil
    then show ?thesis
      using Suc.prems by simp
  next
    case (Cons c rest)
    obtain l1 r1 where "gets_loop n rest = (l1, r1)"
      by (cases "gets_loop n rest")
    then show ?thesis
      using Suc.IH [of rest l1 r1] Suc.prems Cons by (auto split: if_splits)
  qed
qed simp

end
