(* ===== verification/Xv6_Grep.thy ===== *)
theory Xv6_Grep
  imports Xv6_Ulib
begin

text \<open>
  The program \<^verbatim>\<open>hw3/xv6/grep.c\<close>: the matcher for patterns with the operators \<^verbatim>\<open>^ . * $\<close>, and the loop that takes the input
  apart into lines. A string is the bytes before its terminating NUL. The results of the calls of \<^verbatim>\<open>read\<close> are the list of
  chunks that the loop gets; the output is the bytes it writes.
\<close>

section \<open>The matcher\<close>

text \<open>The bytes \<^verbatim>\<open>* . $ ^\<close> are 42, 46, 36 and 94.\<close>

function matchhere :: "bytes \<Rightarrow> bytes \<Rightarrow> bool" and matchstar :: "byte \<Rightarrow> bytes \<Rightarrow> bytes \<Rightarrow> bool" where
  "matchhere re txt =
     (case re of
       [] \<Rightarrow> True
     | c # r \<Rightarrow>
         if char_at r = 42 then matchstar c (tl r) txt
         else if c = 36 \<and> r = [] then txt = []
         else case txt of [] \<Rightarrow> False | t # ts \<Rightarrow> if c = 46 \<or> c = t then matchhere r ts else False)"
| "matchstar c re txt =
     (if matchhere re txt then True
      else case txt of [] \<Rightarrow> False | t # ts \<Rightarrow> if t = c \<or> c = 46 then matchstar c re ts else False)"
  by pat_completeness auto
termination
  by (relation "measure (case_sum (\<lambda>(re, txt). 2 * (length re + length txt)) (\<lambda>(c, re, txt). 2 * (length re + length txt) + 1))") auto

declare matchhere.simps [simp del] matchstar.simps [simp del]

primrec match_loop :: "bytes \<Rightarrow> bytes \<Rightarrow> bool" where
  "match_loop re [] = matchhere re []"
| "match_loop re (t # ts) = (if matchhere re (t # ts) then True else match_loop re ts)"

definition match :: "bytes \<Rightarrow> bytes \<Rightarrow> bool" where
  "match re txt = (if char_at re = 94 then matchhere (tl re) txt else match_loop re txt)"

section \<open>What a pattern means\<close>

text \<open>A pattern is a list of items, each for one byte or any number of bytes, and perhaps the end of the text behind them.\<close>

datatype item = One byte | Star byte

definition stands_for :: "byte \<Rightarrow> byte \<Rightarrow> bool" where
  "stands_for c t \<longleftrightarrow> c = 46 \<or> c = t"

fun items :: "bytes \<Rightarrow> item list" where
  "items [] = []"
| "items [c] = (if c = 36 then [] else [One c])"
| "items (c # d # r) = (if d = 42 then Star c # items r else One c # items (d # r))"

fun anchored :: "bytes \<Rightarrow> bool" where
  "anchored [] = False"
| "anchored [c] = (c = 36)"
| "anchored (c # d # r) = (if d = 42 then anchored r else anchored (d # r))"

fun denotes :: "item list \<Rightarrow> bytes set" where
  "denotes [] = {[]}"
| "denotes (One c # is) = {t # w | t w. stands_for c t \<and> w \<in> denotes is}"
| "denotes (Star c # is) = {u @ w | u w. (\<forall>t\<in>set u. stands_for c t) \<and> w \<in> denotes is}"

text \<open>The text starts with a word of the pattern, and ends with it when the pattern says so.\<close>

definition begins :: "bytes \<Rightarrow> bytes \<Rightarrow> bool" where
  "begins re txt \<longleftrightarrow> (\<exists>w\<in>denotes (items re). \<exists>rest. txt = w @ rest \<and> (anchored re \<longrightarrow> rest = []))"

lemma begins_Nil [simp]: "begins [] txt"
  by (simp add: begins_def)

lemma begins_end [simp]: "begins [36] txt \<longleftrightarrow> txt = []"
  by (simp add: begins_def)

lemma begins_star: "begins (c # 42 # r) txt \<longleftrightarrow> (\<exists>u rest. txt = u @ rest \<and> (\<forall>t\<in>set u. stands_for c t) \<and> begins r rest)"
proof
  assume "begins (c # 42 # r) txt"
  then obtain v rest where v: "v \<in> denotes (items (c # 42 # r))" "txt = v @ rest" "anchored r \<longrightarrow> rest = []"
    by (auto simp: begins_def)
  then obtain u w where "v = u @ w" "\<forall>t\<in>set u. stands_for c t" "w \<in> denotes (items r)" by auto
  with v have "txt = u @ w @ rest" "\<forall>t\<in>set u. stands_for c t" "w \<in> denotes (items r)" "anchored r \<longrightarrow> rest = []" by simp_all
  then show "\<exists>u rest. txt = u @ rest \<and> (\<forall>t\<in>set u. stands_for c t) \<and> begins r rest" unfolding begins_def by blast
next
  assume "\<exists>u rest. txt = u @ rest \<and> (\<forall>t\<in>set u. stands_for c t) \<and> begins r rest"
  then obtain u v where "txt = u @ v" "\<forall>t\<in>set u. stands_for c t" "begins r v" by blast
  moreover then obtain w rest where "v = w @ rest" "w \<in> denotes (items r)" "anchored r \<longrightarrow> rest = []" unfolding begins_def by blast
  ultimately have u: "txt = (u @ w) @ rest" "\<forall>t\<in>set u. stands_for c t" "w \<in> denotes (items r)" "anchored r \<longrightarrow> rest = []" by simp_all
  then have "u @ w \<in> denotes (items (c # 42 # r))" by auto
  with u show "begins (c # 42 # r) txt" unfolding begins_def by (intro bexI exI) simp_all
qed

lemma begins_star_step:
  "begins (c # 42 # r) txt \<longleftrightarrow> begins r txt \<or> (\<exists>t ts. txt = t # ts \<and> stands_for c t \<and> begins (c # 42 # r) ts)"
  (is "?l \<longleftrightarrow> ?r")
proof
  assume ?l
  then obtain u rest where u: "txt = u @ rest" "\<forall>t\<in>set u. stands_for c t" "begins r rest" by (auto simp: begins_star)
  then show ?r by (cases u) (auto simp: begins_star)
next
  assume ?r
  then show ?l
  proof
    assume "begins r txt"
    then show ?l unfolding begins_star by (intro exI [of _ "[]"] exI [of _ "txt"]) simp
  next
    assume "\<exists>t ts. txt = t # ts \<and> stands_for c t \<and> begins (c # 42 # r) ts"
    then obtain t u rest where "txt = t # u @ rest" "stands_for c t" "\<forall>t\<in>set u. stands_for c t" "begins r rest" by (auto simp: begins_star)
    then show ?l unfolding begins_star by (intro exI [of _ "t # u"] exI [of _ rest]) simp
  qed
qed

lemma begins_one:
  assumes "char_at r \<noteq> 42" "\<not> (c = 36 \<and> r = [])"
  shows "begins (c # r) txt \<longleftrightarrow> (\<exists>t ts. txt = t # ts \<and> stands_for c t \<and> begins r ts)"
proof -
  have i: "items (c # r) = One c # items r" "anchored (c # r) = anchored r"
    using assms by (cases r; auto simp: char_at_def)+
  show ?thesis
  proof
    assume "begins (c # r) txt"
    then obtain v rest where "v \<in> denotes (One c # items r)" "txt = v @ rest" "anchored r \<longrightarrow> rest = []"
      unfolding begins_def i by blast
    moreover from this(1) obtain t w where "v = t # w" "stands_for c t" "w \<in> denotes (items r)" by auto
    ultimately show "\<exists>t ts. txt = t # ts \<and> stands_for c t \<and> begins r ts" unfolding begins_def by auto
  next
    assume "\<exists>t ts. txt = t # ts \<and> stands_for c t \<and> begins r ts"
    then obtain t w rest where w: "txt = (t # w) @ rest" "stands_for c t" "w \<in> denotes (items r)" "anchored r \<longrightarrow> rest = []"
      unfolding begins_def by auto
    then have "t # w \<in> denotes (One c # items r)" by simp
    with w(1,4) show "begins (c # r) txt" unfolding begins_def i by blast
  qed
qed

lemma matchhere_begins: "matchhere re txt \<longleftrightarrow> begins re txt"
  and matchstar_begins: "matchstar c r txt \<longleftrightarrow> begins (c # 42 # r) txt"
proof (induction re "txt" and c r "txt" rule: matchhere_matchstar.induct)
  case (1 re "txt")
  show ?case
  proof (cases re)
    case Nil
    then show ?thesis by (simp add: matchhere.simps)
  next
    case (Cons c r)
    consider (star) "char_at r = 42" | (stop) "char_at r \<noteq> 42" "c = 36" "r = []" | (one) "char_at r \<noteq> 42" "\<not> (c = 36 \<and> r = [])" by blast
    then show ?thesis
    proof cases
      case star
      then obtain r' where "r = 42 # r'" by (cases r) (auto simp: char_at_def)
      then show ?thesis using 1(1) [OF Cons] star Cons by (simp add: matchhere.simps [of "c # 42 # r'"] char_at_def)
    next
      case stop
      then show ?thesis using Cons by (simp add: matchhere.simps [of "[36]"] char_at_def)
    next
      case one
      show ?thesis
      proof (cases "txt")
        case Nil
        have "\<not> begins (c # r) []" by (simp add: begins_one [OF one])
        then show ?thesis using one Cons Nil by (auto simp: matchhere.simps [of "c # r"])
      next
        case (Cons t ts)
        have "begins (c # r) (t # ts) \<longleftrightarrow> stands_for c t \<and> begins r ts" by (simp add: begins_one [OF one])
        moreover have "matchhere re txt \<longleftrightarrow> stands_for c t \<and> matchhere r ts"
          using one \<open>re = c # r\<close> Cons by (auto simp: matchhere.simps [of "c # r"] stands_for_def)
        moreover have "stands_for c t \<Longrightarrow> matchhere r ts \<longleftrightarrow> begins r ts"
          using 1(2) [OF \<open>re = c # r\<close> one Cons] by (simp add: stands_for_def)
        ultimately show ?thesis using \<open>re = c # r\<close> Cons by auto
      qed
    qed
  qed
next
  case (2 c r "txt")
  show ?case
  proof (cases "txt")
    case Nil
    then show ?thesis using 2(1) begins_star_step [of c r "txt"] by (simp add: matchstar.simps [of c r "[]"])
  next
    case (Cons t ts)
    then show ?thesis
      using 2 begins_star_step [of c r "txt"] by (auto simp: matchstar.simps [of c r "t # ts"] stands_for_def)
  qed
qed

lemma match_loop_begins: "match_loop re txt \<longleftrightarrow> (\<exists>pre post. txt = pre @ post \<and> begins re post)"
proof (induction "txt")
  case Nil
  then show ?case by (simp add: matchhere_begins)
next
  case (Cons t ts)
  have "(\<exists>pre post. t # ts = pre @ post \<and> begins re post) \<longleftrightarrow> begins re (t # ts) \<or> (\<exists>pre post. ts = pre @ post \<and> begins re post)"
    by (auto simp: Cons_eq_append_conv)
  then show ?case using Cons.IH by (simp add: matchhere_begins)
qed

text \<open>C31. The matcher finds a pattern in a line exactly when a part of the line is a word of the pattern: any part, the first one when the
  pattern starts with \<^verbatim>\<open>^\<close>, and the last one when it ends with \<^verbatim>\<open>$\<close>.
\<close>

theorem match_correct:
  "match re txt \<longleftrightarrow>
    (let body = (if char_at re = 94 then tl re else re) in
     \<exists>pre w post. txt = pre @ w @ post \<and> w \<in> denotes (items body) \<and> (char_at re = 94 \<longrightarrow> pre = []) \<and> (anchored body \<longrightarrow> post = []))"
  by (auto simp: match_def matchhere_begins match_loop_begins begins_def Let_def)

text \<open>The pattern \<^verbatim>\<open>^a*b$\<close> in the line \<^verbatim>\<open>aab\<close>.\<close>

theorem match_correct_witness: "match [94, 97, 42, 98, 36] [97, 97, 98]"
proof -
  have "[97, 97, 98] = [97, 97] @ [98 :: byte]" by simp
  then have "[97, 97, 98] \<in> denotes [Star 97, One 98]" by (auto simp: stands_for_def intro!: exI [of _ "[97, 97]"])
  then show ?thesis unfolding match_correct by (auto simp: char_at_def Let_def intro!: exI [of _ "[97, 97, 98]"])
qed

section \<open>The lines of the input\<close>

text \<open>The inner loop on the buffer from \<^verbatim>\<open>p\<close> on: the output, and the bytes behind the last line. A newline is byte 10.\<close>

function grep_scan :: "bytes \<Rightarrow> bytes \<Rightarrow> bytes \<times> bytes" where
  "grep_scan pat p =
     (case strchr p 10 of
       None \<Rightarrow> ([], p)
     | Some i \<Rightarrow>
         let (out, r) = grep_scan pat (drop (i + 1) p)
         in ((if match pat (take i p) then take (i + 1) p else []) @ out, r))"
  by pat_completeness auto
termination
  by (relation "measure (\<lambda>(pat, p). length p)") (auto dest: strchr_less)

declare grep_scan.simps [simp del]

text \<open>The outer loop with the bytes that are kept in the buffer; a buffer without a line is thrown away.\<close>

fun grep :: "bytes \<Rightarrow> bytes list \<Rightarrow> bytes \<Rightarrow> bytes" where
  "grep pat [] kept = []"
| "grep pat (c # cs) kept =
     (let buf = kept @ c; (out, r) = grep_scan pat buf
      in out @ grep pat cs (if length r = length buf then [] else r))"

text \<open>The complete lines of a text, and what follows the last of them.\<close>

fun clines :: "bytes \<Rightarrow> bytes \<Rightarrow> bytes list" where
  "clines acc [] = []"
| "clines acc (b # s) = (if b = 10 then acc # clines [] s else clines (acc @ [b]) s)"

fun after :: "bytes \<Rightarrow> bytes \<Rightarrow> bytes" where
  "after acc [] = acc"
| "after acc (b # s) = (if b = 10 then after [] s else after (acc @ [b]) s)"

definition matching_lines :: "bytes \<Rightarrow> bytes \<Rightarrow> bytes" where
  "matching_lines pat s = concat (map (\<lambda>l. l @ [10]) (filter (match pat) (clines [] s)))"

lemma clines_append: "clines acc (s @ t) = clines acc s @ clines (after acc s) t"
  by (induction acc s rule: clines.induct) simp_all

lemma clines_acc: "10 \<notin> set acc' \<Longrightarrow> clines (acc @ acc') s = clines acc (acc' @ s)"
  by (induction acc' arbitrary: acc) (simp, metis append_Cons append_Nil append_assoc clines.simps(2) list.set_intros(1,2))

lemma after_no_line: "10 \<notin> set acc \<Longrightarrow> 10 \<notin> set (after acc s)"
  by (induction acc s rule: after.induct) auto

lemma set_after: "set (after acc s) \<subseteq> set acc \<union> set s"
  by (induction acc s rule: after.induct) auto

lemma after_le: "length (after acc s) \<le> length acc + length s"
proof (induction acc s rule: after.induct)
  case (2 acc b s)
  then show ?case by (cases "b = 10") simp_all
qed simp

lemma after_shorter: "10 \<in> set s \<Longrightarrow> length (after acc s) < length acc + length s"
proof (induction acc s rule: after.induct)
  case (2 acc b s)
  then show ?case using after_le [of "[]" s] by (cases "b = 10") auto
qed simp

lemma no_line: "10 \<notin> set s \<Longrightarrow> clines acc s = [] \<and> after acc s = acc @ s"
  by (induction s arbitrary: acc) auto

lemma strchr_line:
  assumes "0 \<notin> set s"
  shows "case strchr s 10 of None \<Rightarrow> 10 \<notin> set s
    | Some i \<Rightarrow> s = take i s @ 10 # drop (i + 1) s \<and> take (i + 1) s = take i s @ [10] \<and> 10 \<notin> set (take i s)"
  using assms by (induction s) (auto split: option.splits)

lemma one_line: "10 \<notin> set u \<Longrightarrow> clines [] (u @ 10 # v) = u # clines [] v \<and> after [] (u @ 10 # v) = after [] v"
proof -
  have "10 \<notin> set u \<Longrightarrow> clines acc (u @ 10 # v) = (acc @ u) # clines [] v \<and> after acc (u @ 10 # v) = after [] v" for acc
    by (induction u arbitrary: acc) auto
  then show "10 \<notin> set u \<Longrightarrow> ?thesis" by simp
qed

lemma grep_scan_lines: "0 \<notin> set p \<Longrightarrow> grep_scan pat p = (matching_lines pat p, after [] p)"
proof (induction pat p rule: grep_scan.induct)
  case (1 pat p)
  show ?case
  proof (cases "strchr p 10")
    case None
    then show ?thesis
      using strchr_line [OF "1.prems"] no_line [of p "[]"] by (simp add: grep_scan.simps [of pat p] matching_lines_def)
  next
    case (Some i)
    define u v where "u = take i p" and "v = drop (i + 1) p"
    have l: "p = u @ 10 # v" "take (i + 1) p = u @ [10]" "10 \<notin> set u"
      using strchr_line [OF "1.prems"] Some by (simp_all add: u_def v_def)
    have z: "0 \<notin> set v" using "1.prems" set_drop_subset unfolding v_def by fast
    have "grep_scan pat p = ((if match pat u then u @ [10] else []) @ matching_lines pat v, after [] v)"
      using "1.IH" [OF Some] z l(2) Some v_def by (simp add: grep_scan.simps [of pat p] u_def [symmetric] Let_def)
    moreover have "matching_lines pat p = (if match pat u then u @ [10] else []) @ matching_lines pat v" "after [] p = after [] v"
      unfolding l(1) using one_line [OF l(3), of v] by (simp_all add: matching_lines_def)
    ultimately show ?thesis by simp
  qed
qed

lemma grep_lines:
  assumes "\<forall>c\<in>set cs. 10 \<in> set c \<and> 0 \<notin> set c" "10 \<notin> set kept" "0 \<notin> set kept"
  shows "grep pat cs kept = matching_lines pat (kept @ concat cs)"
  using assms
proof (induction cs arbitrary: kept)
  case Nil
  then show ?case using no_line [of kept "[]"] by (simp add: matching_lines_def)
next
  case (Cons c cs)
  let ?b = "kept @ c" and ?r = "after [] (kept @ c)"
  have s: "grep_scan pat ?b = (matching_lines pat ?b, ?r)" using Cons.prems by (intro grep_scan_lines) auto
  have "length ?r < length ?b" using after_shorter [of ?b "[]"] Cons.prems(1) by simp
  then have g: "grep pat (c # cs) kept = matching_lines pat ?b @ grep pat cs ?r" using s by (simp add: Let_def)
  have r: "10 \<notin> set ?r" "0 \<notin> set ?r" using after_no_line [of "[]" ?b] set_after [of "[]" ?b] Cons.prems by auto
  have "clines [] (?b @ concat cs) = clines [] ?b @ clines [] (?r @ concat cs)"
    using clines_append [of "[]" ?b] clines_acc [OF r(1), of "[]"] by simp
  then show ?case unfolding g using Cons.IH [OF _ r] Cons.prems(1) by (simp add: matching_lines_def)
qed

text \<open>C32. When every call of \<^verbatim>\<open>read\<close> brings at least one end of line (as from the console, or from a file of lines that fit the buffer) and the input has no NUL byte, \<^verbatim>\<open>grep\<close> writes exactly the
  complete lines of its input that match, in their order, however the input is cut into chunks.
\<close>

theorem grep_prints_lines:
  assumes "\<forall>c\<in>set cs. 10 \<in> set c \<and> 0 \<notin> set c"
  shows "grep pat cs [] = concat (map (\<lambda>l. l @ [10]) (filter (match pat) (clines [] (concat cs))))"
  using grep_lines [OF assms, of "[]" pat] by (simp add: matching_lines_def)

theorem grep_prints_lines_witness:
  "grep [97, 36] [[120, 97, 10, 97], [121, 10]] [] = [120, 97, 10]"
proof -
  have "concat (map (\<lambda>l. l @ [10]) (filter (match [97, 36]) (clines [] (concat [[120, 97, 10, 97], [121, 10]])))) = [120, 97, 10]"
    by code_simp
  then show ?thesis using grep_prints_lines [of "[[120, 97, 10, 97], [121, 10]]" "[97, 36]"] by simp
qed

text \<open>A line is lost whose beginning came with an earlier call of \<^verbatim>\<open>read\<close> that brought no end of line.\<close>

lemma grep_split_line: "grep [97, 98] [[97], [98, 10]] [] = [] \<and> grep [97, 98] [[97, 98, 10]] [] = [97, 98, 10]"
  by code_simp

end
