(* ===== verification/Xv6_Sh.thy ===== *)
theory Xv6_Sh
  imports Xv6_Ulib
begin

text \<open>
  The parser of the shell of xv6, \<^verbatim>\<open>hw3/xv6/sh.c\<close>. A pointer into the line is the list of the bytes from there
  on, and the end of the line is the end of the list or a NUL in it. A word of the tree is the range of
  the line that the parser records, which \<^verbatim>\<open>nulterminate\<close> turns into a string. Memory for the nodes is
  taken to be there.

  The functions that call each other have fuel, and \<open>None\<close> is that it runs out. A call needs 4 units for
  each byte of the line and at most 4 more, since each of the 4 functions calls the others on a shorter
  line or calls one that is later in the order \<^verbatim>\<open>parseline\<close>, \<^verbatim>\<open>parsepipe\<close>, \<^verbatim>\<open>parseexec\<close>, \<^verbatim>\<open>parseblock\<close>.
\<close>

section \<open>Commands\<close>

definition MAXARGS :: nat where "MAXARGS = 10"

datatype cmd =
    EXEC "bytes list"
  | REDIR cmd bytes u32 nat
  | PIPE cmd cmd
  | LIST cmd cmd
  | BACK cmd

text \<open>\<open>Leftovers\<close> is the panic of \<^verbatim>\<open>parsecmd\<close> with the text that it prints first.\<close>

datatype sh_error = Sh_panic string | Leftovers bytes

type_synonym 'a parse = "(sh_error + 'a) option"

definition and_then :: "'a parse \<Rightarrow> ('a \<Rightarrow> 'b parse) \<Rightarrow> 'b parse" where
  "and_then p g = (case p of None \<Rightarrow> None | Some (Inl e) \<Rightarrow> Some (Inl e) | Some (Inr x) \<Rightarrow> g x)"

section \<open>Tokens\<close>

definition whitespace :: bytes where "whitespace = [0x20, 0x09, 0x0D, 0x0A, 0x0B]"

definition symbols :: bytes where "symbols = str ''<|>&;()''"

definition is_white :: "byte \<Rightarrow> bool" where
  "is_white b = (strchr whitespace b \<noteq> None)"

definition is_word :: "byte \<Rightarrow> bool" where
  "is_word b = (b \<noteq> 0 \<and> \<not> is_white b \<and> strchr symbols b = None)"

definition skip_white :: "bytes \<Rightarrow> bytes" where
  "skip_white s = dropWhile is_white s"

text \<open>The token, the range \<^verbatim>\<open>q\<close> to \<^verbatim>\<open>eq\<close> and the rest of the line.\<close>

definition gettoken :: "bytes \<Rightarrow> byte \<times> bytes \<times> bytes" where
  "gettoken s =
     (let s = skip_white s; c = char_at s in
      if c = 0 then (0, [], s)
      else if c \<in> set (str ''|();&<'') then (c, [c], skip_white (tl s))
      else if c = 0x3E then
        (if char_at (tl s) = 0x3E then (0x2B, [c, c], skip_white (tl (tl s))) else (c, [c], skip_white (tl s)))
      else (0x61, takeWhile is_word s, skip_white (dropWhile is_word s)))"

definition peek :: "bytes \<Rightarrow> bytes \<Rightarrow> bytes \<times> bool" where
  "peek s toks = (let s = skip_white s in (s, char_at s \<noteq> 0 \<and> strchr toks (char_at s) \<noteq> None))"

lemma is_white_iff: "is_white b \<longleftrightarrow> b \<in> {0x20, 0x09, 0x0D, 0x0A, 0x0B}"
  by (auto simp: is_white_def whitespace_def)

lemma is_word_iff: "is_word b \<longleftrightarrow> b \<notin> {0, 0x20, 0x09, 0x0D, 0x0A, 0x0B, 0x3C, 0x7C, 0x3E, 0x26, 0x3B, 0x28, 0x29}"
  by (auto simp: is_word_def is_white_iff symbols_def str_def)

lemma skip_white_le: "length (skip_white s) \<le> length s"
  by (simp add: skip_white_def length_dropWhile_le)

lemma skip_white_idem [simp]: "skip_white (skip_white s) = skip_white s"
  by (simp add: skip_white_def)

lemma char_at_simps [simp]: "char_at [] = 0" "char_at (b # s) = b"
  by (simp_all add: char_at_def)

lemma skip_white_tl_less: "char_at s \<noteq> 0 \<Longrightarrow> length (skip_white (tl s)) < length s"
  using skip_white_le [of "tl s"] by (cases s) auto

lemma char_at_skip: "\<not> is_white (char_at (skip_white s))"
  by (induction s) (auto simp: skip_white_def is_white_iff)

lemma peek_le: "peek s toks = (s', b) \<Longrightarrow> length s' \<le> length s"
  by (auto simp: peek_def Let_def skip_white_le)

lemma first_of_word:
  "skip_white s = c # r \<Longrightarrow> c \<noteq> 0 \<Longrightarrow> c \<notin> set (str ''|();&<'') \<Longrightarrow> c \<noteq> 0x3E \<Longrightarrow> is_word c"
  using char_at_skip [of s] by (auto simp: is_word_iff is_white_iff str_def)

lemma gettoken_le: "gettoken s = (tok, w, s') \<Longrightarrow> length s' \<le> length s"
  and gettoken_less: "gettoken s = (tok, w, s') \<Longrightarrow> tok \<noteq> 0 \<Longrightarrow> length s' < length s"
proof -
  let ?s = "skip_white s"
  have "length s' \<le> length ?s \<and> (tok \<noteq> 0 \<longrightarrow> length s' < length ?s)" if g: "gettoken s = (tok, w, s')"
  proof (cases "char_at ?s = 0")
    case True
    then show ?thesis
      using g by (auto simp: gettoken_def)
  next
    case False
    then obtain c r where Cons: "?s = c # r" and "c \<noteq> 0"
      by (cases ?s) auto
    have "length (skip_white (tl r)) \<le> length r"
      using skip_white_le [of "tl r"] by simp
    moreover have "length (skip_white (dropWhile is_word r)) \<le> length r"
      using skip_white_le [of "dropWhile is_word r"] length_dropWhile_le [of is_word r] by simp
    ultimately show ?thesis
      using g skip_white_le [of r] Cons \<open>c \<noteq> 0\<close> first_of_word [OF Cons] by (auto simp: gettoken_def Let_def split: if_splits)
  qed
  then show "gettoken s = (tok, w, s') \<Longrightarrow> length s' \<le> length s"
    and "gettoken s = (tok, w, s') \<Longrightarrow> tok \<noteq> 0 \<Longrightarrow> length s' < length s"
    using skip_white_le [of s] by force+
qed

lemma peek_token:
  assumes "peek s toks = (s', True)" "gettoken s' = (tok, w, u)"
  shows "length u < length s"
proof -
  have "skip_white s' = s'" "char_at s' \<noteq> 0"
    using assms(1) by (auto simp: peek_def Let_def)
  then have "tok \<noteq> 0"
    using assms(2) by (auto simp: gettoken_def Let_def split: if_splits)
  then show ?thesis
    using gettoken_less [OF assms(2)] peek_le [OF assms(1)] by simp
qed

lemma peek_shorter:
  assumes "(s', True) = peek s toks" "(tok, w, u) = gettoken s'"
  shows "length u < length s" "(kind, q, v) = gettoken u \<Longrightarrow> length v < length s"
  using peek_token [OF assms(1,2) [symmetric]] gettoken_le [of u kind q v] by auto

section \<open>The parser\<close>

text \<open>\<^verbatim>\<open>>>\<close> opens the file in the same way as \<^verbatim>\<open>>\<close>.\<close>

function parseredirs :: "cmd \<Rightarrow> bytes \<Rightarrow> sh_error + cmd \<times> bytes" where
  "parseredirs cmd s =
     (let (s, more) = peek s (str ''<>'') in
      if \<not> more then Inr (cmd, s)
      else
        (let (tok, _, s) = gettoken s;
             (kind, q, s) = gettoken s
         in if kind \<noteq> 0x61 then Inl (Sh_panic ''missing file for redirection'')
            else parseredirs
              (if tok = 0x3C then REDIR cmd q O_RDONLY 0
               else if tok = 0x3E \<or> tok = 0x2B then REDIR cmd q (O_WRONLY OR O_CREATE) 1
               else cmd) s))"
  by pat_completeness auto
termination
  by (relation "measure (length \<circ> snd)") (auto intro: peek_shorter)

declare parseredirs.simps [simp del]

text \<open>The node \<^verbatim>\<open>cmd\<close> of \<^verbatim>\<open>parseexec\<close> is inside of the redirections that \<^verbatim>\<open>ret\<close> has by now.\<close>

fun add_arg :: "bytes \<Rightarrow> cmd \<Rightarrow> cmd" where
  "add_arg w (EXEC argv) = EXEC (argv @ [w])"
| "add_arg w (REDIR cmd q mode fd) = REDIR (add_arg w cmd) q mode fd"
| "add_arg w cmd = cmd"

function parse_args :: "nat \<Rightarrow> cmd \<Rightarrow> bytes \<Rightarrow> sh_error + cmd \<times> bytes" where
  "parse_args argc ret s =
     (let (s, stop) = peek s (str ''|)&;'') in
      if stop then Inr (ret, s)
      else
        (let (tok, q, s) = gettoken s in
         if tok = 0 then Inr (ret, s)
         else if tok \<noteq> 0x61 then Inl (Sh_panic ''syntax'')
         else if argc + 1 \<ge> MAXARGS then Inl (Sh_panic ''too many args'')
         else
           (case parseredirs (add_arg q ret) s of
             Inl e \<Rightarrow> Inl e
           | Inr (ret, s) \<Rightarrow> parse_args (argc + 1) ret s)))"
  by pat_completeness auto
termination
  by (relation "measure (\<lambda>(argc, _). MAXARGS - argc)") auto

declare parse_args.simps [simp del]

function parse_backs :: "cmd \<Rightarrow> bytes \<Rightarrow> cmd \<times> bytes" where
  "parse_backs cmd s =
     (let (s, more) = peek s (str ''&'') in
      if more then (let (_, _, s) = gettoken s in parse_backs (BACK cmd) s) else (cmd, s))"
  by pat_completeness auto
termination
  by (relation "measure (length \<circ> snd)") (auto intro: peek_shorter)

declare parse_backs.simps [simp del]

fun parseline :: "nat \<Rightarrow> bytes \<Rightarrow> (cmd \<times> bytes) parse"
  and parsepipe :: "nat \<Rightarrow> bytes \<Rightarrow> (cmd \<times> bytes) parse"
  and parseblock :: "nat \<Rightarrow> bytes \<Rightarrow> (cmd \<times> bytes) parse"
  and parseexec :: "nat \<Rightarrow> bytes \<Rightarrow> (cmd \<times> bytes) parse"
where
  "parseline 0 s = None"
| "parseline (Suc n) s =
     and_then (parsepipe n s) (\<lambda>(cmd, s).
       let (cmd, s) = parse_backs cmd s;
           (s, more) = peek s (str '';'')
       in if more then
            (let (_, _, s) = gettoken s in and_then (parseline n s) (\<lambda>(right, s). Some (Inr (LIST cmd right, s))))
          else Some (Inr (cmd, s)))"
| "parsepipe 0 s = None"
| "parsepipe (Suc n) s =
     and_then (parseexec n s) (\<lambda>(cmd, s).
       let (s, more) = peek s (str ''|'')
       in if more then
            (let (_, _, s) = gettoken s in and_then (parsepipe n s) (\<lambda>(right, s). Some (Inr (PIPE cmd right, s))))
          else Some (Inr (cmd, s)))"
| "parseblock 0 s = None"
| "parseblock (Suc n) s =
     (let (s, open) = peek s (str ''('') in
      if \<not> open then Some (Inl (Sh_panic ''parseblock''))
      else
        (let (_, _, s) = gettoken s in
         and_then (parseline n s) (\<lambda>(cmd, s).
           let (s, closed) = peek s (str '')'') in
           if \<not> closed then Some (Inl (Sh_panic ''syntax - missing )''))
           else (let (_, _, s) = gettoken s in Some (parseredirs cmd s)))))"
| "parseexec 0 s = None"
| "parseexec (Suc n) s =
     (let (s, open) = peek s (str ''('') in
      if open then parseblock n s
      else
        (case parseredirs (EXEC []) s of
          Inl e \<Rightarrow> Some (Inl e)
        | Inr (ret, s) \<Rightarrow> Some (parse_args 0 ret s)))"

definition parsecmd :: "bytes \<Rightarrow> cmd parse" where
  "parsecmd s =
     and_then (parseline (4 * length s + 4) s) (\<lambda>(cmd, s).
       let (s, _) = peek s [] in
       if char_at s \<noteq> 0 then Some (Inl (Leftovers (takeWhile (\<lambda>b. b \<noteq> 0) s))) else Some (Inr cmd))"

section \<open>The parser returns\<close>

lemma peek_cases:
  obtains s' where "peek s toks = (s', True)" "length s' \<le> length s" | s' where "peek s toks = (s', False)" "length s' \<le> length s"
  by (cases "peek s toks") (auto dest: peek_le)

lemma parseredirs_le: "parseredirs cmd s = Inr (d, u) \<Longrightarrow> length u \<le> length s"
proof (induction cmd s rule: parseredirs.induct)
  case (1 cmd s)
  show ?case
  proof (cases rule: peek_cases [of s "str ''<>''"])
    case (1 s')
    obtain tok w t kind q v where g: "gettoken s' = (tok, w, t)" "gettoken t = (kind, q, v)"
      by (metis prod_cases3)
    show ?thesis
      using "1.prems" "1.IH" [OF 1(1) [symmetric]] 1 g peek_token [OF 1(1) g(1)] gettoken_le [OF g(2)]
      by (subst (asm) parseredirs.simps) (force split: if_splits)
  next
    case (2 s')
    then show ?thesis
      using "1.prems" by (subst (asm) parseredirs.simps) auto
  qed
qed

lemma parse_args_step:
  obtains (stop) s' where "parse_args argc ret s = Inr (ret, s')" "length s' \<le> length s"
  | (error) e where "parse_args argc ret s = Inl e"
  | (arg) s1 q s2 ret' s3 where "parse_args argc ret s = parse_args (argc + 1) ret' s3" "peek s (str ''|)&;'') = (s1, False)"
      "gettoken s1 = (0x61, q, s2)" "argc + 1 < MAXARGS" "parseredirs (add_arg q ret) s2 = Inr (ret', s3)"
proof (cases rule: peek_cases [of s "str ''|)&;''"])
  case (1 s')
  then show ?thesis
    using stop [of s'] by (simp add: parse_args.simps [of argc])
next
  case (2 s')
  obtain tok q t where g: "gettoken s' = (tok, q, t)"
    by (metis prod_cases3)
  consider "tok = 0" | "tok \<noteq> 0" "tok \<noteq> 0x61 \<or> MAXARGS \<le> argc + 1" | "tok = 0x61" "argc + 1 < MAXARGS"
    by linarith
  then show ?thesis
  proof cases
    case 1
    then show ?thesis
      using stop [of t] 2 g gettoken_le [OF g] by (simp add: parse_args.simps [of argc])
  next
    case 2
    then show ?thesis
      using error \<open>peek s _ = _\<close> g by (cases "tok = 0x61") (auto simp: parse_args.simps [of argc])
  next
    case 3
    then show ?thesis
      using error arg [of _ _ s' q t] 2 g by (cases "parseredirs (add_arg q ret) t") (auto simp: parse_args.simps [of argc])
  qed
qed

lemma parse_args_le: "parse_args argc ret s = Inr (d, u) \<Longrightarrow> length u \<le> length s"
proof (induction "MAXARGS - argc" arbitrary: argc ret s rule: less_induct)
  case less
  show ?case
  proof (cases rule: parse_args_step [of argc ret s])
    case (arg s1 q s2 ret' s3)
    then show ?thesis
      using less.hyps [of "argc + 1" ret' s3] less.prems peek_le [OF arg(2)] gettoken_le [OF arg(3)] parseredirs_le [OF arg(5)]
      by (simp add: diff_less_mono2)
  qed (use less.prems in auto)
qed

lemma parse_backs_le: "parse_backs cmd s = (d, u) \<Longrightarrow> length u \<le> length s"
proof (induction cmd s rule: parse_backs.induct)
  case (1 cmd s)
  show ?case
  proof (cases rule: peek_cases [of s "str ''&''"])
    case (1 s')
    obtain tok w t where g: "gettoken s' = (tok, w, t)"
      by (metis prod_cases3)
    show ?thesis
      using "1.prems" "1.IH" [OF 1(1) [symmetric]] 1 g peek_token [OF 1(1) g(1)]
      by (subst (asm) parse_backs.simps) force
  next
    case (2 s')
    then show ?thesis
      using "1.prems" by (subst (asm) parse_backs.simps) auto
  qed
qed

definition returns_within :: "bytes \<Rightarrow> (cmd \<times> bytes) parse \<Rightarrow> bool" where
  "returns_within s p \<longleftrightarrow> (\<exists>r. p = Some r \<and> (\<forall>cmd u. r = Inr (cmd, u) \<longrightarrow> length u \<le> length s))"

lemma returns_within_simps [simp]:
  "returns_within s (Some (Inl e))" "returns_within s (Some (Inr (cmd, u))) \<longleftrightarrow> length u \<le> length s"
  by (auto simp: returns_within_def)

lemma returns_within_and_then:
  assumes "returns_within s p" "\<And>cmd u. p = Some (Inr (cmd, u)) \<Longrightarrow> length u \<le> length s \<Longrightarrow> returns_within s' (g (cmd, u))"
  shows "returns_within s' (and_then p g)"
  using assms by (auto simp: returns_within_def and_then_def split: sum.splits)

lemma returns_within_mono: "returns_within s p \<Longrightarrow> length s \<le> length s' \<Longrightarrow> returns_within s' p"
  by (auto simp: returns_within_def)


lemma returns_within_after_symbol:
  assumes "\<And>v. length v < length s \<Longrightarrow> returns_within v (p v)" "length u \<le> length s"
  shows "returns_within s (let (s, more) = peek u toks
    in if more then (let (_, _, s) = gettoken s in and_then (p s) (\<lambda>(right, s). Some (Inr (node right, s))))
       else Some (Inr (cmd, s)))"
proof (cases rule: peek_cases [of u toks])
  case (1 u')
  obtain tok w v where g: "gettoken u' = (tok, w, v)"
    by (metis prod_cases3)
  have "length v < length s"
    using peek_token [OF 1(1) g] assms(2) by simp
  then show ?thesis
    using 1 g assms(1) [of v] by (auto intro!: returns_within_and_then [of v])
qed (use assms(2) in auto)

lemma parse_returns:
  "4 * length s + 4 \<le> n \<Longrightarrow> returns_within s (parseline n s)"
  "4 * length s + 3 \<le> n \<Longrightarrow> returns_within s (parsepipe n s)"
  "4 * length s + 1 \<le> n \<Longrightarrow> returns_within s (parseblock n s)"
  "4 * length s + 2 \<le> n \<Longrightarrow> returns_within s (parseexec n s)"
proof (induction n arbitrary: s)
  case (Suc n)
  {
    case 1
    have "returns_within s (parsepipe n s)"
      using 1 Suc.IH(2) by simp
    then show ?case
      unfolding parseline.simps
    proof (rule returns_within_and_then, unfold prod.case)
      fix cmd and u :: bytes
      assume u: "length u \<le> length s"
      obtain d v where v: "parse_backs cmd u = (d, v)"
        by (cases "parse_backs cmd u")
      have vs: "length v \<le> length s"
        using parse_backs_le [OF v] u by simp
      show "returns_within s (let (cmd, s) = parse_backs cmd u; (s, more) = peek s (str '';'')
        in if more then (let (_, _, s) = gettoken s in and_then (parseline n s) (\<lambda>(right, s). Some (Inr (LIST cmd right, s))))
           else Some (Inr (cmd, s)))"
        unfolding v Let_def prod.case
        by (rule returns_within_after_symbol [unfolded Let_def]) (use vs 1 Suc.IH(1) in auto)
    qed
  next
    case 2
    have "returns_within s (parseexec n s)"
      using 2 Suc.IH(4) by simp
    then show ?case
      unfolding parsepipe.simps
    proof (rule returns_within_and_then, unfold prod.case)
      fix cmd and u :: bytes
      assume "length u \<le> length s"
      then show "returns_within s (let (s, more) = peek u (str ''|'')
        in if more then (let (_, _, s) = gettoken s in and_then (parsepipe n s) (\<lambda>(right, s). Some (Inr (PIPE cmd right, s))))
           else Some (Inr (cmd, s)))"
        by (intro returns_within_after_symbol) (use 2 Suc.IH(2) in auto)
    qed
  next
    case 3
    show ?case
    proof (cases rule: peek_cases [of s "str ''(''"])
      case (1 s')
      obtain tok w u where g: "gettoken s' = (tok, w, u)"
        by (metis prod_cases3)
      then have u: "length u < length s"
        using peek_token [OF 1(1)] by simp
      then have "returns_within u (parseline n u)"
        using 3 Suc.IH(1) by simp
      then have "returns_within s (and_then (parseline n u) (\<lambda>(cmd, s).
           let (s, closed) = peek s (str '')'') in
           if \<not> closed then Some (Inl (Sh_panic ''syntax - missing )''))
           else (let (_, _, s) = gettoken s in Some (parseredirs cmd s))))"
        by (rule returns_within_and_then)
          (use u in \<open>auto simp: returns_within_def dest!: parseredirs_le gettoken_le peek_le split: prod.splits\<close>)
      then show ?thesis
        using 1 g by simp
    qed simp
  next
    case 4
    show ?case
    proof (cases rule: peek_cases [of s "str ''(''"])
      case (1 s')
      then show ?thesis
        using 4 Suc.IH(3) [of s'] returns_within_mono [of s' _ s] by auto
    next
      case (2 s')
      then show ?thesis
        by (force simp: returns_within_def dest: parseredirs_le parse_args_le split: sum.split prod.split)
    qed
  }
qed simp_all

text \<open>C29. The parser of the shell returns on every line: the mutual recursion of \<^verbatim>\<open>parseline\<close>, \<^verbatim>\<open>parsepipe\<close>,
  \<^verbatim>\<open>parseexec\<close> and \<^verbatim>\<open>parseblock\<close> ends with a command or with one of its panics.
\<close>

theorem parsecmd_returns:
  "\<exists>r. parsecmd s = Some r"
  using parse_returns(1) [of s "4 * length s + 4"]
  by (auto simp: parsecmd_def and_then_def returns_within_def split: sum.split prod.split)

section \<open>The commands of the parser\<close>

definition word_ok :: "bytes \<Rightarrow> bool" where
  "word_ok w \<longleftrightarrow> w \<noteq> [] \<and> (\<forall>b \<in> set w. is_word b)"

fun cmd_ok :: "cmd \<Rightarrow> bool" where
  "cmd_ok (EXEC argv) \<longleftrightarrow> length argv < MAXARGS \<and> (\<forall>w \<in> set argv. word_ok w)"
| "cmd_ok (REDIR cmd q mode fd) \<longleftrightarrow> cmd_ok cmd \<and> word_ok q \<and> (mode, fd) \<in> {(O_RDONLY, 0), (O_WRONLY OR O_CREATE, 1)}"
| "cmd_ok (PIPE left right) \<longleftrightarrow> cmd_ok left \<and> cmd_ok right"
| "cmd_ok (LIST left right) \<longleftrightarrow> cmd_ok left \<and> cmd_ok right"
| "cmd_ok (BACK cmd) \<longleftrightarrow> cmd_ok cmd"

text \<open>A simple command, with \<open>n\<close> arguments by now.\<close>

fun simple_cmd :: "nat \<Rightarrow> cmd \<Rightarrow> bool" where
  "simple_cmd n (EXEC argv) \<longleftrightarrow> length argv = n"
| "simple_cmd n (REDIR cmd _ _ _) \<longleftrightarrow> simple_cmd n cmd"
| "simple_cmd n _ \<longleftrightarrow> False"

lemma add_arg_ok:
  "cmd_ok cmd \<Longrightarrow> simple_cmd n cmd \<Longrightarrow> word_ok w \<Longrightarrow> n + 1 < MAXARGS \<Longrightarrow> cmd_ok (add_arg w cmd) \<and> simple_cmd (n + 1) (add_arg w cmd)"
  by (induction w cmd rule: add_arg.induct) auto

lemma gettoken_word: "gettoken s = (0x61, w, u) \<Longrightarrow> word_ok w"
proof -
  assume g: "gettoken s = (0x61, w, u)"
  obtain c r where s: "skip_white s = c # r"
    using g by (cases "skip_white s") (auto simp: gettoken_def)
  moreover have "c \<noteq> 0x61 \<or> is_word c"
    by (simp add: is_word_iff)
  ultimately show ?thesis
    using g first_of_word [OF s] by (auto simp: gettoken_def Let_def word_ok_def split: if_splits dest: set_takeWhileD)
qed

lemma parseredirs_ok:
  "parseredirs cmd s = Inr (d, u) \<Longrightarrow> cmd_ok cmd \<Longrightarrow> cmd_ok d \<and> (simple_cmd n cmd \<longrightarrow> simple_cmd n d)"
proof (induction cmd s rule: parseredirs.induct)
  case (1 cmd s)
  show ?case
  proof (cases rule: peek_cases [of s "str ''<>''"])
    case (1 s')
    obtain tok w t kind q v where g: "gettoken s' = (tok, w, t)" "gettoken t = (kind, q, v)"
      by (metis prod_cases3)
    show ?thesis
      using "1.prems" "1.IH" [OF 1(1) [symmetric]] 1 g gettoken_word [of t q v]
      by (subst (asm) parseredirs.simps) (force split: if_splits)
  next
    case (2 s')
    then show ?thesis
      using "1.prems" by (subst (asm) parseredirs.simps) auto
  qed
qed

lemma parse_args_ok:
  "parse_args argc ret s = Inr (d, u) \<Longrightarrow> cmd_ok ret \<Longrightarrow> simple_cmd argc ret \<Longrightarrow> cmd_ok d"
proof (induction "MAXARGS - argc" arbitrary: argc ret s rule: less_induct)
  case less
  show ?case
  proof (cases rule: parse_args_step [of argc ret s])
    case (arg s1 q s2 ret' s3)
    have "cmd_ok ret' \<and> simple_cmd (argc + 1) ret'"
      using parseredirs_ok [OF arg(5), of "argc + 1"] add_arg_ok [of ret argc q] gettoken_word [OF arg(3)] arg(4) less.prems by simp
    then show ?thesis
      using less.hyps [of "argc + 1" ret' s3] less.prems arg by (simp add: diff_less_mono2)
  qed (use less.prems in auto)
qed

lemma parse_backs_ok: "parse_backs cmd s = (d, u) \<Longrightarrow> cmd_ok cmd \<Longrightarrow> cmd_ok d"
proof (induction cmd s rule: parse_backs.induct)
  case (1 cmd s)
  then show ?case
    by (subst (asm) (2) parse_backs.simps) (auto split: if_splits prod.splits)
qed

lemma and_then_Inr:
  assumes "and_then p g = Some (Inr y)"
  obtains x where "p = Some (Inr x)" "g x = Some (Inr y)"
  using assms by (auto simp: and_then_def split: option.splits sum.splits)

lemma parse_ok:
  "parseline n s = Some (Inr (cmd, u)) \<Longrightarrow> cmd_ok cmd"
  "parsepipe n s = Some (Inr (cmd, u)) \<Longrightarrow> cmd_ok cmd"
  "parseblock n s = Some (Inr (cmd, u)) \<Longrightarrow> cmd_ok cmd"
  "parseexec n s = Some (Inr (cmd, u)) \<Longrightarrow> cmd_ok cmd"
proof (induction n arbitrary: s cmd u)
  case (Suc n)
  {
    case 1
    then show ?case
      using Suc.IH(1,2) parse_backs_ok by (fastforce elim!: and_then_Inr split: prod.splits if_splits)
  next
    case 2
    then show ?case
      using Suc.IH(2,4) by (fastforce elim!: and_then_Inr split: prod.splits if_splits)
  next
    case 3
    then show ?case
      using Suc.IH(1) parseredirs_ok by (fastforce elim!: and_then_Inr split: prod.splits if_splits)
  next
    case 4
    have "cmd_ok (EXEC [])" "simple_cmd 0 (EXEC [])"
      by (simp_all add: MAXARGS_def)
    then show ?case
      using 4 Suc.IH(3) parseredirs_ok [where cmd = "EXEC []" and n = 0] parse_args_ok [where argc = 0]
      by (auto split: prod.splits if_splits sum.splits)
  }
qed simp_all

text \<open>C30. A tree that the parser builds is well formed: a command has fewer than \<^verbatim>\<open>MAXARGS\<close> words, so that the
  null pointer after them is inside of \<^verbatim>\<open>argv\<close>; no word is empty or has a blank or a symbol in it; and a
  redirection has one of its two modes with the descriptor that goes with it.
\<close>

theorem parsecmd_well_formed:
  assumes "parsecmd s = Some (Inr cmd)"
  shows "cmd_ok cmd"
  using assms by (auto simp: parsecmd_def elim!: and_then_Inr intro: parse_ok(1) split: prod.splits if_splits)

theorem parsecmd_well_formed_witness:
  "parsecmd (str ''a;b'') = Some (Inr (LIST (EXEC [str ''a'']) (EXEC [str ''b'']))) \<and>
   cmd_ok (LIST (EXEC [str ''a'']) (EXEC [str ''b'']))"
proof -
  have "parsecmd (str ''a;b'') = Some (Inr (LIST (EXEC [str ''a'']) (EXEC [str ''b''])))"
    by code_simp
  then show ?thesis
    using parsecmd_well_formed [of "str ''a;b''"] by simp
qed

section \<open>Printing a command\<close>

fun unparse :: "cmd \<Rightarrow> bytes" where
  "unparse (EXEC argv) = concat (map (\<lambda>w. w @ str '' '') argv)"
| "unparse (REDIR cmd q mode fd) = str ''('' @ unparse cmd @ str '')'' @ (if fd = 0 then str ''<'' else str ''>'') @ q"
| "unparse (PIPE left right) = str ''('' @ unparse left @ str '')|('' @ unparse right @ str '')''"
| "unparse (LIST left right) = str ''('' @ unparse left @ str '');('' @ unparse right @ str '')''"
| "unparse (BACK cmd) = str ''('' @ unparse cmd @ str '')&''"

text \<open>The parser \<open>p\<close> returns \<open>r\<close> at \<open>s\<close>, with fuel enough.\<close>

definition gives :: "(nat \<Rightarrow> bytes \<Rightarrow> 'a parse) \<Rightarrow> bytes \<Rightarrow> 'a \<Rightarrow> bool" where
  "gives p s r \<longleftrightarrow> (\<exists>k. \<forall>n \<ge> k. p n s = Some (Inr r))"

lemma givesI: "gives p s r" if "\<And>n. n \<ge> k \<Longrightarrow> p (Suc n) s = Some (Inr r)"
  unfolding gives_def
proof (intro exI [of _ "Suc k"] allI impI)
  fix n
  assume "Suc k \<le> n"
  then obtain m where "n = Suc m" "k \<le> m"
    by (cases n) auto
  then show "p n s = Some (Inr r)"
    using that by simp
qed

lemma gives_two:
  assumes "gives p s r" "gives q t v"
  obtains k where "\<And>n. n \<ge> k \<Longrightarrow> p n s = Some (Inr r) \<and> q n t = Some (Inr v)"
proof -
  obtain i j where "\<forall>n \<ge> i. p n s = Some (Inr r)" "\<forall>n \<ge> j. q n t = Some (Inr v)"
    using assms by (auto simp: gives_def)
  then show thesis
    using that [of "max i j"] by simp
qed

lemma and_then_simps [simp]: "and_then (Some (Inr x)) g = g x" "and_then (Some (Inl e)) g = Some (Inl e)" "and_then None g = None"
  by (simp_all add: and_then_def)

lemma skip_white_Cons [simp]: "\<not> is_white b \<Longrightarrow> skip_white (b # s) = b # s"
  by (simp add: skip_white_def)

lemma skip_white_Nil [simp]: "skip_white [] = []"
  by (simp add: skip_white_def)

lemma skip_white_blank [simp]: "skip_white (0x20 # s) = skip_white s"
  by (simp add: skip_white_def is_white_iff)

lemma symbols_not_white [simp]:
  "\<not> is_white 0x3C" "\<not> is_white 0x7C" "\<not> is_white 0x3E" "\<not> is_white 0x26" "\<not> is_white 0x3B" "\<not> is_white 0x28" "\<not> is_white 0x29"
  by (simp_all add: is_white_iff)

text \<open>Where a command ends: at the end of the line or at a closing parenthesis.\<close>

definition ends :: "bytes \<Rightarrow> bool" where
  "ends t \<longleftrightarrow> t = [] \<or> char_at t = 0x29"

lemma word_ok_first:
  assumes "word_ok w"
  obtains b r where "w = b # r" "is_word b"
  using assms by (cases w) (auto simp: word_ok_def)

lemma is_word_not_white: "is_word b \<Longrightarrow> \<not> is_white b"
  by (simp add: is_word_def)

lemma skip_white_word: "word_ok w \<Longrightarrow> skip_white (w @ t) = w @ t"
  by (erule word_ok_first) (simp add: is_word_not_white)

lemma gettoken_of_word:
  assumes "word_ok w" "\<not> is_word (char_at t)"
  shows "gettoken (w @ t) = (0x61, w, skip_white t)"
proof -
  obtain b r where "w = b # r" "is_word b"
    using assms(1) by (rule word_ok_first)
  then have "char_at (w @ t) \<noteq> 0" "char_at (w @ t) \<notin> set (str ''|();&<'')" "char_at (w @ t) \<noteq> 0x3E"
    by (auto simp: is_word_iff str_def)
  moreover have "takeWhile is_word t = []" "dropWhile is_word t = t"
    using assms(2) by (cases t; simp)+
  then have "takeWhile is_word (w @ t) = w" "dropWhile is_word (w @ t) = t"
    using assms(1) by (simp_all add: word_ok_def)
  ultimately show ?thesis
    using assms(1) by (simp add: gettoken_def Let_def skip_white_word)
qed

lemma peek_of_word:
  assumes "word_ok w" "set toks \<subseteq> set symbols"
  shows "peek (w @ t) toks = (w @ t, False)"
proof -
  obtain b r where w: "w = b # r" "is_word b"
    using assms(1) by (rule word_ok_first)
  then have "b \<notin> set toks"
    using assms(2) by (auto simp: symbols_def is_word_iff str_def)
  then have "strchr toks b = None"
    by (induction toks) auto
  then show ?thesis
    using w by (simp add: peek_def Let_def is_word_not_white)
qed

lemma unparse_args_first:
  assumes "\<forall>w \<in> set ws. word_ok w" "ends t"
  defines "s \<equiv> concat (map (\<lambda>w. w @ str '' '') ws) @ t"
  shows "skip_white s = s" "char_at s \<notin> {0x3C, 0x3E, 0x28}"
proof -
  have "skip_white s = s \<and> char_at s \<notin> {0x3C, 0x3E, 0x28}"
  proof (cases ws)
    case Nil
    then show ?thesis
      using assms(2) by (cases t) (auto simp: s_def ends_def)
  next
    case (Cons w ws')
    then have "word_ok w"
      using assms(1) by simp
    then show ?thesis
      using Cons by (elim word_ok_first) (auto simp: s_def is_word_not_white is_word_iff)
  qed
  then show "skip_white s = s" "char_at s \<notin> {0x3C, 0x3E, 0x28}"
    by simp_all
qed

lemma unparse_first:
  "cmd_ok cmd \<Longrightarrow> ends t \<Longrightarrow> skip_white (unparse cmd @ t) = unparse cmd @ t"
  using unparse_args_first(1) [of _ t] by (cases cmd) (simp_all add: str_def)

lemma parseredirs_none:
  assumes "skip_white s = s" "char_at s \<notin> {0x3C, 0x3E}"
  shows "parseredirs cmd s = Inr (cmd, s)"
  using assms by (subst parseredirs.simps) (simp add: peek_def str_def)

lemma parse_args_words:
  assumes "\<forall>w \<in> set ws. word_ok w" "length acc + length ws < MAXARGS" "ends t"
  shows "parse_args (length acc) (EXEC acc) (concat (map (\<lambda>w. w @ str '' '') ws) @ t) = Inr (EXEC (acc @ ws), t)"
  using assms
proof (induction ws arbitrary: acc)
  case Nil
  then show ?case
    by (cases t) (auto simp: ends_def parse_args.simps [of "length acc"] peek_def gettoken_def str_def)
next
  case (Cons w ws)
  let ?r = "concat (map (\<lambda>w. w @ str '' '') ws) @ t"
  have w: "word_ok w"
    using Cons.prems by simp
  have r: "skip_white ?r = ?r" "char_at ?r \<notin> {0x3C, 0x3E}"
    using unparse_args_first [of ws t] Cons.prems by simp_all
  have "peek (w @ 0x20 # ?r) (str ''|)&;'') = (w @ 0x20 # ?r, False)"
    by (rule peek_of_word [OF w]) (simp add: symbols_def str_def)
  moreover have "gettoken (w @ 0x20 # ?r) = (0x61, w, ?r)"
    using gettoken_of_word [OF w, of "0x20 # ?r"] r by (simp add: is_word_iff)
  ultimately have "parse_args (length acc) (EXEC acc) (w @ 0x20 # ?r) = parse_args (length (acc @ [w])) (EXEC (acc @ [w])) ?r"
    using Cons.prems(2) parseredirs_none [OF r] by (simp add: parse_args.simps [of "length acc"])
  then show ?case
    using Cons.IH [of "acc @ [w]"] Cons.prems by (simp add: str_def)
qed

text \<open>One step of each parser, by the byte it stops at.\<close>

lemma gettoken_symbol: "b \<in> set (str ''|();&<'') \<Longrightarrow> gettoken (b # u) = (b, [b], skip_white u)"
  by (auto simp: gettoken_def str_def)

lemma peek_clean: "skip_white u = u \<Longrightarrow> peek u toks = (u, char_at u \<noteq> 0 \<and> strchr toks (char_at u) \<noteq> None)"
  by (simp add: peek_def)

lemmas parse_step = gettoken_symbol peek_clean str_def

lemma ends_clean: "ends t \<Longrightarrow> skip_white t = t" "ends t \<Longrightarrow> char_at t \<in> {0, 0x29}"
  by (cases t; auto simp: ends_def)+

lemma gives_words:
  assumes "cmd_ok (EXEC ws)" "ends t"
  shows "gives parseexec (unparse (EXEC ws) @ t) (EXEC ws, t)"
proof (rule givesI [of 0])
  fix n
  let ?s = "unparse (EXEC ws) @ t"
  have s: "skip_white ?s = ?s" "char_at ?s \<notin> {0x3C, 0x3E, 0x28}"
    using unparse_args_first [of ws t] assms by simp_all
  then have "peek ?s (str ''('') = (?s, False)" "parseredirs (EXEC []) ?s = Inr (EXEC [], ?s)"
    by (simp_all add: peek_clean str_def parseredirs_none)
  then show "parseexec (Suc n) ?s = Some (Inr (EXEC ws, t))"
    using parse_args_words [of ws "[]" t] assms by simp
qed

lemma gives_block:
  assumes "gives parseline (s @ 0x29 # t) (cmd, 0x29 # t)" "skip_white (s @ 0x29 # t) = s @ 0x29 # t"
    and "parseredirs cmd (skip_white t) = Inr (d, u)"
  shows "gives parseexec (0x28 # s @ 0x29 # t) (d, u)"
proof -
  obtain k where k: "\<forall>n \<ge> k. parseline n (s @ 0x29 # t) = Some (Inr (cmd, 0x29 # t))"
    using assms(1) by (auto simp: gives_def)
  have "parseexec (Suc n) (0x28 # s @ 0x29 # t) = Some (Inr (d, u))" if n: "n \<ge> Suc k" for n
  proof -
    obtain m where "n = Suc m" "m \<ge> k"
      using n by (cases n) auto
    then show ?thesis
      using k assms(2,3) by (simp add: parse_step)
  qed
  then show ?thesis
    by (rule givesI)
qed

lemma gives_pipe_end:
  assumes "gives parseexec s (cmd, u)" "skip_white u = u" "char_at u \<noteq> 0x7C"
  shows "gives parsepipe s (cmd, u)"
proof -
  obtain k where "\<forall>n \<ge> k. parseexec n s = Some (Inr (cmd, u))"
    using assms(1) by (auto simp: gives_def)
  then show ?thesis
    using assms(2,3) by (intro givesI [of k]) (simp add: parse_step)
qed

lemma gives_pipe:
  assumes "gives parseexec s (cmd, 0x7C # u)" "skip_white u = u" "gives parsepipe u (right, v)"
  shows "gives parsepipe s (PIPE cmd right, v)"
proof -
  obtain k where "\<And>n. n \<ge> k \<Longrightarrow> parseexec n s = Some (Inr (cmd, 0x7C # u)) \<and> parsepipe n u = Some (Inr (right, v))"
    using gives_two [OF assms(1,3)] by blast
  then show ?thesis
    using assms(2) by (intro givesI [of k]) (simp add: parse_step)
qed

lemma parse_backs_none: "skip_white u = u \<Longrightarrow> char_at u \<noteq> 0x26 \<Longrightarrow> parse_backs cmd u = (cmd, u)"
  by (subst parse_backs.simps) (simp add: parse_step)

lemma gives_line_end:
  assumes "gives parsepipe s (cmd, u)" "parse_backs cmd u = (d, v)" "skip_white v = v" "char_at v \<noteq> 0x3B"
  shows "gives parseline s (d, v)"
proof -
  obtain k where "\<forall>n \<ge> k. parsepipe n s = Some (Inr (cmd, u))"
    using assms(1) by (auto simp: gives_def)
  then show ?thesis
    using assms(2-) by (intro givesI [of k]) (simp add: parse_step)
qed

lemma gives_line_plain:
  assumes "gives parsepipe s (cmd, u)" "skip_white u = u" "char_at u \<notin> {0x26, 0x3B}"
  shows "gives parseline s (cmd, u)"
  using assms by (intro gives_line_end [OF assms(1) parse_backs_none]) auto

lemma gives_line_list:
  assumes "gives parsepipe s (cmd, 0x3B # u)" "skip_white u = u" "gives parseline u (right, v)"
  shows "gives parseline s (LIST cmd right, v)"
proof -
  obtain k where "\<And>n. n \<ge> k \<Longrightarrow> parsepipe n s = Some (Inr (cmd, 0x3B # u)) \<and> parseline n u = Some (Inr (right, v))"
    using gives_two [OF assms(1,3)] by blast
  then show ?thesis
    using assms(2) parse_backs_none [of "0x3B # u"] by (intro givesI [of k]) (simp add: parse_step)
qed

text \<open>A command in parentheses, up to the byte after them.\<close>

lemma gives_parens:
  assumes "\<And>t. ends t \<Longrightarrow> gives parseline (unparse cmd @ t) (cmd, t)" "cmd_ok cmd"
    and "skip_white t = t" "char_at t \<notin> {0x3C, 0x3E}"
  shows "gives parseexec (0x28 # unparse cmd @ 0x29 # t) (cmd, t)"
proof (rule gives_block)
  show "gives parseline (unparse cmd @ 0x29 # t) (cmd, 0x29 # t)"
    using assms(1) [of "0x29 # t"] by (simp add: ends_def)
  show "skip_white (unparse cmd @ 0x29 # t) = unparse cmd @ 0x29 # t"
    using assms(2) by (simp add: unparse_first ends_def)
  show "parseredirs cmd (skip_white t) = Inr (cmd, t)"
    using assms(3,4) by (simp add: parseredirs_none)
qed

lemma gives_parens_pipe:
  assumes "\<And>t. ends t \<Longrightarrow> gives parseline (unparse cmd @ t) (cmd, t)" "cmd_ok cmd"
    and "skip_white t = t" "char_at t \<notin> {0x3C, 0x3E, 0x7C}"
  shows "gives parsepipe (0x28 # unparse cmd @ 0x29 # t) (cmd, t)"
  using assms by (intro gives_pipe_end gives_parens) auto

lemma gives_redir:
  assumes "\<And>t. ends t \<Longrightarrow> gives parseline (unparse cmd @ t) (cmd, t)" "cmd_ok (REDIR cmd q mode fd)" "ends t"
  shows "gives parseexec (unparse (REDIR cmd q mode fd) @ t) (REDIR cmd q mode fd, t)"
proof -
  let ?o = "if fd = 0 then 0x3C else 0x3E"
  have q: "word_ok q" and c: "cmd_ok cmd"
    using assms(2) by simp_all
  have g: "gettoken (?o # q @ t) = (?o, [?o], q @ t)"
    using q skip_white_word [OF q, of t] by (elim word_ok_first) (auto simp: gettoken_def str_def is_word_iff)
  have f: "gettoken (q @ t) = (0x61, q, t)"
    using gettoken_of_word [OF q, of t] ends_clean [OF assms(3)] by (auto simp: is_word_iff)
  have "parseredirs (REDIR cmd q mode fd) t = Inr (REDIR cmd q mode fd, t)"
    using ends_clean [OF assms(3)] by (intro parseredirs_none) auto
  then have "parseredirs cmd (skip_white (?o # q @ t)) = Inr (REDIR cmd q mode fd, t)"
    using assms(2) g f by (subst parseredirs.simps) (auto simp: peek_clean str_def)
  moreover have "gives parseline (unparse cmd @ 0x29 # ?o # q @ t) (cmd, 0x29 # ?o # q @ t)"
    using assms(1) by (simp add: ends_def)
  ultimately have "gives parseexec (0x28 # unparse cmd @ 0x29 # ?o # q @ t) (REDIR cmd q mode fd, t)"
    using unparse_first [OF c] by (intro gives_block) (auto simp: ends_def)
  then show ?thesis
    by (auto simp: str_def)
qed

lemma parse_unparse:
  "cmd_ok cmd \<Longrightarrow> ends t \<Longrightarrow> gives parseline (unparse cmd @ t) (cmd, t)"
proof (induction cmd arbitrary: t)
  case (EXEC ws)
  then show ?case
    using ends_clean [OF EXEC.prems(2)] by (intro gives_line_plain gives_pipe_end gives_words) auto
next
  case (REDIR cmd q mode fd)
  then have "gives parseexec (unparse (REDIR cmd q mode fd) @ t) (REDIR cmd q mode fd, t)"
    by (intro gives_redir) auto
  then show ?case
    using ends_clean [OF REDIR.prems(2)] by (intro gives_line_plain gives_pipe_end) auto
next
  case (PIPE left right)
  have "gives parsepipe (0x28 # unparse right @ 0x29 # t) (right, t)"
    using PIPE ends_clean [OF PIPE.prems(2)] by (intro gives_parens_pipe) auto
  then have "gives parsepipe (0x28 # unparse left @ 0x29 # 0x7C # 0x28 # unparse right @ 0x29 # t) (PIPE left right, t)"
    using PIPE by (intro gives_pipe [OF gives_parens]) auto
  then have "gives parseline (0x28 # unparse left @ 0x29 # 0x7C # 0x28 # unparse right @ 0x29 # t) (PIPE left right, t)"
    using ends_clean [OF PIPE.prems(2)] by (intro gives_line_plain) auto
  then show ?case
    by (simp add: str_def)
next
  case (LIST left right)
  have "gives parseline (0x28 # unparse right @ 0x29 # t) (right, t)"
    using LIST ends_clean [OF LIST.prems(2)] by (intro gives_line_plain [OF gives_parens_pipe]) auto
  then have "gives parseline (0x28 # unparse left @ 0x29 # 0x3B # 0x28 # unparse right @ 0x29 # t) (LIST left right, t)"
    using LIST by (intro gives_line_list [OF gives_parens_pipe]) auto
  then show ?case
    by (simp add: str_def)
next
  case (BACK cmd)
  have "parse_backs cmd (0x26 # t) = (BACK cmd, t)"
    using ends_clean [OF BACK.prems(2)] parse_backs_none [of t "BACK cmd"]
    by (subst parse_backs.simps) (auto simp: parse_step)
  moreover have "gives parsepipe (0x28 # unparse cmd @ 0x29 # 0x26 # t) (cmd, 0x26 # t)"
    using BACK by (intro gives_parens_pipe) auto
  ultimately have "gives parseline (0x28 # unparse cmd @ 0x29 # 0x26 # t) (BACK cmd, t)"
    using ends_clean [OF BACK.prems(2)] by (auto elim: gives_line_end)
  then show ?case
    by (simp add: str_def)
qed

text \<open>More fuel does not change a result.\<close>

lemma and_then_mono:
  assumes "and_then p g = Some r" "\<And>x. p = Some x \<Longrightarrow> p' = Some x" "\<And>x y. g x = Some y \<Longrightarrow> g' x = Some y"
  shows "and_then p' g' = Some r"
  using assms by (auto simp: and_then_def split: option.splits sum.splits)

lemma parse_mono:
  "parseline n s = Some r \<Longrightarrow> parseline (Suc n) s = Some r"
  "parsepipe n s = Some r \<Longrightarrow> parsepipe (Suc n) s = Some r"
  "parseblock n s = Some r \<Longrightarrow> parseblock (Suc n) s = Some r"
  "parseexec n s = Some r \<Longrightarrow> parseexec (Suc n) s = Some r"
proof (induction n arbitrary: s r)
  case (Suc n)
  {
    case 1
    from this [unfolded parseline.simps(2) [of n]] show ?case
      unfolding parseline.simps(2) [of "Suc n"]
      by (rule and_then_mono) (use Suc.IH(1,2) in \<open>auto simp del: parseline.simps parsepipe.simps intro: and_then_mono split: prod.splits if_splits\<close>)
  next
    case 2
    from this [unfolded parsepipe.simps(2) [of n]] show ?case
      unfolding parsepipe.simps(2) [of "Suc n"]
      by (rule and_then_mono) (use Suc.IH(2,4) in \<open>auto simp del: parsepipe.simps parseexec.simps intro: and_then_mono split: prod.splits if_splits\<close>)
  next
    case 3
    from this [unfolded parseblock.simps(2) [of n]] show ?case
      unfolding parseblock.simps(2) [of "Suc n"]
      using Suc.IH(1) by (auto simp del: parseline.simps intro: and_then_mono split: prod.splits if_splits)
  next
    case 4
    from this [unfolded parseexec.simps(2) [of n]] show ?case
      unfolding parseexec.simps(2) [of "Suc n"]
      using Suc.IH(3) by (auto simp del: parseblock.simps split: prod.splits if_splits)
  }
qed simp_all

lemma parseline_fuel: "parseline n s = Some r \<Longrightarrow> n \<le> m \<Longrightarrow> parseline m s = Some r"
  by (induction m) (auto simp: le_Suc_eq simp del: parseline.simps intro: parse_mono(1))

text \<open>C28. Parsing is inverse to printing: every well formed tree, of words, redirections, pipes, lists and
  background commands in any nesting, is read back by the parser from its text in parentheses.
\<close>

theorem parse_of_unparse:
  assumes "cmd_ok cmd"
  shows "parsecmd (unparse cmd) = Some (Inr cmd)"
proof -
  let ?s = "unparse cmd"
  obtain k where k: "\<forall>n \<ge> k. parseline n ?s = Some (Inr (cmd, []))"
    using parse_unparse [OF assms, of "[]"] by (auto simp: gives_def ends_def)
  obtain r where r: "parseline (4 * length ?s + 4) ?s = Some r"
    using parse_returns(1) [of ?s "4 * length ?s + 4"] by (auto simp: returns_within_def)
  then have "parseline (max k (4 * length ?s + 4)) ?s = Some r"
    by (rule parseline_fuel) simp
  then have "r = Inr (cmd, [])"
    using k by simp
  then show ?thesis
    using r by (simp add: parsecmd_def peek_def)
qed

theorem parse_of_unparse_witness:
  "parsecmd (str ''(ls )|((wc -l )>out)'') =
     Some (Inr (PIPE (EXEC [str ''ls'']) (REDIR (EXEC [str ''wc'', str ''-l'']) (str ''out'') (O_WRONLY OR O_CREATE) 1)))"
  using parse_of_unparse [of "PIPE (EXEC [str ''ls'']) (REDIR (EXEC [str ''wc'', str ''-l'']) (str ''out'') (O_WRONLY OR O_CREATE) 1)"]
  by (simp add: str_def word_ok_def is_word_iff MAXARGS_def)

end
