(* ===== verification/Xv6_Umalloc.thy ===== *)
theory Xv6_Umalloc
  imports Prelude "HOL-Library.Word" "HOL-Library.Monad_Syntax"
begin

text \<open>
  The allocator of the user programs of xv6, \<^verbatim>\<open>hw3/xv6/umalloc.c\<close>: a ring of free blocks in the order of their
  addresses, each with a header of 8 bytes, and a search that goes on where the last one ended. Sizes
  are in units of a header. The headers in memory are a map from addresses. \<open>granted\<close> is whether
  the kernel has the memory that \<^verbatim>\<open>sbrk\<close> asks for; the end of the memory of the process is \<open>brk\<close>. \<open>None\<close> is a
  loop that does not end, or a call of \<^verbatim>\<open>sbrk\<close> with a number that is not positive.
\<close>

section \<open>The allocator\<close>

record header =
  h_ptr :: nat
  h_size :: nat

record umem =
  hdrs :: "nat \<Rightarrow> header"
  freep :: nat
  base_sym :: nat
  brk :: nat

abbreviation uptr :: "umem \<Rightarrow> nat \<Rightarrow> nat" where "uptr s a \<equiv> h_ptr (hdrs s a)"

abbreviation usize :: "umem \<Rightarrow> nat \<Rightarrow> nat" where "usize s a \<equiv> h_size (hdrs s a)"

definition set_uptr :: "nat \<Rightarrow> nat \<Rightarrow> umem \<Rightarrow> umem" where
  "set_uptr a v s = s\<lparr>hdrs := (hdrs s)(a := (hdrs s a)\<lparr>h_ptr := v\<rparr>)\<rparr>"

definition set_usize :: "nat \<Rightarrow> nat \<Rightarrow> umem \<Rightarrow> umem" where
  "set_usize a v s = s\<lparr>hdrs := (hdrs s)(a := (hdrs s a)\<lparr>h_size := v\<rparr>)\<rparr>"

partial_function (option) free_find :: "umem \<Rightarrow> nat \<Rightarrow> nat \<Rightarrow> nat option" where
  "free_find s bp p =
     (if bp > p \<and> bp < uptr s p then Some p
      else if p \<ge> uptr s p \<and> (bp > p \<or> bp < uptr s p) then Some p
      else free_find s bp (uptr s p))"

definition ufree :: "nat \<Rightarrow> umem \<Rightarrow> umem option" where
  "ufree ap s = do {
     let bp = ap - 8;
     p \<leftarrow> free_find s bp (freep s);
     let q = uptr s p;
     let s = (if bp + 8 * usize s bp = q then set_uptr bp (uptr s q) (set_usize bp (usize s bp + usize s q) s)
              else set_uptr bp q s);
     let s = (if p + 8 * usize s p = bp then set_uptr p (uptr s bp) (set_usize p (usize s p + usize s bp) s)
              else set_uptr p bp s);
     Some (s\<lparr>freep := p\<rparr>)
   }"

definition morecore :: "bool \<Rightarrow> nat \<Rightarrow> umem \<Rightarrow> (nat \<times> umem) option" where
  "morecore granted nu s =
     (let nu = (if nu < 4096 then 4096 else nu);
          n = sint (word_of_nat (nu * 8) :: 32 word)
      in if n \<le> 0 then None
         else if \<not> granted then Some (0, s)
         else do {
           let p = brk s;
           s \<leftarrow> ufree (p + 8) (set_usize p nu (s\<lparr>brk := p + nat n\<rparr>));
           Some (freep s, s)
         })"

partial_function (option) malloc_loop :: "bool \<Rightarrow> nat \<Rightarrow> nat \<Rightarrow> nat \<Rightarrow> umem \<Rightarrow> (nat \<times> umem) option" where
  "malloc_loop granted nunits prevp p s =
     (if usize s p \<ge> nunits then
        (if usize s p = nunits then Some (p + 8, (set_uptr prevp (uptr s p) s)\<lparr>freep := prevp\<rparr>)
         else
           (let s = set_usize p (usize s p - nunits) s;
                p = p + 8 * usize s p;
                s = set_usize p nunits s
            in Some (p + 8, s\<lparr>freep := prevp\<rparr>)))
      else if p = freep s then
        do {
          (p, s) \<leftarrow> morecore granted nunits s;
          if p = 0 then Some (0, s) else malloc_loop granted nunits p (uptr s p) s
        }
      else malloc_loop granted nunits p (uptr s p) s)"

definition nunits_of :: "32 word \<Rightarrow> nat" where
  "nunits_of nbytes = unat ((nbytes + 8 - 1) div 8 + 1)"

definition malloc :: "bool \<Rightarrow> 32 word \<Rightarrow> umem \<Rightarrow> (nat \<times> umem) option" where
  "malloc granted nbytes s =
     (let s = (if freep s = 0 then set_usize (base_sym s) 0 (set_uptr (base_sym s) (base_sym s) (s\<lparr>freep := base_sym s\<rparr>)) else s)
      in malloc_loop granted (nunits_of nbytes) (freep s) (uptr s (freep s)) s)"

section \<open>The ring in memory\<close>

lemma set_uptr_simps [simp]:
  "uptr (set_uptr a v s) b = (if b = a then v else uptr s b)" "usize (set_uptr a v s) b = usize s b"
  "freep (set_uptr a v s) = freep s" "base_sym (set_uptr a v s) = base_sym s" "brk (set_uptr a v s) = brk s"
  by (simp_all add: set_uptr_def)

lemma set_usize_simps [simp]:
  "usize (set_usize a v s) b = (if b = a then v else usize s b)" "uptr (set_usize a v s) b = uptr s b"
  "freep (set_usize a v s) = freep s" "base_sym (set_usize a v s) = base_sym s" "brk (set_usize a v s) = brk s"
  by (simp_all add: set_usize_def)

text \<open>The blocks on the way from one header to another, and their order, with a gap after each.\<close>

fun blocks :: "umem \<Rightarrow> nat \<Rightarrow> (nat \<times> nat) list \<Rightarrow> nat \<Rightarrow> bool" where
  "blocks s a [] e \<longleftrightarrow> a = e"
| "blocks s a ((b, n) # bs) e \<longleftrightarrow> a = b \<and> usize s b = n \<and> blocks s (uptr s b) bs e"

fun apart :: "nat \<times> nat \<Rightarrow> nat \<times> nat \<Rightarrow> bool" where
  "apart (b, n) (c, k) \<longleftrightarrow> b + 8 * n < c"

definition cells :: "(nat \<times> nat) list \<Rightarrow> nat set" where
  "cells bs = (\<Union>(b, n) \<in> set bs. {b..<b + 8 * n})"

definition ring :: "umem \<Rightarrow> (nat \<times> nat) list \<Rightarrow> bool" where
  "ring s bs \<longleftrightarrow> blocks s (base_sym s) ((base_sym s, 0) # bs) (base_sym s) \<and>
     sorted_wrt apart ((base_sym s, 0) # bs) \<and> (\<forall>(b, n) \<in> set bs. 0 < n) \<and>
     freep s \<in> insert (base_sym s) (fst ` set bs)"

lemma blocks_append: "blocks s a (xs @ ys) e \<longleftrightarrow> (\<exists>m. blocks s a xs m \<and> blocks s m ys e)"
  by (induction xs arbitrary: a) auto

lemma blocks_frame:
  "blocks s a bs e \<Longrightarrow> \<forall>x. x \<noteq> p \<longrightarrow> hdrs t x = hdrs s x \<Longrightarrow> p \<notin> fst ` set bs \<Longrightarrow> blocks t a bs e"
  by (induction bs arbitrary: a) auto

lemma blocks_freep [simp]: "blocks (s\<lparr>freep := f\<rparr>) a bs e = blocks s a bs e" "blocks (s\<lparr>brk := f\<rparr>) a bs e = blocks s a bs e"
  by (induction bs arbitrary: a) auto

lemma cells_simps [simp]:
  "cells [] = {}" "cells ((b, n) # bs) = {b..<b + 8 * n} \<union> cells bs" "cells (xs @ ys) = cells xs \<union> cells ys"
  by (auto simp: cells_def)

text \<open>The search of \<^verbatim>\<open>free\<close> from a block in front of the one to free, and from one behind it.\<close>

lemma free_find_up:
  assumes "blocks s p ((p, n) # ys) e" "sorted_wrt apart ((p, n) # ys)" "p < bp" "bp \<notin> fst ` set ys" "e \<le> p"
  shows "free_find s bp p = Some (last (p # filter (\<lambda>a. a < bp) (map fst ys)))"
  using assms
proof (induction ys arbitrary: p n)
  case Nil
  then show ?case
    by (subst free_find.simps) auto
next
  case (Cons y ys)
  obtain c m where y: "y = (c, m)"
    by (cases y)
  have c: "p < c" "c \<noteq> bp" "uptr s p = c" "sorted_wrt apart ((c, m) # ys)" "blocks s c ((c, m) # ys) e"
    using Cons.prems y by auto
  show ?case
  proof (cases "bp < c")
    case True
    then have "filter (\<lambda>a. a < bp) (map fst ys) = []"
      using c(4) by (fastforce simp: filter_empty_conv)
    then show ?thesis
      using True c Cons.prems(3) y by (subst free_find.simps) simp
  next
    case False
    then have "free_find s bp c = Some (last (c # filter (\<lambda>a. a < bp) (map fst ys)))"
      using Cons.IH [OF c(5,4)] Cons.prems c by auto
    then show ?thesis
      using False c y by (subst free_find.simps) simp
  qed
qed

lemma free_find_wrap:
  assumes "blocks s p ((p, n) # ys) e" "sorted_wrt apart ((p, n) # ys)" "bp < p" "e < bp"
  shows "free_find s bp p = free_find s bp e"
  using assms
proof (induction ys arbitrary: p n)
  case Nil
  then show ?case
    by (subst free_find.simps) auto
next
  case (Cons y ys)
  obtain c m where y: "y = (c, m)"
    by (cases y)
  have c: "p < c" "uptr s p = c" "sorted_wrt apart ((c, m) # ys)" "blocks s c ((c, m) # ys) e"
    using Cons.prems y by auto
  have "free_find s bp p = free_find s bp c"
    using c Cons.prems(3) by (subst free_find.simps) auto
  then show ?case
    using Cons.IH [OF c(4,3)] Cons.prems c by simp
qed

lemma free_find_ring:
  assumes "ring s bs" "base_sym s < bp" "bp \<notin> fst ` set bs"
  shows "free_find s bp (freep s) = Some (last (base_sym s # filter (\<lambda>a. a < bp) (map fst bs)))"
proof -
  let ?b = "base_sym s"
  have r: "blocks s ?b ((?b, 0) # bs) ?b" "sorted_wrt apart ((?b, 0) # bs)" "freep s = ?b \<or> freep s \<in> fst ` set bs"
    using assms(1) by (auto simp: ring_def)
  have base: "free_find s bp ?b = Some (last (?b # filter (\<lambda>a. a < bp) (map fst bs)))"
    using free_find_up [OF r(1,2) assms(2,3)] by simp
  show ?thesis
  proof (cases "freep s = ?b")
    case False
    then obtain n xs ys where bs: "bs = xs @ (freep s, n) # ys"
      using r(3) by (force dest: split_list)
    then have f: "blocks s (freep s) ((freep s, n) # ys) ?b" "sorted_wrt apart ((freep s, n) # ys)"
      using r(1,2) by (auto simp: blocks_append sorted_wrt_append)
    show ?thesis
    proof (cases "bp < freep s")
      case True
      then show ?thesis
        using free_find_wrap [OF f True assms(2)] base by simp
    next
      case gt: False
      have "bp \<notin> fst ` set ys" "?b < freep s" "freep s < bp"
        using assms(3) bs r(2) gt by (auto simp: nat_less_le)
      then show ?thesis
        using free_find_up [OF f] bs by simp
    qed
  qed (simp add: base)
qed

lemma split_at:
  assumes "sorted_wrt apart zs" "bp \<notin> fst ` set zs"
  obtains xs ys where "zs = xs @ ys" "\<forall>x \<in> set xs. fst x < bp" "\<forall>y \<in> set ys. bp < fst y"
proof -
  have "\<exists>xs ys. zs = xs @ ys \<and> (\<forall>x \<in> set xs. fst x < bp) \<and> (\<forall>y \<in> set ys. bp < fst y)"
    using assms
  proof (induction zs)
    case (Cons z zs)
    then obtain xs ys where IH: "zs = xs @ ys" "\<forall>x \<in> set xs. fst x < bp" "\<forall>y \<in> set ys. bp < fst y"
      by auto
    show ?case
    proof (cases "fst z < bp")
      case True
      then show ?thesis
        using IH by (intro exI [of _ "z # xs"] exI [of _ ys]) auto
    next
      case False
      moreover have "\<forall>y \<in> set zs. fst z < fst y"
        using Cons.prems(1) by (cases z) auto
      ultimately show ?thesis
        using Cons.prems(2) by (intro exI [of _ "[]"] exI [of _ "z # zs"]) (auto simp: nat_neq_iff)
    qed
  qed simp
  then show thesis
    using that by blast
qed

lemma free_place:
  assumes "ring s bs" "base_sym s < bp" "bp \<notin> fst ` set bs"
  obtains us p m ys where "(base_sym s, 0) # bs = us @ (p, m) # ys" "free_find s bp (freep s) = Some p" "p < bp"
    "\<forall>y \<in> set ys. bp < fst y"
proof -
  let ?z = "(base_sym s, 0) # bs"
  have "sorted_wrt apart ?z" "bp \<notin> fst ` set ?z"
    using assms by (auto simp: ring_def)
  then obtain xs ys where z: "?z = xs @ ys" "\<forall>x \<in> set xs. fst x < bp" "\<forall>y \<in> set ys. bp < fst y"
    by (rule split_at)
  then obtain xs' where xs: "xs = (base_sym s, 0) # xs'" "bs = xs' @ ys"
    using assms(2) by (cases xs) auto
  have "filter (\<lambda>a. a < bp) (map fst bs) = map fst xs'"
    using z xs by (auto simp: filter_empty_conv intro!: filter_True)
  then have "free_find s bp (freep s) = Some (fst (last xs))"
    using free_find_ring [OF assms] xs by (simp add: last_map)
  then show thesis
    using that [of "butlast xs" "fst (last xs)" "snd (last xs)" ys] z xs by simp
qed

text \<open>What \<^verbatim>\<open>free\<close> does to the ring: the block joins the one after it and the one before it when it touches them.\<close>

fun join_right :: "nat \<times> nat \<Rightarrow> (nat \<times> nat) list \<Rightarrow> (nat \<times> nat) list" where
  "join_right (b, n) ((q, k) # ys) = (if b + 8 * n = q then (b, n + k) # ys else (b, n) # (q, k) # ys)"
| "join_right (b, n) [] = [(b, n)]"

fun join_left :: "nat \<times> nat \<Rightarrow> (nat \<times> nat) list \<Rightarrow> (nat \<times> nat) list" where
  "join_left (p, m) ((b, n) # ys) = (if p + 8 * m = b then (p, m + n) # ys else (p, m) # (b, n) # ys)"
| "join_left (p, m) [] = [(p, m)]"

lemma join_right_blocks:
  assumes "blocks s q ys e" "usize s bp = n" "e < bp" "distinct (map fst ys)" "bp \<notin> fst ` set ys"
  defines "t \<equiv> (if bp + 8 * usize s bp = q then set_uptr bp (uptr s q) (set_usize bp (usize s bp + usize s q) s) else set_uptr bp q s)"
  shows "blocks t bp (join_right (bp, n) ys) e" "\<forall>x. x \<noteq> bp \<longrightarrow> hdrs t x = hdrs s x"
    "freep t = freep s" "base_sym t = base_sym s" "brk t = brk s"
proof -
  show same: "\<forall>x. x \<noteq> bp \<longrightarrow> hdrs t x = hdrs s x"
    by (simp add: t_def set_uptr_def set_usize_def)
  show "blocks t bp (join_right (bp, n) ys) e"
  proof (cases ys)
    case Nil
    then show ?thesis
      using assms by simp
  next
    case (Cons y r)
    obtain c k where y: "y = (c, k)"
      by (cases y)
    have "blocks s (uptr s c) r e" "bp \<notin> fst ` set r"
      using assms(1,5) Cons y by auto
    then have "blocks t (uptr s c) r e"
      using same by (blast intro: blocks_frame)
    moreover have "c \<noteq> bp" "q = c" "usize s c = k"
      using assms(1,5) Cons y by auto
    moreover have "uptr t c = uptr s c" "usize t c = usize s c"
      using same \<open>c \<noteq> bp\<close> by simp_all
    ultimately show ?thesis
      using assms(2) Cons y by (cases "bp + 8 * n = c") (simp_all add: t_def)
  qed
qed (simp_all add: t_def)

lemma join_left_blocks:
  assumes "blocks s a us p" "blocks s bp ((bp, n) # ys) e" "usize s p = m" "p \<noteq> bp" "p \<notin> fst ` set us" "p \<notin> fst ` set ys"
    and "bp \<notin> fst ` set us"
  defines "t \<equiv> (if p + 8 * usize s p = bp then set_uptr p (uptr s bp) (set_usize p (usize s p + usize s bp) s) else set_uptr p bp s)"
  shows "blocks t a (us @ join_left (p, m) ((bp, n) # ys)) e" "\<forall>x. x \<noteq> p \<longrightarrow> hdrs t x = hdrs s x"
    "freep t = freep s" "base_sym t = base_sym s" "brk t = brk s"
proof -
  show same: "\<forall>x. x \<noteq> p \<longrightarrow> hdrs t x = hdrs s x"
    by (simp add: t_def set_uptr_def set_usize_def)
  have "blocks t a us p"
    using assms(1) same assms(5) by (rule blocks_frame)
  moreover have "blocks s (uptr s bp) ys e"
    using assms(2) by simp
  then have "blocks t (uptr s bp) ys e"
    using same assms(6) by (rule blocks_frame)
  moreover have "uptr t bp = uptr s bp" "usize t bp = n"
    using same assms(2,4) by auto
  ultimately show "blocks t a (us @ join_left (p, m) ((bp, n) # ys)) e"
    using assms(2-4) by (cases "p + 8 * m = bp") (simp_all add: t_def blocks_append)
qed (simp_all add: t_def)

lemma join_right_shape:
  obtains k r where "join_right (b, n) ys = (b, k) # r" "n \<le> k" "set r \<subseteq> set ys"
proof -
  have "\<exists>k r. join_right (b, n) ys = (b, k) # r \<and> n \<le> k \<and> set r \<subseteq> set ys"
    by (cases ys) auto
  then show thesis
    using that by blast
qed

lemma ufree_blocks:
  assumes "blocks s e (us @ (p, m) # ys) e" "free_find s bp (freep s) = Some p" "usize s bp = n" "e < bp"
    and "distinct (map fst (us @ (p, m) # ys))" "bp \<notin> fst ` set (us @ (p, m) # ys)"
  obtains t where "ufree (bp + 8) s = Some t" "blocks t e (us @ join_left (p, m) (join_right (bp, n) ys)) e"
    "freep t = p" "base_sym t = base_sym s" "brk t = brk s" "\<forall>x. x \<noteq> p \<and> x \<noteq> bp \<longrightarrow> hdrs t x = hdrs s x"
proof -
  let ?q = "uptr s p"
  have b: "blocks s e us p" "usize s p = m" "blocks s ?q ys e"
    using assms(1) by (auto simp: blocks_append)
  define s1 where "s1 = (if bp + 8 * usize s bp = ?q then set_uptr bp (uptr s ?q) (set_usize bp (usize s bp + usize s ?q) s) else set_uptr bp ?q s)"
  define t where "t = (if p + 8 * usize s1 p = bp then set_uptr p (uptr s1 bp) (set_usize p (usize s1 p + usize s1 bp) s1) else set_uptr p bp s1)"
  have d: "distinct (map fst ys)" "bp \<notin> fst ` set ys" "p \<notin> fst ` set us" "p \<notin> fst ` set ys" "p \<noteq> bp" "bp \<notin> fst ` set us"
    using assms(5,6) by auto
  note 1 = join_right_blocks [OF b(3) assms(3,4) d(1,2), folded s1_def]
  obtain k r where j: "join_right (bp, n) ys = (bp, k) # r" "set r \<subseteq> set ys"
    by (rule join_right_shape)
  have "blocks s1 e us p"
    using b(1) 1(2) d(6) by (rule blocks_frame)
  moreover have "usize s1 p = m"
    using b 1(2) d by simp
  moreover have "p \<notin> fst ` set r"
    using j d(4) by auto
  ultimately have 2: "blocks t e (us @ join_left (p, m) ((bp, k) # r)) e" "\<forall>x. x \<noteq> p \<longrightarrow> hdrs t x = hdrs s1 x"
    "freep t = freep s1" "base_sym t = base_sym s1" "brk t = brk s1"
    using join_left_blocks [of s1 e us p bp k r e m, folded t_def] 1(1) j(1) d by simp_all
  have "ufree (bp + 8) s = Some (t\<lparr>freep := p\<rparr>)"
    using assms(2) by (simp add: ufree_def s1_def t_def Let_def)
  moreover have "blocks (t\<lparr>freep := p\<rparr>) e (us @ join_left (p, m) (join_right (bp, n) ys)) e"
    using 2(1) j(1) by simp
  ultimately show thesis
    using that 1 2 by simp
qed

lemma join_right_ok:
  assumes "sorted_wrt apart ys" "\<forall>(c, k) \<in> set ys. b + 8 * n \<le> c \<and> 0 < k" "0 < n"
  shows "sorted_wrt apart (join_right (b, n) ys)" "cells (join_right (b, n) ys) = {b..<b + 8 * n} \<union> cells ys"
    "\<forall>(c, k) \<in> set (join_right (b, n) ys). b \<le> c \<and> 0 < k" "\<forall>x \<in> insert (b, n) (set ys). \<exists>v \<in> set (join_right (b, n) ys). snd x \<le> snd v"
proof -
  have "sorted_wrt apart (join_right (b, n) ys) \<and> cells (join_right (b, n) ys) = {b..<b + 8 * n} \<union> cells ys \<and>
    (\<forall>(c, k) \<in> set (join_right (b, n) ys). b \<le> c \<and> 0 < k) \<and> (\<forall>x \<in> insert (b, n) (set ys). \<exists>v \<in> set (join_right (b, n) ys). snd x \<le> snd v)"
  proof (cases ys)
    case (Cons y r)
    obtain q k where y: "y = (q, k)"
      by (cases y)
    have r: "\<forall>(c, l) \<in> set r. q + 8 * k < c" "b + 8 * n \<le> q" "0 < k"
      using assms(1,2) Cons y by auto
    show ?thesis
    proof (cases "b + 8 * n = q")
      case True
      have "{b..<b + 8 * (n + k)} = {b..<b + 8 * n} \<union> {q..<q + 8 * k}"
        using True by auto
      moreover have "\<forall>x \<in> set r. apart (b, n + k) x"
        using r(1) True by auto
      ultimately show ?thesis
        using True assms Cons y r by fastforce
    next
      case False
      then show ?thesis
        using assms Cons y r by fastforce
    qed
  qed (use assms in auto)
  then show "sorted_wrt apart (join_right (b, n) ys)" "cells (join_right (b, n) ys) = {b..<b + 8 * n} \<union> cells ys"
    "\<forall>(c, k) \<in> set (join_right (b, n) ys). b \<le> c \<and> 0 < k" "\<forall>x \<in> insert (b, n) (set ys). \<exists>v \<in> set (join_right (b, n) ys). snd x \<le> snd v"
    by blast+
qed

lemma join_left_ok:
  assumes "sorted_wrt apart ((b, n) # ys)" "p + 8 * m \<le> b"
  shows "sorted_wrt apart (join_left (p, m) ((b, n) # ys))"
    "cells (join_left (p, m) ((b, n) # ys)) = {p..<p + 8 * m} \<union> cells ((b, n) # ys)"
    "\<forall>x \<in> set (join_left (p, m) ((b, n) # ys)). p \<le> fst x"
    "\<forall>x \<in> set ((p, m) # (b, n) # ys). \<exists>v \<in> set (join_left (p, m) ((b, n) # ys)). snd x \<le> snd v"
proof -
  have "{p..<p + 8 * (m + n)} = {p..<p + 8 * m} \<union> {b..<b + 8 * n}" if "p + 8 * m = b"
    using that by auto
  then show "cells (join_left (p, m) ((b, n) # ys)) = {p..<p + 8 * m} \<union> cells ((b, n) # ys)"
    by auto
  have b: "\<forall>x \<in> set ys. b < fst x"
    using assms(1) by auto
  show "\<forall>x \<in> set (join_left (p, m) ((b, n) # ys)). p \<le> fst x"
    using b assms(2) by (auto split: if_splits)
  show "sorted_wrt apart (join_left (p, m) ((b, n) # ys))"
    using assms by fastforce
  show "\<forall>x \<in> set ((p, m) # (b, n) # ys). \<exists>v \<in> set (join_left (p, m) ((b, n) # ys)). snd x \<le> snd v"
    by auto
qed

lemma sorted_apart_distinct: "sorted_wrt apart zs \<Longrightarrow> distinct (map fst zs)"
  by (induction zs) fastforce+

lemma join_left_pos:
  "\<forall>x \<in> set ((b, k) # y). 0 < snd x \<Longrightarrow> \<forall>x \<in> set (us @ [(p, m)]). fst x = e \<or> 0 < snd x \<Longrightarrow>
     \<forall>x \<in> set (us @ join_left (p, m) ((b, k) # y)). fst x = e \<or> 0 < snd x"
  by (auto split: if_splits)

lemma joins_grow:
  fixes b w p :: "nat \<times> nat"
  assumes "\<forall>x \<in> insert b (set ys). \<exists>v \<in> set (w # y). snd x \<le> snd v" "\<forall>x \<in> set (p # w # y). \<exists>v \<in> set j. snd x \<le> snd v"
    and "set bs \<subseteq> insert p (set us \<union> set ys)"
  shows "\<forall>x \<in> insert b (set bs). \<exists>v \<in> set us \<union> set j. snd x \<le> snd v"
proof
  fix x
  assume "x \<in> insert b (set bs)"
  then consider "x \<in> set us" | "x = p" | "x \<in> insert b (set ys)"
    using assms(3) by auto
  then show "\<exists>v \<in> set us \<union> set j. snd x \<le> snd v"
  proof cases
    case 3
    then obtain u where "u \<in> set (w # y)" "snd x \<le> snd u"
      using assms(1) by blast
    moreover then obtain v where "v \<in> set j" "snd u \<le> snd v"
      using assms(2) by auto
    ultimately show ?thesis
      by (meson UnI2 order_trans)
  qed (use assms(2) in auto)
qed

lemma grow_tail:
  fixes e :: nat
  assumes "\<forall>x \<in> B. \<exists>v \<in> insert (e, 0 :: nat) C. snd x \<le> snd v" "\<forall>x \<in> B. 0 < snd x"
  shows "\<forall>x \<in> B. \<exists>v \<in> C. snd x \<le> snd v"
  using assms by (metis insertE not_less snd_conv)

lemma insert_block:
  assumes z: "(e, 0) # bs = us @ (p, m) # ys" "sorted_wrt apart ((e, 0) # bs)" "\<forall>(b, k) \<in> set bs. 0 < k"
    and bp: "e < bp" "p + 8 * m \<le> bp" "\<forall>(c, k) \<in> set ys. bp + 8 * n \<le> c \<and> 0 < k" "0 < n"
  obtains bs' where "us @ join_left (p, m) (join_right (bp, n) ys) = (e, 0) # bs'" "sorted_wrt apart ((e, 0) # bs')"
    "\<forall>(b, k) \<in> set bs'. 0 < k" "cells bs' = cells bs \<union> {bp..<bp + 8 * n}" "p \<in> insert e (fst ` set bs')"
    "\<forall>x \<in> insert (bp, n) (set bs). \<exists>v \<in> set bs'. snd x \<le> snd v"
proof -
  have so: "sorted_wrt apart ys" "\<forall>u \<in> set us. apart u (p, m)" "sorted_wrt apart us"
    using z(2) unfolding z(1) by (auto simp: sorted_wrt_append)
  note jr = join_right_ok [OF so(1) bp(3,4)]
  obtain k y where y: "join_right (bp, n) ys = (bp, k) # y"
    by (rule join_right_shape)
  note jl = join_left_ok [OF jr(1) [unfolded y] bp(2)]
  let ?j = "join_left (p, m) ((bp, k) # y)"
  have "\<forall>u \<in> set us. \<forall>v \<in> set ?j. apart u v"
    using so(2) jl(3) by fastforce
  then have sorted: "sorted_wrt apart (us @ ?j)"
    using so(3) jl(1) by (simp add: sorted_wrt_append)
  have "\<exists>bs'. us @ ?j = (e, 0) # bs'"
    using z(1) bp(1) by (cases us) auto
  then obtain bs' where bs': "us @ ?j = (e, 0) # bs'" ..
  have zs: "set ((e, 0) # bs) = set (us @ (p, m) # ys)" "cells ((e, 0) # bs) = cells (us @ (p, m) # ys)"
    by (simp_all only: z(1))
  have bss: "set ((e, 0) # bs') = set (us @ ?j)" "cells ((e, 0) # bs') = cells (us @ ?j)"
    by (simp_all only: bs')
  have above: "\<forall>x \<in> set bs'. e < fst x"
    using sorted bs' by auto
  have "\<forall>x \<in> set ((bp, k) # y). 0 < snd x"
    using jr(3) y by auto
  moreover have "\<forall>x \<in> set (us @ [(p, m)]). fst x = e \<or> 0 < snd x"
    using zs(1) z(3) by auto
  ultimately have "\<forall>x \<in> set (us @ ?j). fst x = e \<or> 0 < snd x"
    by (rule join_left_pos)
  then have "\<forall>x \<in> set bs'. fst x = e \<or> 0 < snd x"
    unfolding bss(1) [symmetric] by simp
  then have pos: "\<forall>(b, k) \<in> set bs'. 0 < k"
    using above by fastforce
  have cells: "cells bs' = cells bs \<union> {bp..<bp + 8 * n}"
    using bss(2) zs(2) jl(2) jr(2) y by auto
  have "p \<in> fst ` set ?j"
    by auto
  then have "p \<in> fst ` set (us @ ?j)"
    by simp
  then have p: "p \<in> insert e (fst ` set bs')"
    unfolding bss(1) [symmetric] by simp
  have "set bs \<subseteq> insert (p, m) (set us \<union> set ys)"
    using zs(1) by auto
  then have "\<forall>x \<in> insert (bp, n) (set bs). \<exists>v \<in> set us \<union> set ?j. snd x \<le> snd v"
    using joins_grow [OF jr(4) [unfolded y] jl(4)] by simp
  then have "\<forall>x \<in> insert (bp, n) (set bs). \<exists>v \<in> insert (e, 0) (set bs'). snd x \<le> snd v"
    using bss(1) by simp
  then have grow: "\<forall>x \<in> insert (bp, n) (set bs). \<exists>v \<in> set bs'. snd x \<le> snd v"
    by (rule grow_tail) (use z(3) bp(4) in auto)
  show thesis
    using that [OF _ _ pos cells p grow] sorted bs' y by simp
qed

lemma free_block_place:
  assumes "ring s bs" "(base_sym s, 0) # bs = us @ (p, m) # ys" "p < bp" "\<forall>y \<in> set ys. bp < fst y"
    and "{bp..<bp + 8 * n} \<inter> cells bs = {}" "0 < n"
  shows "p + 8 * m \<le> bp" "\<forall>(c, k) \<in> set ys. bp + 8 * n \<le> c \<and> 0 < k"
proof -
  have pos: "\<forall>(b, k) \<in> set bs. 0 < k"
    using assms(1) by (auto simp: ring_def)
  have off: "bp \<notin> {c..<c + 8 * k}" "c \<notin> {bp..<bp + 8 * n}" if "(c, k) \<in> set bs" for c k
  proof -
    have "{c..<c + 8 * k} \<subseteq> cells bs" "0 < k"
      using that pos by (auto simp: cells_def)
    then show "bp \<notin> {c..<c + 8 * k}" "c \<notin> {bp..<bp + 8 * n}"
      using assms(5,6) by (auto simp: disjoint_iff subset_iff)
  qed
  have "(p, m) = (base_sym s, 0) \<or> (p, m) \<in> set bs"
    using assms(2) by (cases us) auto
  then show "p + 8 * m \<le> bp"
    using off(1) [of p m] assms(3) by auto
  have "set ys \<subseteq> set bs"
    using assms(2) by (cases us) auto
  then show "\<forall>(c, k) \<in> set ys. bp + 8 * n \<le> c \<and> 0 < k"
    using off(2) assms(4) pos by fastforce
qed

lemma ufree_ring:
  assumes "ring s bs" "usize s bp = n" "0 < n" "base_sym s < bp" "{bp..<bp + 8 * n} \<inter> cells bs = {}"
  obtains t bs' where "ufree (bp + 8) s = Some t" "ring t bs'" "cells bs' = cells bs \<union> {bp..<bp + 8 * n}"
    "base_sym t = base_sym s" "brk t = brk s"
    "\<forall>x. x \<notin> insert (base_sym s) (fst ` set bs) \<and> x \<noteq> bp \<longrightarrow> hdrs t x = hdrs s x"
    "\<forall>x \<in> insert (bp, n) (set bs). \<exists>v \<in> set bs'. snd x \<le> snd v"
proof -
  let ?b = "base_sym s"
  have r: "blocks s ?b ((?b, 0) # bs) ?b" "sorted_wrt apart ((?b, 0) # bs)" "\<forall>(b, k) \<in> set bs. 0 < k"
    using assms(1) by (auto simp: ring_def)
  have bp: "bp \<notin> fst ` set bs"
    using assms(3,5) r(3) by (fastforce simp: cells_def disjoint_iff)
  obtain us p m ys where z: "(?b, 0) # bs = us @ (p, m) # ys" and ff: "free_find s bp (freep s) = Some p" and
      p: "p < bp" "\<forall>y \<in> set ys. bp < fst y"
    using free_place [OF assms(1,4) bp] by metis
  have "bp \<notin> fst ` set (us @ (p, m) # ys)"
    using bp assms(4) unfolding z [symmetric] by auto
  then obtain t where t: "ufree (bp + 8) s = Some t" "blocks t ?b (us @ join_left (p, m) (join_right (bp, n) ys)) ?b"
    "freep t = p" "base_sym t = ?b" "brk t = brk s" "\<forall>x. x \<noteq> p \<and> x \<noteq> bp \<longrightarrow> hdrs t x = hdrs s x"
    using ufree_blocks [OF _ ff assms(2,4), of us m ys] r(1) sorted_apart_distinct [OF r(2)] unfolding z by metis
  note place = free_block_place [OF assms(1) z p assms(5,3)]
  obtain bs' where bs': "us @ join_left (p, m) (join_right (bp, n) ys) = (?b, 0) # bs'" "sorted_wrt apart ((?b, 0) # bs')"
    "\<forall>(b, k) \<in> set bs'. 0 < k" "cells bs' = cells bs \<union> {bp..<bp + 8 * n}" "p \<in> insert ?b (fst ` set bs')"
    "\<forall>x \<in> insert (bp, n) (set bs). \<exists>v \<in> set bs'. snd x \<le> snd v"
    using insert_block [OF z r(2,3) assms(4) place assms(3)] .
  have "(p, m) \<in> set ((?b, 0) # bs)"
    unfolding z by simp
  then have "p \<in> insert ?b (fst ` set bs)"
    by (auto intro: rev_image_eqI)
  then have "\<forall>x. x \<notin> insert ?b (fst ` set bs) \<and> x \<noteq> bp \<longrightarrow> hdrs t x = hdrs s x"
    using t(6) by auto
  moreover have "ring t bs'"
    using t(2-4) bs'(2,3,5) unfolding ring_def bs'(1) by simp
  ultimately show thesis
    using that [OF t(1)] t(4,5) bs'(4,6) by blast
qed

section \<open>The search for a block\<close>

text \<open>The loop of \<^verbatim>\<open>malloc\<close> at a block that is large enough, and its way along the ring up to there.\<close>

lemma malloc_loop_scan:
  assumes nd: "\<And>i. usize s (nd i) = sz i \<and> uptr s (nd i) = nd (Suc i)"
    and "freep s = nd (i + 1 + d)" "\<And>k. k < d \<Longrightarrow> nd (i + 1 + k) \<noteq> freep s"
  shows "(\<exists>k \<le> d. nu \<le> sz (i + 1 + k) \<and> malloc_loop g nu (nd i) (nd (i + 1)) s = malloc_loop g nu (nd (i + k)) (nd (i + 1 + k)) s) \<or>
     (\<forall>k \<le> d. sz (i + 1 + k) < nu) \<and>
     malloc_loop g nu (nd i) (nd (i + 1)) s =
       do { (p, s) \<leftarrow> morecore g nu s; if p = 0 then Some (0, s) else malloc_loop g nu p (uptr s p) s }"
  using assms(2,3)
proof (induction d arbitrary: i)
  case 0
  then show ?case
    using nd [of "i + 1"] by (cases "nu \<le> sz (i + 1)") (auto simp: malloc_loop.simps [of g nu "nd i"])
next
  case (Suc d)
  show ?case
  proof (cases "nu \<le> sz (i + 1)")
    case False
    then have step: "malloc_loop g nu (nd i) (nd (i + 1)) s = malloc_loop g nu (nd (Suc i)) (nd (Suc i + 1)) s"
      using nd [of "i + 1"] Suc.prems(2) [of 0] by (simp add: malloc_loop.simps [of g nu "nd i"])
    have "(\<exists>k \<le> d. nu \<le> sz (Suc i + 1 + k) \<and>
        malloc_loop g nu (nd (Suc i)) (nd (Suc i + 1)) s = malloc_loop g nu (nd (Suc i + k)) (nd (Suc i + 1 + k)) s) \<or>
      (\<forall>k \<le> d. sz (Suc i + 1 + k) < nu) \<and>
      malloc_loop g nu (nd (Suc i)) (nd (Suc i + 1)) s =
        do { (p, s) \<leftarrow> morecore g nu s; if p = 0 then Some (0, s) else malloc_loop g nu p (uptr s p) s }"
      using Suc.IH [of "Suc i"] Suc.prems(1) Suc.prems(2) [of "Suc _"] by simp
    then show ?thesis
    proof (elim disjE exE conjE)
      fix k
      assume "k \<le> d" "nu \<le> sz (Suc i + 1 + k)"
        "malloc_loop g nu (nd (Suc i)) (nd (Suc i + 1)) s = malloc_loop g nu (nd (Suc i + k)) (nd (Suc i + 1 + k)) s"
      then show ?thesis
        using step by (intro disjI1 exI [of _ "Suc k"]) simp
    next
      assume r: "\<forall>k \<le> d. sz (Suc i + 1 + k) < nu" "malloc_loop g nu (nd (Suc i)) (nd (Suc i + 1)) s =
        do { (p, s) \<leftarrow> morecore g nu s; if p = 0 then Some (0, s) else malloc_loop g nu p (uptr s p) s }"
      have "sz (i + 1 + k) < nu" if "k \<le> Suc d" for k
        using False r(1) that by (cases k) auto
      then show ?thesis
        using step r(2) by simp
    qed
  qed auto
qed

lemma blocks_nth:
  "blocks s a zs e \<Longrightarrow> i < length zs \<Longrightarrow>
     usize s (fst (zs ! i)) = snd (zs ! i) \<and> uptr s (fst (zs ! i)) = (if Suc i < length zs then fst (zs ! Suc i) else e)"
proof (induction zs arbitrary: a i)
  case (Cons z zs)
  then show ?case
    by (cases z; cases zs; cases i) auto
qed simp

lemma ring_nodes:
  assumes "ring s bs"
  defines "zs \<equiv> (base_sym s, 0) # bs"
  defines "nd \<equiv> \<lambda>i. fst (zs ! (i mod length zs))"
  shows "usize s (nd i) = snd (zs ! (i mod length zs)) \<and> uptr s (nd i) = nd (Suc i)"
proof -
  let ?i = "i mod length zs"
  have b: "blocks s (base_sym s) zs (base_sym s)" and l: "?i < length zs"
    using assms(1) by (auto simp: ring_def zs_def)
  have "Suc i mod length zs = (if Suc ?i < length zs then Suc ?i else 0)"
    using l by (simp add: mod_Suc)
  then show ?thesis
    using blocks_nth [OF b l] by (auto simp: nd_def zs_def)
qed

lemma around:
  fixes L :: nat
  assumes "0 < L"
  shows "Suc n mod L = 0 \<or> Suc n mod L = Suc (n mod L) \<and> Suc (n mod L) < L"
  using assms mod_less_divisor [OF assms, of n] by (cases "Suc (n mod L) = L") (auto simp: mod_Suc)

lemma cover:
  fixes L :: nat
  assumes "j < L" "i < L"
  obtains k where "k \<le> L - 1" "(j + 1 + k) mod L = i"
proof
  let ?k = "(i + L - (j + 1)) mod L"
  show "?k \<le> L - 1"
    using assms mod_less_divisor [of L "i + L - (j + 1)"] by linarith
  have "(j + 1 + ?k) mod L = (j + 1 + (i + L - (j + 1))) mod L"
    by (rule mod_add_right_eq)
  then show "(j + 1 + ?k) mod L = i"
    using assms by simp
qed

lemma ring_scan:
  assumes "ring s bs" "0 < nu"
  obtains (fit) us pp l b m ys where "(base_sym s, 0) # bs = us @ (pp, l) # (b, m) # ys" "nu \<le> m"
      "malloc_loop g nu (freep s) (uptr s (freep s)) s = malloc_loop g nu pp b s"
  | (full) "\<forall>x \<in> set bs. snd x < nu" "malloc_loop g nu (freep s) (uptr s (freep s)) s =
      do { (p, s) \<leftarrow> morecore g nu s; if p = 0 then Some (0, s) else malloc_loop g nu p (uptr s p) s }"
proof -
  define zs where "zs = (base_sym s, 0) # bs"
  define L where "L = length zs"
  define nd where "nd = (\<lambda>i. fst (zs ! (i mod L)))"
  define sz where "sz = (\<lambda>i. snd (zs ! (i mod L)))"
  have L: "0 < L"
    by (simp add: L_def zs_def)
  have nodes: "\<And>i. usize s (nd i) = sz i \<and> uptr s (nd i) = nd (Suc i)"
    using ring_nodes [OF assms(1)] by (simp add: nd_def sz_def L_def zs_def)
  have "sorted_wrt apart zs" "freep s \<in> fst ` set zs"
    using assms(1) by (auto simp: ring_def zs_def)
  then obtain j where j: "j < L" "freep s = nd j" and d: "distinct (map fst zs)"
    using sorted_apart_distinct by (auto simp: in_set_conv_nth nd_def L_def)
  have "nd (j + 1 + k) \<noteq> freep s" if "k < L - 1" for k
  proof -
    have "(j + 1 + k) mod L < L" "(j + 1 + k) mod L \<noteq> j"
      using that j(1) by (auto simp: mod_if)
    then show ?thesis
      using j d nth_eq_iff_index_eq [OF d, of "(j + 1 + k) mod L" j] by (simp add: nd_def L_def)
  qed
  moreover have "freep s = nd (j + 1 + (L - 1))"
    using j L by (simp add: nd_def)
  ultimately have "(\<exists>k \<le> L - 1. nu \<le> sz (j + 1 + k) \<and> malloc_loop g nu (nd j) (nd (j + 1)) s = malloc_loop g nu (nd (j + k)) (nd (j + 1 + k)) s) \<or>
     (\<forall>k \<le> L - 1. sz (j + 1 + k) < nu) \<and> malloc_loop g nu (nd j) (nd (j + 1)) s =
       do { (p, s) \<leftarrow> morecore g nu s; if p = 0 then Some (0, s) else malloc_loop g nu p (uptr s p) s }"
    using malloc_loop_scan [where s = s and nd = nd and sz = sz and i = j and d = "L - 1", OF nodes] by blast
  moreover have start: "malloc_loop g nu (freep s) (uptr s (freep s)) s = malloc_loop g nu (nd j) (nd (j + 1)) s"
    using nodes [of j] j by simp
  ultimately show thesis
  proof (elim disjE exE conjE)
    fix k
    assume k: "nu \<le> sz (j + 1 + k)" "malloc_loop g nu (nd j) (nd (j + 1)) s = malloc_loop g nu (nd (j + k)) (nd (j + 1 + k)) s"
    define u where "u = (j + k) mod L"
    have "(j + 1 + k) mod L \<noteq> 0"
      using k(1) assms(2) by (intro notI) (simp add: sz_def zs_def)
    then have u: "(j + 1 + k) mod L = Suc u" "Suc u < L"
      using around [OF L, of "j + k"] by (auto simp: u_def)
    have drop: "drop (Suc u) zs = zs ! Suc u # drop (Suc (Suc u)) zs"
      using u by (simp add: L_def Cons_nth_drop_Suc)
    have "zs = take u zs @ zs ! u # drop (Suc u) zs"
      by (rule id_take_nth_drop) (use u L_def in simp)
    then have z: "(base_sym s, 0) # bs = take u zs @ (nd (j + k), sz (j + k)) # (nd (j + 1 + k), sz (j + 1 + k)) # drop (Suc (Suc u)) zs"
      unfolding drop nd_def sz_def u_def [symmetric] u(1) prod.collapse unfolding zs_def .
    show thesis
      using fit [OF z k(1)] start k(2) by simp
  next
    assume r: "\<forall>k \<le> L - 1. sz (j + 1 + k) < nu" "malloc_loop g nu (nd j) (nd (j + 1)) s =
       do { (p, s) \<leftarrow> morecore g nu s; if p = 0 then Some (0, s) else malloc_loop g nu p (uptr s p) s }"
    have "snd x < nu" if "x \<in> set bs" for x
    proof -
      obtain i where "i < L" "x = zs ! i"
        using \<open>x \<in> set bs\<close> by (auto simp: in_set_conv_nth zs_def L_def intro: that [of "Suc _"])
      then show ?thesis
        using cover [OF j(1)] r(1) unfolding sz_def by metis
    qed
    then show thesis
      using full start r(2) by simp
  qed
qed

lemma cells_disjoint:
  assumes "sorted_wrt apart (xs @ (b, m) # ys)"
  shows "cells (xs @ ys) \<inter> {b..<b + 8 * m} = {}"
  using assms by (fastforce simp: sorted_wrt_append cells_def)

lemma unlink_block:
  assumes "blocks s e (us @ (pp, l) # (b, m) # ys) e" "distinct (map fst (us @ (pp, l) # (b, m) # ys))"
  shows "blocks (set_uptr pp (uptr s b) s) e (us @ (pp, l) # ys) e"
proof -
  let ?t = "set_uptr pp (uptr s b) s"
  have same: "\<forall>x. x \<noteq> pp \<longrightarrow> hdrs ?t x = hdrs s x"
    by (simp add: set_uptr_def)
  have "blocks s e us pp" "blocks s (uptr s b) ys e" "pp \<notin> fst ` set us" "pp \<notin> fst ` set ys"
    using assms by (auto simp: blocks_append)
  then have "blocks ?t e us pp" "blocks ?t (uptr s b) ys e"
    using blocks_frame [OF _ same] by blast+
  then show ?thesis
    using assms(1) by (auto simp: blocks_append)
qed

lemma shrink_block:
  assumes "blocks s e (us @ (b, m) # ys) e" "distinct (map fst (us @ (b, m) # ys))" "a \<notin> fst ` set (us @ (b, m) # ys)"
  shows "blocks (set_usize a nu (set_usize b k s)) e (us @ (b, k) # ys) e"
proof -
  let ?t = "set_usize b k s"
  let ?u = "set_usize a nu ?t"
  have same: "\<forall>x. x \<noteq> b \<longrightarrow> hdrs ?t x = hdrs s x" "\<forall>x. x \<noteq> a \<longrightarrow> hdrs ?u x = hdrs ?t x"
    by (simp_all add: set_usize_def)
  have "blocks s e us b" "blocks s (uptr s b) ys e" "b \<notin> fst ` set us" "b \<notin> fst ` set ys"
    using assms by (auto simp: blocks_append)
  then have "blocks ?t e us b" "blocks ?t (uptr s b) ys e"
    using blocks_frame [OF _ same(1)] by blast+
  then have "blocks ?t e (us @ (b, k) # ys) e"
    by (auto simp: blocks_append)
  then show ?thesis
    using blocks_frame [OF _ same(2)] assms(3) by auto
qed

lemma take_loop:
  assumes "blocks s e (us @ (pp, l) # (b, m) # ys) e" "distinct (map fst (us @ (pp, l) # (b, m) # ys))" "nu \<le> m"
    and "m \<noteq> nu \<longrightarrow> b + 8 * (m - nu) \<notin> fst ` set (us @ (pp, l) # (b, m) # ys)"
  defines "a \<equiv> b + 8 * (m - nu)"
  obtains t where "malloc_loop g nu pp b s = Some (a + 8, t)" "blocks t e (us @ (pp, l) # (if m = nu then ys else (b, m - nu) # ys)) e"
    "usize t a = nu" "freep t = pp" "base_sym t = base_sym s" "brk t = brk s" "\<forall>x. x \<noteq> pp \<and> x \<noteq> b \<and> x \<noteq> a \<longrightarrow> hdrs t x = hdrs s x"
proof (cases "m = nu")
  case True
  have b: "usize s b = m"
    using assms(1) by (auto simp: blocks_append)
  have "\<forall>x. x \<noteq> pp \<and> x \<noteq> b \<and> x \<noteq> a \<longrightarrow> hdrs (set_uptr pp (uptr s b) s) x = hdrs s x"
    by (simp add: set_uptr_def)
  then show thesis
    using that [of "(set_uptr pp (uptr s b) s)\<lparr>freep := pp\<rparr>"] unlink_block [OF assms(1,2)] b True
    by (simp add: malloc_loop.simps [of g nu pp b] a_def)
next
  case False
  have b: "usize s b = m"
    using assms(1) by (auto simp: blocks_append)
  have "blocks (set_usize a nu (set_usize b (m - nu) s)) e (us @ (pp, l) # (b, m - nu) # ys) e"
    using shrink_block [of s e "us @ [(pp, l)]" b m ys a nu "m - nu"] assms(1,2,4) False by (simp add: a_def)
  moreover have "\<forall>x. x \<noteq> pp \<and> x \<noteq> b \<and> x \<noteq> a \<longrightarrow> hdrs (set_usize a nu (set_usize b (m - nu) s)) x = hdrs s x"
    by (simp add: set_usize_def)
  moreover have "malloc_loop g nu pp b s = Some (a + 8, (set_usize a nu (set_usize b (m - nu) s))\<lparr>freep := pp\<rparr>)"
    by (subst malloc_loop.simps) (simp add: b False assms(3) a_def Let_def)
  ultimately show thesis
    using that [of "(set_usize a nu (set_usize b (m - nu) s))\<lparr>freep := pp\<rparr>"] False by simp
qed

lemma take_list:
  assumes "(e, 0) # bs = us @ (pp, l) # (b, m) # ys" "sorted_wrt apart ((e, 0) # bs)" "\<forall>x \<in> set bs. 0 < snd x" "nu \<le> m" "0 < nu"
  defines "a \<equiv> b + 8 * (m - nu)"
  obtains bs' where "us @ (pp, l) # (if m = nu then ys else (b, m - nu) # ys) = (e, 0) # bs'" "sorted_wrt apart ((e, 0) # bs')"
    "\<forall>x \<in> set bs'. 0 < snd x" "pp \<in> insert e (fst ` set bs')" "cells bs' = cells bs - {a..<a + 8 * nu}" "{a..<a + 8 * nu} \<subseteq> cells bs"
    "m \<noteq> nu \<longrightarrow> a \<notin> fst ` set ((e, 0) # bs)"
proof -
  let ?r = "if m = nu then ys else (b, m - nu) # ys"
  obtain bs' where bs': "us @ (pp, l) # ?r = (e, 0) # bs'"
    using assms(1) by (cases us) auto
  have so: "sorted_wrt apart (us @ (pp, l) # (b, m) # ys)"
    using assms(2) unfolding assms(1) .
  have so': "sorted_wrt apart (us @ (pp, l) # ?r)"
    using so by (fastforce simp: sorted_wrt_append)
  have "set ((e, 0) # bs) = set (us @ (pp, l) # (b, m) # ys)" "cells ((e, 0) # bs) = cells (us @ (pp, l) # (b, m) # ys)"
    by (simp_all only: assms(1))
  note old = this
  have "set ((e, 0) # bs') = set (us @ (pp, l) # ?r)" "cells ((e, 0) # bs') = cells (us @ (pp, l) # ?r)"
    by (simp_all only: bs')
  note new = this
  have cut: "{b..<b + 8 * m} = {b..<b + 8 * (m - nu)} \<union> {a..<a + 8 * nu}"
    using assms(4) by (auto simp: a_def)
  have off: "cells (us @ (pp, l) # ys) \<inter> {b..<b + 8 * m} = {}"
    using cells_disjoint [of "us @ [(pp, l)]" b m ys] so by simp
  have "\<forall>x \<in> set ((e, 0) # bs). fst x = e \<or> 0 < snd x"
    using assms(3) by auto
  then have "\<forall>x \<in> set (us @ (pp, l) # ?r). fst x = e \<or> 0 < snd x"
    using assms(4) unfolding old(1) by auto
  then have "\<forall>x \<in> set bs'. fst x = e \<or> 0 < snd x"
    unfolding new(1) [symmetric] by simp
  moreover have "\<forall>x \<in> set bs'. fst x \<noteq> e"
    using so' unfolding bs' by auto
  ultimately have "\<forall>x \<in> set bs'. 0 < snd x"
    by blast
  moreover have "pp \<in> insert e (fst ` set bs')"
    using new(1) by force
  moreover have "cells bs' = cells bs - {a..<a + 8 * nu}" "{a..<a + 8 * nu} \<subseteq> cells bs"
    using old(2) new(2) cut off by (auto simp: a_def split: if_splits)
  moreover have "a \<notin> fst ` set (us @ (pp, l) # (b, m) # ys)" if "m \<noteq> nu"
    using so that assms(4,5) by (fastforce simp: sorted_wrt_append a_def)
  ultimately show thesis
    using that [OF bs'] so' unfolding bs' assms(1) by blast
qed

lemma take_block:
  assumes "ring s bs" "0 < nu" "(base_sym s, 0) # bs = us @ (pp, l) # (b, m) # ys" "nu \<le> m"
  defines "a \<equiv> b + 8 * (m - nu)"
  obtains t bs' where "malloc_loop g nu pp b s = Some (a + 8, t)" "ring t bs'" "usize t a = nu"
    "cells bs' = cells bs - {a..<a + 8 * nu}" "{a..<a + 8 * nu} \<subseteq> cells bs" "base_sym t = base_sym s" "brk t = brk s"
    "\<forall>x. x \<notin> insert (base_sym s) (fst ` set bs) \<and> x \<noteq> a \<longrightarrow> hdrs t x = hdrs s x"
proof -
  let ?e = "base_sym s" and ?r = "if m = nu then ys else (b, m - nu) # ys"
  note z = assms(3)
  have r: "blocks s ?e ((?e, 0) # bs) ?e" "sorted_wrt apart ((?e, 0) # bs)" "\<forall>x \<in> set bs. 0 < snd x"
    using assms(1) by (auto simp: ring_def)
  obtain bs' where l: "us @ (pp, l) # ?r = (?e, 0) # bs'" "sorted_wrt apart ((?e, 0) # bs')"
    "\<forall>x \<in> set bs'. 0 < snd x" "pp \<in> insert ?e (fst ` set bs')" "cells bs' = cells bs - {a..<a + 8 * nu}" "{a..<a + 8 * nu} \<subseteq> cells bs"
    "m \<noteq> nu \<longrightarrow> a \<notin> fst ` set ((?e, 0) # bs)"
    unfolding a_def by (rule take_list [OF z r(2,3) assms(4,2)])
  obtain t where t: "malloc_loop g nu pp b s = Some (a + 8, t)" "blocks t ?e (us @ (pp, l) # ?r) ?e" "usize t a = nu"
    "freep t = pp" "base_sym t = ?e" "brk t = brk s" "\<forall>x. x \<noteq> pp \<and> x \<noteq> b \<and> x \<noteq> a \<longrightarrow> hdrs t x = hdrs s x"
    unfolding a_def
    by (rule take_loop [OF r(1) [unfolded z] sorted_apart_distinct [OF r(2), unfolded z] assms(4) l(7) [unfolded z a_def]])
  have "ring t bs'"
    using t(2,4,5) l(2-4) unfolding ring_def l(1) by auto
  moreover have "set ((?e, 0) # bs) = set (us @ (pp, l) # (b, m) # ys)"
    by (simp only: z)
  then have "{pp, b} \<subseteq> insert ?e (fst ` set bs)"
    by force
  then have "\<forall>x. x \<notin> insert ?e (fst ` set bs) \<and> x \<noteq> a \<longrightarrow> hdrs t x = hdrs s x"
    using t(7) by auto
  ultimately show thesis
    using that [OF t(1) _ t(3) l(5,6) t(5,6)] by blast
qed

section \<open>Live blocks\<close>

text \<open>The blocks that the program holds, by the address of their header, with their units.\<close>

definition span :: "nat \<times> nat \<Rightarrow> nat set" where
  "span x = {fst x..<fst x + 8 * snd x}"

definition heap_ok :: "umem \<Rightarrow> (nat \<times> nat) list \<Rightarrow> (nat \<times> nat) set \<Rightarrow> bool" where
  "heap_ok s bs L \<longleftrightarrow> ring s bs \<and> 0 < base_sym s \<and> base_sym s + 8 \<le> brk s \<and> cells bs \<subseteq> {base_sym s + 8..<brk s} \<and>
     (\<forall>x \<in> L. 0 < snd x \<and> usize s (fst x) = snd x \<and> span x \<subseteq> {base_sym s + 8..<brk s} \<and> span x \<inter> cells bs = {}) \<and>
     (\<forall>x \<in> L. \<forall>y \<in> L. x \<noteq> y \<longrightarrow> span x \<inter> span y = {})"

lemma node_cells:
  assumes "ring s bs" "x \<in> fst ` set bs"
  shows "x \<in> cells bs"
proof -
  obtain n where n: "(x, n) \<in> set bs"
    using assms(2) by auto
  then have "0 < n"
    using assms(1) by (auto simp: ring_def)
  then show ?thesis
    unfolding cells_def by (intro UN_I [OF n]) simp
qed

lemma span_first: "0 < snd x \<Longrightarrow> fst x \<in> span x"
  by (simp add: span_def)

lemma heap_okD:
  assumes "heap_ok s bs L"
  shows "ring s bs" "0 < base_sym s" "base_sym s + 8 \<le> brk s" "cells bs \<subseteq> {base_sym s + 8..<brk s}"
    "x \<in> L \<Longrightarrow> 0 < snd x" "x \<in> L \<Longrightarrow> usize s (fst x) = snd x" "x \<in> L \<Longrightarrow> span x \<subseteq> {base_sym s + 8..<brk s}"
    "x \<in> L \<Longrightarrow> span x \<inter> cells bs = {}" "x \<in> L \<Longrightarrow> y \<in> L \<Longrightarrow> x \<noteq> y \<Longrightarrow> span x \<inter> span y = {}"
  using assms unfolding heap_ok_def by blast+

lemma heap_okI:
  assumes "ring s bs" "0 < base_sym s" "base_sym s + 8 \<le> brk s" "cells bs \<subseteq> {base_sym s + 8..<brk s}"
    and "\<And>x. x \<in> L \<Longrightarrow> 0 < snd x" "\<And>x. x \<in> L \<Longrightarrow> usize s (fst x) = snd x" "\<And>x. x \<in> L \<Longrightarrow> span x \<subseteq> {base_sym s + 8..<brk s}"
    and "\<And>x. x \<in> L \<Longrightarrow> span x \<inter> cells bs = {}" "\<And>x y. x \<in> L \<Longrightarrow> y \<in> L \<Longrightarrow> x \<noteq> y \<Longrightarrow> span x \<inter> span y = {}"
  shows "heap_ok s bs L"
  using assms unfolding heap_ok_def by blast

lemma live_not_node:
  assumes "heap_ok s bs L" "x \<in> L"
  shows "fst x \<notin> insert (base_sym s) (fst ` set bs)" "fst x < brk s" "base_sym s < fst x"
proof -
  have x: "fst x \<in> span x" "span x \<subseteq> {base_sym s + 8..<brk s}" "span x \<inter> cells bs = {}" "ring s bs"
    using assms by (auto simp: heap_ok_def span_first)
  then show "fst x < brk s" "base_sym s < fst x"
    by auto
  then show "fst x \<notin> insert (base_sym s) (fst ` set bs)"
    using x node_cells [OF x(4)] by auto
qed

lemma live_kept:
  assumes "heap_ok s bs L" "x \<in> L" "\<forall>y. y \<notin> insert (base_sym s) (fst ` set bs) \<and> y \<noteq> a \<longrightarrow> hdrs t y = hdrs s y" "fst x \<noteq> a"
  shows "usize t (fst x) = snd x"
  using assms(3,4) live_not_node(1) [OF assms(1,2)] heap_okD(6) [OF assms(1,2)] by simp

lemma heap_ok_release:
  assumes "heap_ok s bs L" "x \<in> L"
  obtains t bs' where "ufree (fst x + 8) s = Some t" "heap_ok t bs' (L - {x})" "cells bs' = cells bs \<union> span x" "brk t = brk s"
    "\<exists>y \<in> set bs'. snd x \<le> snd y"
proof -
  note h = heap_okD [OF assms(1)]
  obtain t bs' where t: "ufree (fst x + 8) s = Some t" "ring t bs'" "cells bs' = cells bs \<union> span x"
    "base_sym t = base_sym s" "brk t = brk s" "\<forall>y. y \<notin> insert (base_sym s) (fst ` set bs) \<and> y \<noteq> fst x \<longrightarrow> hdrs t y = hdrs s y"
    "\<forall>y \<in> insert (fst x, snd x) (set bs). \<exists>v \<in> set bs'. snd y \<le> snd v"
    unfolding span_def
    by (rule ufree_ring [OF h(1) h(6) [OF assms(2)] h(5) [OF assms(2)] live_not_node(3) [OF assms] h(8) [OF assms(2), unfolded span_def]]) blast
  have "heap_ok t bs' (L - {x})"
  proof (rule heap_okI)
    fix y
    assume y: "y \<in> L - {x}"
    then have off: "span y \<inter> span x = {}"
      using h(9) [of y x] assms(2) by blast
    have "fst y \<in> span y" "fst x \<in> span x"
      using y h(5) [of y] h(5) [OF assms(2)] span_first by simp_all
    then have "fst y \<noteq> fst x"
      using off by auto
    then show "usize t (fst y) = snd y"
      using live_kept [OF assms(1) _ t(6), of y] y by simp
    show "span y \<inter> cells bs' = {}"
      using off h(8) [of y] y t(3) by auto
  qed (use h assms(2) t in auto)
  then show thesis
    using that [OF t(1)] t(3,5,7) by auto
qed

lemma heap_ok_take:
  assumes "heap_ok s bs L" "0 < nu" "(base_sym s, 0) # bs = us @ (pp, l) # (b, m) # ys" "nu \<le> m"
  obtains t bs' a where "malloc_loop g nu pp b s = Some (a + 8, t)" "heap_ok t bs' (insert (a, nu) L)" "(a, nu) \<notin> L" "brk t = brk s"
    "cells bs = cells bs' \<union> span (a, nu)"
proof -
  note h = heap_okD [OF assms(1)]
  define a where "a = b + 8 * (m - nu)"
  obtain t bs' where t: "malloc_loop g nu pp b s = Some (a + 8, t)" "ring t bs'" "usize t a = nu" "cells bs' = cells bs - span (a, nu)"
    "span (a, nu) \<subseteq> cells bs" "base_sym t = base_sym s" "brk t = brk s"
    "\<forall>x. x \<notin> insert (base_sym s) (fst ` set bs) \<and> x \<noteq> a \<longrightarrow> hdrs t x = hdrs s x"
    unfolding span_def a_def fst_conv snd_conv by (rule take_block [OF h(1) assms(2-4)]) blast
  have a: "a \<in> span (a, nu)"
    using span_first [of "(a, nu)"] assms(2) by simp
  have off: "span x \<inter> span (a, nu) = {}" if "x \<in> L" for x
    using h(8) [OF that] t(5) by blast
  have keep: "usize t (fst x) = snd x" if "x \<in> L" for x
  proof (rule live_kept [OF assms(1) that t(8)])
    show "fst x \<noteq> a"
      using off [OF that] span_first [OF h(5) [OF that]] a by auto
  qed
  have "heap_ok t bs' (insert (a, nu) L)"
  proof (rule heap_okI)
    fix x y
    assume "x \<in> insert (a, nu) L" "y \<in> insert (a, nu) L" "x \<noteq> y"
    then show "span x \<inter> span y = {}"
      using off [of x] off [of y] h(9) [of x y] by auto
  next
    fix x
    assume x: "x \<in> insert (a, nu) L"
    show "usize t (fst x) = snd x" "span x \<inter> cells bs' = {}" "span x \<subseteq> {base_sym t + 8..<brk t}"
      using x keep [of x] t(3-7) h(4) h(7) [of x] h(8) [of x] by auto
  qed (use h(1-5) assms(2) t(2,4,6,7) in auto)
  moreover have "(a, nu) \<notin> L"
    using off [of "(a, nu)"] a by blast
  ultimately show thesis
    using that t by blast
qed

lemma heap_ok_freep:
  assumes "heap_ok s bs L"
  shows "freep s \<noteq> 0"
proof -
  note h = heap_okD [OF assms]
  have "freep s = base_sym s \<or> freep s \<in> cells bs"
    using h(1) node_cells [OF h(1), of "freep s"] unfolding ring_def by blast
  then show ?thesis
    using h(2,4) by auto
qed

lemma heap_ok_grow:
  assumes "heap_ok s bs L"
  shows "heap_ok (s\<lparr>brk := brk s + n\<rparr>) bs L"
proof -
  note h = heap_okD [OF assms]
  show ?thesis
  proof (rule heap_okI)
    show "span x \<subseteq> {base_sym (s\<lparr>brk := brk s + n\<rparr>) + 8..<brk (s\<lparr>brk := brk s + n\<rparr>)}" if "x \<in> L" for x
      using h(7) [OF that] by auto
    show "cells bs \<subseteq> {base_sym (s\<lparr>brk := brk s + n\<rparr>) + 8..<brk (s\<lparr>brk := brk s + n\<rparr>)}"
      using h(4) by auto
  qed (use h in \<open>auto simp: ring_def\<close>)
qed

lemma sbrk_size: "n < 2 ^ 31 \<Longrightarrow> sint (word_of_nat n :: 32 word) = int n"
  by (simp add: signed_of_nat signed_take_bit_int_eq_self)

lemma morecore_refused:
  assumes "nu * 8 < 2 ^ 31"
  shows "morecore False nu s = Some (0, s)"
proof -
  define k where "k = (if nu < 4096 then 4096 else nu)"
  have "k * 8 < 2 ^ 31" "0 < k"
    using assms by (auto simp: k_def)
  then show ?thesis
    unfolding morecore_def k_def [symmetric] Let_def by (simp only: sbrk_size) simp
qed

lemma morecore_ok:
  assumes "heap_ok s bs L" "nu * 8 < 2 ^ 31"
  defines "k \<equiv> (if nu < 4096 then 4096 else nu)"
  obtains t bs' where "morecore True nu s = Some (freep t, t)" "heap_ok t bs' L" "freep t \<noteq> 0" "\<exists>x \<in> set bs'. nu \<le> snd x"
    "brk t = brk s + 8 * k" "cells bs' = cells bs \<union> {brk s..<brk s + 8 * k}"
proof -
  note h = heap_okD [OF assms(1)]
  let ?p = "brk s"
  define u where "u = set_usize ?p k (s\<lparr>brk := ?p + 8 * k\<rparr>)"
  have k: "0 < k" "k * 8 < 2 ^ 31" "nu \<le> k"
    using assms(2) by (auto simp: k_def)
  have same: "\<forall>x. x \<noteq> ?p \<longrightarrow> hdrs u x = hdrs s x" and u: "base_sym u = base_sym s" "brk u = ?p + 8 * k" "freep u = freep s" "usize u ?p = k"
    by (simp_all add: u_def set_usize_def)
  have "?p \<notin> cells bs" "?p \<noteq> base_sym s"
    using h(3,4) by auto
  then have p: "?p \<notin> insert (base_sym s) (fst ` set bs)"
    using node_cells [OF h(1), of ?p] by blast
  have "blocks u (base_sym s) ((base_sym s, 0) # bs) (base_sym s)"
    by (rule blocks_frame [OF _ same]) (use h(1) p in \<open>auto simp: ring_def\<close>)
  then have ring: "ring u bs"
    using h(1) u unfolding ring_def by simp
  have live: "fst x \<noteq> ?p" if "x \<in> L" for x
    using live_not_node(2) [OF assms(1) that] by simp
  have new: "span (?p, k) \<inter> cells bs = {}"
    using h(4) by (auto simp: span_def)
  have off: "span x \<inter> span (?p, k) = {}" if "x \<in> L" for x
    using h(7) [OF that] by (auto simp: span_def)
  have ok: "heap_ok u bs (insert (?p, k) L)"
  proof (rule heap_okI)
    fix x y
    assume "x \<in> insert (?p, k) L" "y \<in> insert (?p, k) L" "x \<noteq> y"
    then show "span x \<inter> span y = {}"
      using off [of x] off [of y] h(9) [of x y] by auto
  next
    fix x
    assume x: "x \<in> insert (?p, k) L"
    show "usize u (fst x) = snd x"
      using x u(4) same live [of x] h(6) [of x] by auto
    show "span x \<subseteq> {base_sym u + 8..<brk u}" "span x \<inter> cells bs = {}" "0 < snd x"
      using x u h(3) h(5) [of x] h(7) [of x] h(8) [of x] new k(1) by (auto simp: span_def)
  qed (use ring u h(2-4) in auto)
  obtain t bs' where t: "ufree (fst (?p, k) + 8) u = Some t" "heap_ok t bs' (insert (?p, k) L - {(?p, k)})"
    "cells bs' = cells bs \<union> span (?p, k)" "brk t = brk u" "\<exists>y \<in> set bs'. snd (?p, k) \<le> snd y"
    by (rule heap_ok_release [OF ok insertI1])
  have "(?p, k) \<notin> L"
    using live by force
  then have h': "heap_ok t bs' L"
    using t(2) by simp
  moreover have "morecore True nu s = Some (freep t, t)"
    unfolding morecore_def k_def [symmetric] Let_def sbrk_size [OF k(2)] using t(1) k(1) by (simp add: u_def mult.commute nat_mult_distrib)
  moreover have "freep t \<noteq> 0"
    by (rule heap_ok_freep [OF h'])
  ultimately show thesis
    using that t(3-5) u(2) k(3) by (force simp: span_def)
qed

text \<open>The search with a block that fits, and without.\<close>

lemma malloc_loop_fits:
  assumes "heap_ok s bs L" "0 < nu" "\<exists>x \<in> set bs. nu \<le> snd x"
  obtains t bs' a where "malloc_loop g nu (freep s) (uptr s (freep s)) s = Some (a + 8, t)" "heap_ok t bs' (insert (a, nu) L)"
    "(a, nu) \<notin> L" "brk t = brk s" "cells bs = cells bs' \<union> span (a, nu)"
proof (cases rule: ring_scan [OF heap_okD(1) [OF assms(1)] assms(2), of g])
  case fit: (1 us pp l b m ys)
  show thesis
    by (rule heap_ok_take [OF assms(1,2) fit(1,2), of g]) (use that fit(3) in simp)
next
  case full: 2
  then show thesis
    using assms(3) by auto
qed

lemma malloc_loop_ok:
  assumes "heap_ok s bs L" "0 < nu" "nu * 8 < 2 ^ 31"
  obtains (null) "malloc_loop g nu (freep s) (uptr s (freep s)) s = Some (0, s)" "\<not> g" "\<forall>x \<in> set bs. snd x < nu"
  | (found) t bs' a where "malloc_loop g nu (freep s) (uptr s (freep s)) s = Some (a + 8, t)" "heap_ok t bs' (insert (a, nu) L)"
      "(a, nu) \<notin> L"
proof (cases "\<exists>x \<in> set bs. nu \<le> snd x")
  case True
  show thesis
    by (rule malloc_loop_fits [OF assms(1,2) True, of g]) (use found in blast)
next
  case False
  have full: "malloc_loop g nu (freep s) (uptr s (freep s)) s =
      do { (p, s) \<leftarrow> morecore g nu s; if p = 0 then Some (0, s) else malloc_loop g nu p (uptr s p) s }"
  proof (cases rule: ring_scan [OF heap_okD(1) [OF assms(1)] assms(2), of g])
    case fit: (1 us pp l b m ys)
    then have "(b, m) \<in> set bs"
      by (cases us) auto
    then show ?thesis
      using False fit(2) by auto
  qed simp
  show thesis
  proof (cases g)
    case True
    obtain t bs' where t: "morecore True nu s = Some (freep t, t)" "heap_ok t bs' L" "freep t \<noteq> 0" "\<exists>x \<in> set bs'. nu \<le> snd x"
      by (rule morecore_ok [OF assms(1,3)])
    show thesis
      by (rule malloc_loop_fits [OF t(2) assms(2) t(4), of g]) (use found full True t in simp)
  next
    case no: False
    have "morecore g nu s = Some (0, s)"
      using no morecore_refused [OF assms(3)] by simp
    then show thesis
      using null full no False by force
  qed
qed

section \<open>A program and its memory\<close>

text \<open>
  What a program does: it allocates, it frees a block that it holds, and it may call \<^verbatim>\<open>sbrk\<close> itself.
  A request is below 2 to the 31, less two headers, so that its size is a positive \<^verbatim>\<open>int\<close>.
\<close>

definition modest :: "32 word \<Rightarrow> bool" where
  "modest nbytes \<longleftrightarrow> unat nbytes < 2 ^ 31 - 16"

inductive um_step :: "umem \<times> (nat \<times> nat) set \<Rightarrow> umem \<times> (nat \<times> nat) set \<Rightarrow> bool" where
  get: "malloc g nbytes s = Some (r, t) \<Longrightarrow> modest nbytes \<Longrightarrow> r \<noteq> 0 \<Longrightarrow> um_step (s, L) (t, insert (r - 8, nunits_of nbytes) L)"
| fail: "malloc g nbytes s = Some (0, t) \<Longrightarrow> modest nbytes \<Longrightarrow> um_step (s, L) (t, L)"
| give: "(a, n) \<in> L \<Longrightarrow> ufree (a + 8) s = Some t \<Longrightarrow> um_step (s, L) (t, L - {(a, n)})"
| more: "um_step (s, L) (s\<lparr>brk := brk s + n\<rparr>, L)"

definition um_fresh :: "umem \<times> (nat \<times> nat) set \<Rightarrow> bool" where
  "um_fresh c \<longleftrightarrow> freep (fst c) = 0 \<and> snd c = {} \<and> 0 < base_sym (fst c) \<and> base_sym (fst c) + 8 \<le> brk (fst c)"

definition um_ok :: "umem \<times> (nat \<times> nat) set \<Rightarrow> bool" where
  "um_ok c \<longleftrightarrow> um_fresh c \<or> (\<exists>bs. heap_ok (fst c) bs (snd c))"

lemma unat_small: "n < 2 ^ 32 \<Longrightarrow> unat (word_of_nat n :: 32 word) = n"
  by (simp add: unsigned_of_nat take_bit_nat_eq_self)

lemma nunits_of_modest:
  assumes "modest nbytes"
  shows "nunits_of nbytes = (unat nbytes + 7) div 8 + 1"
proof -
  define n where "n = unat nbytes"
  have n: "n < 2 ^ 31 - 16" "nbytes = word_of_nat n"
    using assms by (simp_all add: modest_def n_def)
  have a: "nbytes + 8 - 1 = word_of_nat (n + 7)"
    by (simp add: n(2))
  have b: "unat ((word_of_nat (n + 7) :: 32 word) div 8) = (n + 7) div 8"
    using n(1) unat_small [of "n + 7"] by (simp only: unat_div) simp
  define q where "q = (word_of_nat (n + 7) :: 32 word) div 8"
  have "q = word_of_nat (unat q)"
    by simp
  then have c: "(word_of_nat (n + 7) :: 32 word) div 8 + 1 = word_of_nat ((n + 7) div 8 + 1)"
    unfolding q_def [symmetric] b [folded q_def] by simp
  have "(n + 7) div 8 + 1 < 2 ^ 32"
    using n(1) by simp
  then show ?thesis
    unfolding nunits_of_def a c n_def [symmetric] by (rule unat_small)
qed

lemma nunits_bounds:
  assumes "modest nbytes"
  shows "0 < nunits_of nbytes" "nunits_of nbytes * 8 < 2 ^ 31" "8 + unat nbytes \<le> 8 * nunits_of nbytes"
  using assms unfolding nunits_of_modest [OF assms] modest_def by auto

lemma malloc_ok:
  assumes "um_ok (s, L)" "modest nbytes"
  obtains (null) t where "malloc g nbytes s = Some (0, t)" "um_ok (t, L)" "\<not> g"
  | (found) t bs a where "malloc g nbytes s = Some (a + 8, t)" "heap_ok t bs (insert (a, nunits_of nbytes) L)" "(a, nunits_of nbytes) \<notin> L"
proof -
  define u where "u = (if freep s = 0 then set_usize (base_sym s) 0 (set_uptr (base_sym s) (base_sym s) (s\<lparr>freep := base_sym s\<rparr>)) else s)"
  have "\<exists>bs. heap_ok u bs L"
  proof (cases "um_fresh (s, L)")
    case True
    then have "heap_ok u [] L"
      by (simp add: u_def um_fresh_def heap_ok_def ring_def)
    then show ?thesis ..
  next
    case False
    then obtain bs where "heap_ok s bs L"
      using assms(1) by (auto simp: um_ok_def)
    then show ?thesis
      using heap_ok_freep [of s bs L] by (auto simp: u_def)
  qed
  then obtain bs where h: "heap_ok u bs L" ..
  have m: "malloc g nbytes s = malloc_loop g (nunits_of nbytes) (freep u) (uptr u (freep u)) u"
    by (simp add: malloc_def u_def Let_def)
  show thesis
  proof (cases rule: malloc_loop_ok [OF h nunits_bounds(1,2) [OF assms(2)], of g])
    case 1
    then show ?thesis
      using null h m by (auto simp: um_ok_def)
  next
    case (2 t bs' a)
    then show ?thesis
      using found m by simp
  qed
qed

interpretation um_inv: step_invariant um_fresh um_step um_ok
proof
  show "um_ok c" if "um_fresh c" for c
    using that by (simp add: um_ok_def)
  fix c d
  assume ok: "um_ok c" and "um_step c d"
  from this(2) show "um_ok d"
  proof cases
    case (get g nbytes s r t L)
    show ?thesis
      by (rule malloc_ok [of s L nbytes g]) (use get ok in \<open>auto simp: um_ok_def\<close>)
  next
    case (fail g nbytes s t L)
    show ?thesis
      by (rule malloc_ok [of s L nbytes g]) (use fail ok in auto)
  next
    case (give a n L s t)
    then obtain bs where "heap_ok s bs L"
      using ok by (auto simp: um_ok_def um_fresh_def)
    then obtain t' bs' where "ufree (a + 8) s = Some t'" "heap_ok t' bs' (L - {(a, n)})"
      using give(3) by (auto elim: heap_ok_release [of s bs L "(a, n)"])
    then show ?thesis
      using give by (auto simp: um_ok_def)
  next
    case (more s L n)
    then show ?thesis
      using ok by (auto simp: um_ok_def um_fresh_def dest: heap_ok_grow [where n = n])
  qed
qed

text \<open>C7. The blocks that \<^verbatim>\<open>malloc\<close> gives out never overlap. However a program allocates fewer than 2 to the 31 less 16 bytes
  at a time, frees blocks that it holds, and lets its memory grow with \<^verbatim>\<open>sbrk\<close> itself: the blocks it holds, with their headers, are disjoint, lie between the static header and the
  end of the memory of the process, and their headers still have the size that was asked for.
\<close>

theorem umalloc_separate:
  assumes "reach um_fresh um_step (s, L)"
  shows "\<forall>x \<in> L. span x \<subseteq> {base_sym s + 8..<brk s} \<and> usize s (fst x) = snd x \<and> (\<forall>y \<in> L. x \<noteq> y \<longrightarrow> span x \<inter> span y = {})"
proof (cases "L = {}")
  case False
  then obtain bs where "heap_ok s bs L"
    using um_inv.reach_inv [OF assms] by (auto simp: um_ok_def um_fresh_def)
  from heap_okD [OF this] show ?thesis
    by blast
qed simp

text \<open>C8. \<^verbatim>\<open>malloc\<close> and \<^verbatim>\<open>free\<close> return. In every state that a program can reach with requests of fewer than 2 to the 31 less 16 bytes, calls of
  \<^verbatim>\<open>free\<close> on blocks that it holds and growing of its memory, \<^verbatim>\<open>malloc\<close> of so many bytes ends its search around the ring;
  it returns a null pointer only when the kernel refuses more memory, and otherwise a block with room
  for the bytes asked for that overlaps nothing that the program holds. \<^verbatim>\<open>free\<close> of a block that it holds returns too.
\<close>

theorem umalloc_returns:
  assumes "reach um_fresh um_step (s, L)" "modest nbytes"
  shows "(\<exists>r t. malloc g nbytes s = Some (r, t) \<and> (r = 0 \<longrightarrow> \<not> g) \<and>
      (r \<noteq> 0 \<longrightarrow> {r..<r + unat nbytes} \<subseteq> span (r - 8, nunits_of nbytes) \<and> (\<forall>x \<in> L. span x \<inter> span (r - 8, nunits_of nbytes) = {}))) \<and>
    (\<forall>x \<in> L. \<exists>t. ufree (fst x + 8) s = Some t)"
proof (intro conjI ballI)
  have ok: "um_ok (s, L)"
    by (rule um_inv.reach_inv [OF assms(1)])
  show "\<exists>t. ufree (fst x + 8) s = Some t" if x: "x \<in> L" for x
  proof -
    obtain bs where "heap_ok s bs L"
      using ok x by (auto simp: um_ok_def um_fresh_def)
    then show ?thesis
      using x by (rule heap_ok_release) blast
  qed
  show "\<exists>r t. malloc g nbytes s = Some (r, t) \<and> (r = 0 \<longrightarrow> \<not> g) \<and>
      (r \<noteq> 0 \<longrightarrow> {r..<r + unat nbytes} \<subseteq> span (r - 8, nunits_of nbytes) \<and> (\<forall>x \<in> L. span x \<inter> span (r - 8, nunits_of nbytes) = {}))"
  proof (cases rule: malloc_ok [OF ok assms(2), of g])
    case (2 t bs a)
    have "span x \<inter> span (a, nunits_of nbytes) = {}" if "x \<in> L" for x
      using heap_okD(9) [OF 2(2), of x "(a, nunits_of nbytes)"] that 2(3) by blast
    moreover have "{a + 8..<a + 8 + unat nbytes} \<subseteq> span (a, nunits_of nbytes)"
      using nunits_bounds(3) [OF assms(2)] by (auto simp: span_def)
    ultimately show ?thesis
      using 2(1) by auto
  qed auto
qed

text \<open>The sum in \<^verbatim>\<open>malloc\<close> is not checked: the largest request wraps around to a block of one header and no bytes.\<close>

lemma nunits_wraps: "nunits_of 0xFFFFFFFF = 1"
  by (simp add: nunits_of_def)

definition um_start :: umem where
  "um_start = \<lparr>hdrs = \<lambda>_. \<lparr>h_ptr = 0, h_size = 0\<rparr>, freep = 0, base_sym = 0x1000, brk = 0x4000\<rparr>"

lemma nunits_100: "nunits_of 100 = 14" "modest 100"
  by (simp_all add: nunits_of_def modest_def)

lemma um_start_malloc: "map_option (\<lambda>(r, t). (r, base_sym t)) (malloc True 100 um_start) = Some (49048, 0x1000)"
  by (simp add: malloc_def um_start_def nunits_100 malloc_loop.simps [of True 14 "0x1000" "0x1000"] malloc_loop.simps [of True 14 "0x1000" "0x4000"]
      morecore_def ufree_def free_find.simps [of _ "0x4000" "0x1000"] Let_def)

lemma um_start_reach: "reach um_fresh um_step (um_start, {})"
  by (rule reach_init) (simp add: um_fresh_def um_start_def)

theorem umalloc_separate_witness:
  "\<exists>t. malloc True 100 um_start = Some (49048, t) \<and> span (49040, 14) \<subseteq> {0x1008..<brk t} \<and> usize t 49040 = 14"
proof -
  obtain t where t: "malloc True 100 um_start = Some (49048, t)" and b: "base_sym t = 0x1000"
    using um_start_malloc by auto
  have "reach um_fresh um_step (t, {(49040, 14)})"
    using reach_step [OF um_start_reach um_step.get [OF t nunits_100(2)]] by (simp add: nunits_100)
  from umalloc_separate [OF this] t b show ?thesis
    by simp
qed

theorem umalloc_returns_witness:
  "\<exists>t. malloc True 100 um_start = Some (49048, t) \<and> {49048..<49148} \<subseteq> span (49040, 14)"
  using umalloc_returns [OF um_start_reach nunits_100(2), of True] um_start_malloc by (auto simp: nunits_100)

end
