(* ===== verification/Spec2Isabelle.thy ===== *)
theory Spec2Isabelle
  imports Prelude Byte_Store Chunk_Scan Allocator_Spec Alloc Ealloc Cond_Var Ssu_Sem Rw_Lock
    Rw_Lock_Readers Master_Worker Ssu_Shell Ssufs_Disk Ssufs_Ops Ssufs_Files Ssufs_Data
    Xv6_String Xv6_Kalloc Xv6_Vm Xv6_Paging Xv6_Uvm Xv6_Aspace Xv6_Copy Xv6_Lock Xv6_Bio Xv6_Log Xv6_Log_Crash
    Ring_Buffer Xv6_Console Xv6_Inode Xv6_Fs Xv6_Pipe Xv6_Kernel Xv6_Proc Xv6_Syscall
    Xv6_Sysfile Xv6_Trap Xv6_Boot Xv6_Sched Xv6_Pids Xv6_Args Xv6_Fs_Facts Xv6_Refs
    Xv6_Ulib Xv6_Grep Xv6_Sh Xv6_Umalloc
begin

text \<open>
  A verification of the programs under \<^verbatim>\<open>src\<close>: the homework of a course on operating systems.

  \<^medskip>
  \<^bold>\<open>The programs.\<close>
  \<^item> \<^verbatim>\<open>hw2\<close>: a shell with pipelines (\<^verbatim>\<open>ssu_shell.c\<close>) and a process monitor (\<^verbatim>\<open>top.c\<close>).
  \<^item> \<^verbatim>\<open>hw3/xv6\<close>: the teaching kernel xv6 with a scheduler by priorities and some system calls added.
  \<^item> \<^verbatim>\<open>hw4\<close>: a producer-consumer program, a readers-writer lock in two versions and a semaphore, on POSIX threads.
  \<^item> \<^verbatim>\<open>hw5\<close>: two first-fit allocators for memory from \<^verbatim>\<open>mmap\<close>, one of a single page and one of up to four.
  \<^item> \<^verbatim>\<open>hw6\<close>: a file system in a file (\<^verbatim>\<open>ssufs-disk.c\<close>, \<^verbatim>\<open>ssufs-ops.c\<close>).

  The programs of different homeworks do not call each other. Inside the kernel, the system calls
  (\<^verbatim>\<open>sysfile.c\<close>, \<^verbatim>\<open>sysproc.c\<close>) use processes, open files and the page tables; open files use pipes, inodes and the
  console; inodes use the log, the log the buffer cache, the buffer cache the disk.

  \<^medskip>
  \<^bold>\<open>Conventions.\<close> A structure of C is a record, with its fields in the order of the source, and an operation
  is a function from the state to the result and the new state. An operation that may panic, follow
  a null pointer, or wait for something that only another process can do has an option as its result.
  Loops are recursive functions; a loop that may not end is a partial function with the value \<open>None\<close> then, and
  the theorems about it state that there is a result. Counters whose wrap-around matters are words; addresses
  of the kernel are natural numbers with the wrap-around written out. What is not in the repository
  (\<^verbatim>\<open>mmap\<close>, \<^verbatim>\<open>fork\<close> of Linux, the answers of a user process or of the keyboard) is an argument. Threads and processors
  are interleaved: a step relation has one rule for each piece of code that a lock makes atomic, and for spin locks themselves
  one step for each statement that uses the lock, over sequentially consistent memory.

  \<^medskip>
  \<^bold>\<open>Common base.\<close>
  \<^item> \<open>Prelude\<close>: first-match search, the contract of a table of slots, reachability and the locale \<open>step_invariant\<close>,
    through which every invariant of a step relation is proved.
  \<^item> \<open>Byte_Store\<close>: little-endian integers in byte strings, reading and writing of a stretch.
  \<^item> \<open>Cond_Var\<close>: condition variables, with and without spurious wake-ups.
  \<^item> \<open>Allocator_Spec\<close>: what a client of \<^verbatim>\<open>alloc\<close> and \<^verbatim>\<open>dealloc\<close> relies on. Both allocators of hw5 are instances.
  \<^item> \<open>Ring_Buffer\<close>: a ring with free-running counters. The console and the pipes are instances.

  \<^medskip>
  \<^bold>\<open>hw5.\<close> \<open>Chunk_Scan\<close> has the descriptors and the scan that the two allocators share, \<open>Alloc\<close> is \<^verbatim>\<open>alloc.c\<close> and \<open>Ealloc\<close> is
  \<^verbatim>\<open>ealloc.c\<close>. Shown: the chunk returned is the first run that is long enough, live chunks never overlap or
  leave their page, NULL is returned only when there is no room, and \<^verbatim>\<open>dealloc\<close> undoes \<^verbatim>\<open>alloc\<close>.

  \<^medskip>
  \<^bold>\<open>hw4.\<close> \<open>Ssu_Sem\<close> is \<^verbatim>\<open>SSU_Sem.c\<close>; \<open>Rw_Lock\<close> is \<^verbatim>\<open>rw_lock-w-test.c\<close> and \<open>Rw_Lock_Readers\<close> is \<^verbatim>\<open>rw_lock-r-test.c\<close>; \<open>Master_Worker\<close> is
  \<^verbatim>\<open>master-worker.c\<close>. Each \<^verbatim>\<open>pthread_cond_wait\<close> splits its function. Shown: the semaphore lets through exactly as many
  threads as it should, the lock excludes when woken threads get the mutex first (and does not otherwise), no
  number is lost or consumed twice, and without spurious wake-ups the buffer does not overflow with one master and one worker (and does
  with three threads).

  \<^medskip>
  \<^bold>\<open>hw2.\<close> \<open>Ssu_Shell\<close> has the tokenizer with its fixed buffers and the wiring of a pipeline. Shown: the tokens are the
  words of the line, and in a pipeline of a shell that has only its standard descriptors open, descriptors 0 and 1 of every
  process are the right ends of the pipes (further ends stay open in the children, as in the code). A pipeline with
  an empty command crashes the shell.

  \<^medskip>
  \<^bold>\<open>hw6.\<close> \<open>Ssufs_Disk\<close> is \<^verbatim>\<open>ssufs-disk.c\<close> and \<open>Ssufs_Ops\<close> is \<^verbatim>\<open>ssufs-ops.c\<close>, byte for byte on the file that holds the disk. \<open>Ssufs_Files\<close>
  shows what creating and deleting do to the names and to the free lists, \<open>Ssufs_Data\<close> that reads return and
  writes append exactly the bytes they should, over block boundaries.

  \<^medskip>
  \<^bold>\<open>xv6, memory.\<close>
  \<^item> \<open>Xv6_String\<close> (\<^verbatim>\<open>string.c\<close>): the routines over a byte memory; \<^verbatim>\<open>memmove\<close> is right for overlapping regions.
  \<^item> \<open>Xv6_Kalloc\<close> (\<^verbatim>\<open>kalloc.c\<close>): the list of free pages inside of the pages; no page is lost or given out twice.
  \<^item> \<open>Xv6_Vm\<close> (\<^verbatim>\<open>vm.c\<close>, \<^verbatim>\<open>mmu.h\<close>): page tables as words in memory. \<open>Xv6_Paging\<close>, \<open>Xv6_Uvm\<close> and \<open>Xv6_Aspace\<close> see them as a partial map
    from virtual addresses to bytes; \<open>Xv6_Copy\<close> shows that \<^verbatim>\<open>copyuvm\<close> makes a copy in pages of its own or gives
    every page back, and that \<^verbatim>\<open>allocuvm\<close> extends the memory or leaves it as it was.

  \<^medskip>
  \<^bold>\<open>xv6, files.\<close>
  \<^item> \<open>Xv6_Lock\<close> (\<^verbatim>\<open>spinlock.c\<close>, \<^verbatim>\<open>sleeplock.c\<close>): mutual exclusion over all interleavings of the processors.
  \<^item> \<open>Xv6_Bio\<close> (\<^verbatim>\<open>bio.c\<close>, \<^verbatim>\<open>memide.c\<close>) and \<open>Xv6_Log\<close> (\<^verbatim>\<open>log.c\<close>): the buffer cache and the log, with the writes to the disk in
    their order. \<open>Xv6_Log_Crash\<close> shows that a crash between any two of them leaves the old or the new state.
  \<^item> \<open>Xv6_Inode\<close> and \<open>Xv6_Fs\<close> (\<^verbatim>\<open>fs.c\<close>): blocks, inodes, directories and paths. \<open>Xv6_Fs_Facts\<close>: the bitmap is the set of free
    blocks, a path is taken apart into its elements, an inode on the disk is read back as it was written.
  \<^item> \<open>Xv6_Pipe\<close> (\<^verbatim>\<open>pipe.c\<close>): a bounded queue under every interleaving. \<open>Xv6_Kernel\<close> (\<^verbatim>\<open>file.c\<close>): the table of open files.
  \<^item> \<open>Xv6_Console\<close> (\<^verbatim>\<open>console.c\<close>): the input handler is a line editor; the output stays on the screen, and goes to the serial port if there is one.

  \<^medskip>
  \<^bold>\<open>xv6, processes.\<close>
  \<^item> \<open>Xv6_Proc\<close> (\<^verbatim>\<open>proc.c\<close>), \<open>Xv6_Syscall\<close> (\<^verbatim>\<open>syscall.c\<close>, \<^verbatim>\<open>sysproc.c\<close>), \<open>Xv6_Sysfile\<close> (\<^verbatim>\<open>sysfile.c\<close>, \<^verbatim>\<open>exec.c\<close>), \<open>Xv6_Trap\<close> (\<^verbatim>\<open>trap.c\<close>): every
    system call and the handler, over one record for the state of the kernel. \<open>Xv6_Boot\<close> has the state at boot.
  \<^item> \<open>Xv6_Sched\<close>: the sort of the scheduler sorts, and in one turn of its loop every ready process runs as often
    as there are ready processes of its priority or a lower one. What a process does while it runs is the locale \<open>cpu_bound\<close>.
  \<^item> \<open>Xv6_Pids\<close>: pids are unique until \<^verbatim>\<open>nextpid\<close> wraps around. \<open>Xv6_Refs\<close>: the count of an open file is the number of descriptors for it, however
    processes call \<^verbatim>\<open>dup\<close>, \<^verbatim>\<open>close\<close>, \<^verbatim>\<open>open\<close>, \<^verbatim>\<open>pipe\<close>, \<^verbatim>\<open>fork\<close>, \<^verbatim>\<open>exit\<close> and \<^verbatim>\<open>wait\<close> (for \<^verbatim>\<open>open\<close>, the part that takes a file and a descriptor), sleep and are scheduled. \<open>Xv6_Args\<close>: a pointer that a system call accepts lies inside the memory of the process.

  \<^medskip>
  \<^bold>\<open>xv6, user programs.\<close>
  \<^item> \<open>Xv6_Ulib\<close> (\<^verbatim>\<open>ulib.c\<close>, \<^verbatim>\<open>printf.c\<close>): the digits of a number that is printed are read back by \<^verbatim>\<open>atoi\<close> as its absolute value, but for the smallest \<^verbatim>\<open>int\<close>.
  \<^item> \<open>Xv6_Umalloc\<close> (\<^verbatim>\<open>umalloc.c\<close>): \<^verbatim>\<open>malloc\<close> and \<^verbatim>\<open>free\<close> return, and the blocks given out never overlap, for requests
    below 2 to the 31 less 16 bytes and a program that frees only what it holds.
  \<^item> \<open>Xv6_Grep\<close> (\<^verbatim>\<open>grep.c\<close>): the matcher decides the language of the pattern; complete lines are printed exactly when they
    match, if every read brings an end of line and there is no NUL byte.
  \<^item> \<open>Xv6_Sh\<close> (\<^verbatim>\<open>sh.c\<close>): the parser returns on every line, builds well formed trees, and reads back every tree
    from its text.

  \<^medskip>
  \<^bold>\<open>Bounds and fuel.\<close> Only the parser of the shell has fuel: four units for each byte of the line and four more,
  which \<open>parsecmd_returns\<close> shows to be enough. \<^verbatim>\<open>nextpid\<close>, the counters of context switches and the value
  of \<^verbatim>\<open>atoi\<close> wrap around at 32 bits (\<open>int32\<close> of \<open>Prelude\<close>); a ghost counter of the pids given out states how long pids are unique. The sizes of all tables are those of the source.

  \<^medskip>
  \<^bold>\<open>Not modelled.\<close>
  \<^item> Code that only talks to hardware or is not C: \<^verbatim>\<open>lapic.c\<close>, \<^verbatim>\<open>ioapic.c\<close>, \<^verbatim>\<open>picirq.c\<close>, \<^verbatim>\<open>mp.c\<close>, \<^verbatim>\<open>ide.c\<close>, \<^verbatim>\<open>kbd.c\<close>, \<^verbatim>\<open>uart.c\<close> but for its output, the segment
    and interrupt descriptors, \<^verbatim>\<open>bootmain.c\<close>, \<^verbatim>\<open>main.c\<close>, and the assembly files. A switch of stacks is the order of
    the steps.
  \<^item> Programs that only make system calls or print: \<^verbatim>\<open>cat.c\<close>, \<^verbatim>\<open>wc.c\<close>, \<^verbatim>\<open>ls.c\<close>, \<^verbatim>\<open>runcmd\<close> and \<^verbatim>\<open>main\<close> of \<^verbatim>\<open>sh.c\<close>, \<^verbatim>\<open>echo.c\<close>, \<^verbatim>\<open>init.c\<close>, \<^verbatim>\<open>ln.c\<close>, \<^verbatim>\<open>rm.c\<close>, \<^verbatim>\<open>mkdir.c\<close>, \<^verbatim>\<open>kill.c\<close>, \<^verbatim>\<open>zombie.c\<close>, the tests,
    \<^verbatim>\<open>hw2/top.c\<close> and \<^verbatim>\<open>hw1\<close>. \<^verbatim>\<open>mkfs.c\<close> builds the image of the disk on the host.
  \<^item> \<^verbatim>\<open>hw3/qemu-master\<close>: the emulator, a copy of a third-party program that the homework does not change.
\<close>

end
